(* ===== verification/Prelude.thy ===== *)
theory Prelude
  imports Main "HOL-Library.Word"
begin

text \<open>
  What the component theories share: the type of a computation that can stop on a fault or fail
  to return, the fixed-width signed arithmetic of the C++ code, and lemmas on lists.

  A computation of the model has type \<open>'a run\<close>, that is \<open>(fault + 'a) option\<close>: \<open>None\<close> is a loop
  that never returns, \<open>Some (Inl e)\<close> is a run stopped by the fault \<open>e\<close> (a failed \<open>assert\<close> or an
  access outside a vector, which C++ leaves undefined) and \<open>Some (Inr x)\<close> returns \<open>x\<close>.
\<close>

section \<open>Computations\<close>

datatype fault =
    Pool_Exhausted \<comment> \<open>the assertion in \<open>ObjectPool::allocate\<close>\<close>
  | Level_Missing \<comment> \<open>the assertion in \<open>OrderBook::cancel_order\<close>\<close>
  | Bad_Index \<comment> \<open>an element access outside its vector\<close>
  | Lifetime \<comment> \<open>an object used where none is alive\<close>
  | Data_Race \<comment> \<open>conflicting accesses of two threads that nothing orders\<close>
  | Assert_Failed \<comment> \<open>any other failed assertion\<close>

type_synonym 'a run = "(fault + 'a) option"

abbreviation ok :: "'a \<Rightarrow> 'a run" where
  "ok x \<equiv> Some (Inr x)"

abbreviation abort :: "fault \<Rightarrow> 'a run" where
  "abort e \<equiv> Some (Inl e)"

fun chain :: "'a run \<Rightarrow> ('a \<Rightarrow> 'b run) \<Rightarrow> 'b run" where
  "chain None f = None"
| "chain (Some (Inl e)) f = Some (Inl e)"
| "chain (Some (Inr x)) f = f x"

lemma chain_bind:
  "chain m f = Option.bind m (\<lambda>r. case r of Inl e \<Rightarrow> Some (Inl e) | Inr x \<Rightarrow> f x)"
  by (cases "(m, f)" rule: chain.cases) auto

text \<open>With this rule a loop may call itself under \<open>chain\<close> in a \<open>partial_function\<close>.\<close>

lemma chain_mono [partial_function_mono]:
  assumes m: "mono_option m" and f: "\<And>y. mono_option (\<lambda>g. f y g)"
  shows "mono_option (\<lambda>g. chain (m g) (\<lambda>y. f y g))"
  unfolding chain_bind
proof (rule bind_mono [OF m])
  fix r :: "fault + 'c"
  show "mono_option (\<lambda>g. case r of Inl e \<Rightarrow> Some (Inl e) | Inr x \<Rightarrow> f x g)"
    by (cases r) (simp_all add: f option.const_mono)
qed

lemma chain_eq_ok: "chain m f = ok y \<longleftrightarrow> (\<exists>x. m = ok x \<and> f x = ok y)"
  by (cases "(m, f)" rule: chain.cases) auto

lemma chain_assoc: "chain (chain m f) g = chain m (\<lambda>x. chain (f x) g)"
  by (cases "(m, f)" rule: chain.cases) auto

lemma run_cases: "r = None \<or> (\<exists>e. r = abort e) \<or> (\<exists>x. r = ok x)"
  by (metis option.exhaust sum.exhaust)

text \<open>A run of which a part of the result evaluates.\<close>

lemma run_map: "map_option (map_sum (\<lambda>e. e) f) r = ok x \<Longrightarrow> \<exists>y. r = ok y \<and> f y = x"
  using run_cases [of r] by auto

lemma run_fst: "map_option (map_sum (\<lambda>e. e) fst) r = ok x \<Longrightarrow> \<exists>y. r = ok (x, y)"
  using run_cases [of r] by (auto simp: prod_eq_iff)

lemma run_fst_eq: "map_option (map_sum (\<lambda>e. e) fst) r = ok x \<Longrightarrow> \<exists>a y. r = ok (a, y) \<and> a = x"
  using run_fst [of r x] by blast

section \<open>Fixed-width signed integers\<close>

text \<open>
  \<open>std::int64_t\<close> (volumes) and \<open>std::int32_t\<close> (pool indices) are integers reduced to the width
  after every operation. Signed overflow is undefined in C++; the reduction is what a
  two's-complement machine computes, and every theorem that needs exact sums assumes them in range.
\<close>

definition wrap64 :: "int \<Rightarrow> int" where
  "wrap64 x = signed_take_bit 63 x"

definition wrap32 :: "int \<Rightarrow> int" where
  "wrap32 x = signed_take_bit 31 x"

abbreviation i64 :: "int \<Rightarrow> bool" where
  "i64 x \<equiv> - (2 ^ 63) \<le> x \<and> x < 2 ^ 63"

lemma wrap64_id: "i64 x \<Longrightarrow> wrap64 x = x"
  unfolding wrap64_def by (rule signed_take_bit_int_eq_self) auto

lemma wrap32_id: "- (2 ^ 31) \<le> x \<Longrightarrow> x < 2 ^ 31 \<Longrightarrow> wrap32 x = x"
  unfolding wrap32_def by (rule signed_take_bit_int_eq_self) auto

lemma wrap64_range: "i64 (wrap64 x)"
  unfolding wrap64_def
  using signed_take_bit_int_greater_eq_minus_exp [of 63 x] signed_take_bit_int_less_exp [of 63 x]
  by simp

lemma wrap64_cong: "wrap64 x = wrap64 y \<longleftrightarrow> x mod 2 ^ 64 = y mod 2 ^ 64"
proof -
  have "wrap64 x = wrap64 y \<longleftrightarrow> take_bit (Suc 63) x = take_bit (Suc 63) y"
    unfolding wrap64_def by (rule signed_take_bit_eq_iff_take_bit_eq)
  then show ?thesis by (simp add: take_bit_eq_mod)
qed

lemma wrap64_mod: "wrap64 x mod 2 ^ 64 = x mod 2 ^ 64"
proof -
  have "take_bit (Suc 63) (signed_take_bit 63 x) = take_bit (Suc 63) x"
    by (rule take_bit_signed_take_bit) simp
  then show ?thesis by (simp add: wrap64_def take_bit_eq_mod)
qed

lemma wrap64_congI: "wrap64 x = wrap64 y" if "x mod 2 ^ 64 = y mod 2 ^ 64"
  using that by (simp only: wrap64_cong)

lemma wrap64_add [simp]: "wrap64 (wrap64 x + y) = wrap64 (x + y)"
  by (intro wrap64_congI mod_add_cong wrap64_mod refl)

lemma wrap64_add_right [simp]: "wrap64 (x + wrap64 y) = wrap64 (x + y)"
  by (intro wrap64_congI mod_add_cong wrap64_mod refl)

lemma wrap64_diff [simp]: "wrap64 (wrap64 x - y) = wrap64 (x - y)"
  by (intro wrap64_congI mod_diff_cong wrap64_mod refl)

lemma wrap64_mult_left [simp]: "wrap64 (wrap64 x * y) = wrap64 (x * y)"
  by (intro wrap64_congI mod_mult_cong wrap64_mod refl)

lemma wrap64_diff_right [simp]: "wrap64 (x - wrap64 y) = wrap64 (x - y)"
  by (intro wrap64_congI mod_diff_cong wrap64_mod refl)

lemma wrap64_minus [simp]: "wrap64 (- wrap64 x) = wrap64 (- x)"
  using wrap64_diff_right [of 0 x] by simp

section \<open>Lists\<close>

definition insert_at :: "nat \<Rightarrow> 'a \<Rightarrow> 'a list \<Rightarrow> 'a list" where
  "insert_at k x xs = take k xs @ x # drop k xs"

definition erase_at :: "nat \<Rightarrow> 'a list \<Rightarrow> 'a list" where
  "erase_at k xs = take k xs @ drop (Suc k) xs"

lemma insert_at_append [simp]: "insert_at (length xs) y (xs @ ys) = xs @ y # ys"
  by (simp add: insert_at_def)

lemma erase_at_append [simp]: "erase_at (length xs) (xs @ y # ys) = xs @ ys"
  by (simp add: erase_at_def)

lemma last_Cons_append: "last (x # xs @ ys) = last (last (x # xs) # ys)"
  by (cases ys) auto

lemma hd_append_append: "hd (xs @ ys @ zs) = hd (xs @ [hd (ys @ zs)])"
  if "ys @ zs \<noteq> []"
  using that by (cases xs) auto

lemma length_takeWhile_split:
  "xs = ys @ zs \<Longrightarrow> (\<forall>y \<in> set ys. P y) \<Longrightarrow> (zs \<noteq> [] \<Longrightarrow> \<not> P (hd zs)) \<Longrightarrow>
     length (takeWhile P xs) = length ys"
  by (cases zs) (auto simp: takeWhile_append takeWhile_eq_all_conv [THEN iffD2])

lemma list_all2_split_left:
  assumes "list_all2 P (xs @ ys @ zs) us"
  obtains as bs cs where "us = as @ bs @ cs" "list_all2 P xs as" "list_all2 P ys bs"
    "list_all2 P zs cs"
  using assms by (auto simp: list_all2_append1)

lemma distinct_concat_append:
  "distinct (concat (xs @ ys @ zs)) \<longleftrightarrow>
     distinct (concat xs) \<and> distinct (concat ys) \<and> distinct (concat zs) \<and>
     set (concat xs) \<inter> set (concat ys) = {} \<and> set (concat xs) \<inter> set (concat zs) = {} \<and>
     set (concat ys) \<inter> set (concat zs) = {}"
  unfolding concat_append distinct_append set_append by blast

end
