(* ===== verification/Decimal.thy ===== *)
theory Decimal
  imports Prelude
begin

text \<open>
  \<open>parse_scaled\<close> of \<open>src/io/binance_depth.cpp\<close>: a decimal string becomes an integer scaled by
  \<open>10 ^ decimals\<close>, without floating point. \<open>std::expected<T, std::string>\<close> is \<open>string + T\<close>. The index
  \<open>i\<close> of the code is the suffix of the text that is left. The digit test is simdjson's
  \<open>is_digit\<close>, not part of the repository: it is the argument \<open>isd\<close>, and \<open>digit_test\<close> states its
  documented behaviour. As everywhere in the development, \<open>std::int64_t\<close> arithmetic goes through \<open>wrap64\<close>.
\<close>

section \<open>Results that may be errors\<close>

fun attempt :: "'e + 'a \<Rightarrow> ('a \<Rightarrow> 'e + 'b) \<Rightarrow> 'e + 'b" where
  "attempt (Inl e) f = Inl e"
| "attempt (Inr x) f = f x"

lemma attempt_eq_Inr: "attempt m f = Inr y \<longleftrightarrow> (\<exists>x. m = Inr x \<and> f x = Inr y)"
  by (cases m) simp_all

section \<open>The code\<close>

text \<open>\<open>text[i] - '0'\<close>\<close>

definition digit_value :: "char \<Rightarrow> int" where
  "digit_value c = of_char c - 48"

text \<open>\<open>value * 10 + (text[i] - '0')\<close>\<close>

definition shift_in :: "int \<Rightarrow> char \<Rightarrow> int" where
  "shift_in value c = wrap64 (value * 10 + digit_value c)"

fun integer_part :: "(char \<Rightarrow> bool) \<Rightarrow> string \<Rightarrow> int \<Rightarrow> bool \<Rightarrow> string + (int \<times> bool \<times> string)" where
  "integer_part isd [] value any_digit = Inr (value, any_digit, [])"
| "integer_part isd (c # cs) value any_digit =
     (if c = CHR ''.'' then Inr (value, any_digit, c # cs)
      else if \<not> isd c then Inl ''invalid digit in number''
      else integer_part isd cs (shift_in value c) True)"

fun fraction_part ::
  "(char \<Rightarrow> bool) \<Rightarrow> int \<Rightarrow> string \<Rightarrow> int \<Rightarrow> int \<Rightarrow> bool \<Rightarrow> string + (int \<times> int \<times> bool \<times> string)" where
  "fraction_part isd decimals [] consumed value any_digit = Inr (consumed, value, any_digit, [])"
| "fraction_part isd decimals (c # cs) consumed value any_digit =
     (if consumed < decimals then
        if \<not> isd c then Inl ''invalid digit in number''
        else fraction_part isd decimals cs (consumed + 1) (shift_in value c) True
      else Inr (consumed, value, any_digit, c # cs))"

text \<open>The remaining fractional digits are validated and dropped.\<close>

fun check_trailing :: "(char \<Rightarrow> bool) \<Rightarrow> string \<Rightarrow> string + unit" where
  "check_trailing isd [] = Inr ()"
| "check_trailing isd (c # cs) = (if \<not> isd c then Inl ''invalid trailing char'' else check_trailing isd cs)"

function pad_zeros :: "int \<Rightarrow> int \<Rightarrow> int \<Rightarrow> int" where
  "pad_zeros consumed decimals value =
     (if consumed < decimals then pad_zeros (consumed + 1) decimals (wrap64 (value * 10)) else value)"
  by pat_completeness auto
termination
  by (relation "measure (\<lambda>(consumed, decimals, value). nat (decimals - consumed))") auto

declare pad_zeros.simps [simp del]

text \<open>The part after the sign.\<close>

definition parse_unsigned :: "(char \<Rightarrow> bool) \<Rightarrow> bool \<Rightarrow> string \<Rightarrow> int \<Rightarrow> string + int" where
  "parse_unsigned isd negative rest decimals =
     attempt (integer_part isd rest 0 False) (\<lambda>(value, any_digit, rest').
     attempt (case rest' of
         [] \<Rightarrow> Inr (0, value, any_digit)
       | point # frac \<Rightarrow>
           attempt (fraction_part isd decimals frac 0 value any_digit) (\<lambda>(consumed, value', any', trail).
           attempt (check_trailing isd trail) (\<lambda>_. Inr (consumed, value', any'))))
       (\<lambda>(consumed, value', any').
     if \<not> any' then Inl ''no digits in number''
     else let scaled = pad_zeros consumed decimals value' in
       Inr (if negative then wrap64 (- scaled) else scaled)))"

definition parse_scaled :: "(char \<Rightarrow> bool) \<Rightarrow> string \<Rightarrow> int \<Rightarrow> string + int" where
  "parse_scaled isd text decimals =
     (if decimals < 0 then Inl ''negative decimals''
      else case text of
        [] \<Rightarrow> Inl ''empty number''
      | c # cs \<Rightarrow>
          if c = CHR ''+'' \<or> c = CHR ''-'' then parse_unsigned isd (c = CHR ''-'') cs decimals
          else parse_unsigned isd False text decimals)"

section \<open>Numerals\<close>

text \<open>The documented behaviour of simdjson's \<open>is_digit\<close>: exactly the ten decimal digits.\<close>

definition decimal_digit :: "char \<Rightarrow> bool" where
  "decimal_digit c \<longleftrightarrow> c \<in> set ''0123456789''"

definition digit_test :: "(char \<Rightarrow> bool) \<Rightarrow> bool" where
  "digit_test isd \<longleftrightarrow> (\<forall>c. isd c = decimal_digit c)"

text \<open>The number a string of digits writes, and a decimal numeral with optional sign and fraction.\<close>

definition digits_val :: "int \<Rightarrow> string \<Rightarrow> int" where
  "digits_val = foldl (\<lambda>v c. v * 10 + digit_value c)"

definition sign_text :: "string \<Rightarrow> bool" where
  "sign_text sg \<longleftrightarrow> sg = [] \<or> sg = ''+'' \<or> sg = ''-''"

definition sign_of :: "string \<Rightarrow> int" where
  "sign_of sg = (if sg = ''-'' then -1 else 1)"

definition point_text :: "string option \<Rightarrow> string" where
  "point_text frac = (case frac of None \<Rightarrow> [] | Some fs \<Rightarrow> CHR ''.'' # fs)"

definition frac_digits :: "string option \<Rightarrow> string" where
  "frac_digits frac = (case frac of None \<Rightarrow> [] | Some fs \<Rightarrow> fs)"

definition numeral_text :: "string \<Rightarrow> string \<Rightarrow> string option \<Rightarrow> bool" where
  "numeral_text sg ds frac \<longleftrightarrow> sign_text sg \<and> (\<forall>c \<in> set (ds @ frac_digits frac). decimal_digit c)"

text \<open>The magnitude the numeral stands for, scaled by \<open>10 ^ d\<close> and truncated.\<close>

definition scaled_value :: "nat \<Rightarrow> string \<Rightarrow> string \<Rightarrow> int" where
  "scaled_value d ds fs = digits_val 0 (ds @ fs) * 10 ^ d div 10 ^ length fs"

lemma digit_test_iff: "digit_test isd \<longleftrightarrow> isd = decimal_digit"
  by (auto simp: digit_test_def)

lemma digits_val_simps [simp]: "digits_val v [] = v" "digits_val v (c # cs) = digits_val (v * 10 + digit_value c) cs"
  "digits_val v (cs @ es) = digits_val (digits_val v cs) es"
  by (simp_all add: digits_val_def)

lemma digits_val_split: "digits_val v cs = v * 10 ^ length cs + digits_val 0 cs"
proof (induction cs arbitrary: v)
  case (Cons c cs)
  show ?case
    using Cons [of "v * 10 + digit_value c"] Cons [of "digit_value c"] by (simp add: algebra_simps)
qed simp

lemma decimal_digit_cases: "decimal_digit c \<Longrightarrow> 0 \<le> digit_value c \<and> digit_value c < 10 \<and> c \<noteq> CHR ''.'' \<and> c \<noteq> CHR ''+'' \<and> c \<noteq> CHR ''-''"
  unfolding decimal_digit_def by (simp add: digit_value_def) (elim disjE; simp)

lemma digits_val_bounds:
  "\<forall>c \<in> set cs. decimal_digit c \<Longrightarrow> 0 \<le> digits_val 0 cs \<and> digits_val 0 cs < 10 ^ length cs"
proof (induction cs)
  case (Cons c cs)
  have d: "0 \<le> digit_value c" "digit_value c \<le> 9" using Cons.prems decimal_digit_cases [of c] by auto
  have "digit_value c * 10 ^ length cs \<le> 9 * 10 ^ length cs" using d by (intro mult_right_mono) auto
  moreover have "0 \<le> digit_value c * 10 ^ length cs" using d by simp
  moreover have "0 \<le> digits_val 0 cs" "digits_val 0 cs < 10 ^ length cs" using Cons by auto
  moreover have "digits_val 0 (c # cs) = digit_value c * 10 ^ length cs + digits_val 0 cs"
    using digits_val_split [of "digit_value c" cs] by simp
  moreover have "(10 :: int) ^ length (c # cs) = 9 * 10 ^ length cs + 10 ^ length cs" by simp
  ultimately show ?case by linarith
qed simp

text \<open>Dropping fractional digits, or padding them with zeros, is the truncated scaling.\<close>

lemma scaled_value_take:
  assumes "\<forall>c \<in> set fs. decimal_digit c"
  shows "scaled_value d ds fs = digits_val 0 (ds @ take d fs) * 10 ^ (d - length fs)"
proof (cases "length fs \<le> d")
  case True
  then have "(10 :: int) ^ d = 10 ^ (d - length fs) * 10 ^ length fs" by (simp flip: power_add)
  then show ?thesis using True by (simp add: scaled_value_def)
next
  case False
  let ?k = "length fs - d" and ?v = "digits_val 0 (ds @ take d fs)" and ?r = "digits_val 0 (drop d fs)"
  have r: "0 \<le> ?r" "?r < 10 ^ ?k" using digits_val_bounds [of "drop d fs"] assms by (auto dest: in_set_dropD)
  have "digits_val 0 (ds @ fs) = digits_val ?v (drop d fs)" by (metis append_take_drop_id append_assoc digits_val_simps(3))
  also have "\<dots> = ?v * 10 ^ ?k + ?r" using digits_val_split [of ?v "drop d fs"] by simp
  finally have v: "digits_val 0 (ds @ fs) = ?v * 10 ^ ?k + ?r" .
  have "(10 :: int) ^ length fs = 10 ^ ?k * 10 ^ d" using False by (simp flip: power_add)
  then have "scaled_value d ds fs = (?v * 10 ^ ?k + ?r) div 10 ^ ?k" by (simp add: scaled_value_def v del: digits_val_simps)
  also have "\<dots> = ?v" using r by (simp add: div_pos_pos_trivial)
  finally show ?thesis using False by simp
qed

section \<open>What the loops compute\<close>

text \<open>On digits the loops compute the value read so far, reduced to 64 bits.\<close>

lemma shift_in_wrap [simp]: "shift_in (wrap64 u) c = wrap64 (u * 10 + digit_value c)"
  unfolding shift_in_def by (metis wrap64_add wrap64_mult_left)

lemma wrap64_zero [simp]: "wrap64 0 = 0"
  by (simp add: wrap64_id)

lemma integer_part_digits:
  assumes "\<forall>c \<in> set ds. decimal_digit c"
  shows "integer_part decimal_digit (ds @ point_text frac) (wrap64 u) any_digit =
    Inr (wrap64 (digits_val u ds), any_digit \<or> ds \<noteq> [], point_text frac)"
  using assms
proof (induction ds arbitrary: u any_digit)
  case (Cons c ds)
  then show ?case using decimal_digit_cases [of c] by simp
qed (simp add: point_text_def split: option.split)

lemma fraction_part_digits:
  assumes "\<forall>c \<in> set fs. decimal_digit c"
  shows "fraction_part decimal_digit (int d) fs (int k) (wrap64 u) any_digit =
    Inr (int (k + min (d - k) (length fs)), wrap64 (digits_val u (take (d - k) fs)),
      any_digit \<or> take (d - k) fs \<noteq> [], drop (d - k) fs)"
  using assms
proof (induction fs arbitrary: k u any_digit)
  case (Cons c fs)
  show ?case
  proof (cases "k < d")
    case True
    then obtain n where n: "d - k = Suc n" "d - Suc k = n" by (metis Suc_diff_Suc)
    have "fraction_part decimal_digit (int d) fs (int (Suc k)) (wrap64 (u * 10 + digit_value c)) True =
        Inr (int (Suc k + min n (length fs)), wrap64 (digits_val (u * 10 + digit_value c) (take n fs)), True, drop n fs)"
      using Cons.IH [of "Suc k" "u * 10 + digit_value c" True] Cons.prems n by simp
    then show ?thesis using True Cons.prems n by (simp add: add.commute)
  qed simp
qed simp

lemma check_trailing_iff: "check_trailing decimal_digit cs = Inr () \<longleftrightarrow> (\<forall>c \<in> set cs. decimal_digit c)"
  by (induction cs) auto

lemma pad_zeros_eq: "k \<le> d \<Longrightarrow> pad_zeros (int k) (int d) (wrap64 u) = wrap64 (u * 10 ^ (d - k))"
proof (induction "d - k" arbitrary: k u)
  case (Suc n)
  have "pad_zeros (int k) (int d) (wrap64 u) = pad_zeros (int (Suc k)) (int d) (wrap64 (u * 10))"
    using Suc.hyps(2) by (subst pad_zeros.simps) (auto simp: add.commute)
  also have "\<dots> = wrap64 (u * 10 * 10 ^ (d - Suc k))" using Suc by (intro Suc.hyps(1)) auto
  also have "u * 10 * 10 ^ (d - Suc k) = u * 10 ^ (d - k)" using Suc.hyps(2) by (simp flip: power_Suc add: Suc_diff_Suc)
  finally show ?case .
qed (simp add: pad_zeros.simps)

text \<open>The two directions: a numeral is parsed to its value, and only numerals are parsed.\<close>

lemma parse_unsigned_numeral:
  assumes dig: "\<forall>c \<in> set (ds @ frac_digits frac). decimal_digit c"
  shows "parse_unsigned decimal_digit negative (ds @ point_text frac) (int d) =
    (if ds = [] \<and> take d (frac_digits frac) = [] then Inl ''no digits in number''
     else Inr (wrap64 ((if negative then -1 else 1) * scaled_value d ds (frac_digits frac))))"
proof -
  let ?fs = "frac_digits frac" and ?k = "min d (length (frac_digits frac))"
  have ip: "integer_part decimal_digit (ds @ point_text frac) 0 False = Inr (wrap64 (digits_val 0 ds), ds \<noteq> [], point_text frac)"
    using integer_part_digits [of ds frac 0 False] dig by simp
  have fr: "attempt (case point_text frac of
      [] \<Rightarrow> Inr (0, wrap64 (digits_val 0 ds), ds \<noteq> [])
    | point # fs \<Rightarrow> attempt (fraction_part decimal_digit (int d) fs 0 (wrap64 (digits_val 0 ds)) (ds \<noteq> [])) (\<lambda>(consumed, value', any', trail).
        attempt (check_trailing decimal_digit trail) (\<lambda>_. Inr (consumed, value', any')))) f =
    f (int ?k, wrap64 (digits_val 0 (ds @ take d ?fs)), ds \<noteq> [] \<or> take d ?fs \<noteq> [])" for f :: "int \<times> int \<times> bool \<Rightarrow> string + int"
  proof (cases frac)
    case (Some fs)
    have "fraction_part decimal_digit (int d) fs (int 0) (wrap64 (digits_val 0 ds)) (ds \<noteq> []) =
        Inr (int ?k, wrap64 (digits_val 0 (ds @ take d fs)), ds \<noteq> [] \<or> take d fs \<noteq> [], drop d fs)"
      using fraction_part_digits [of fs d 0 "digits_val 0 ds" "ds \<noteq> []"] dig Some by (simp add: frac_digits_def)
    moreover have "check_trailing decimal_digit (drop d fs) = Inr ()"
      using dig Some check_trailing_iff by (auto simp: frac_digits_def dest: in_set_dropD)
    ultimately show ?thesis using Some by (simp add: point_text_def frac_digits_def)
  qed (simp add: point_text_def frac_digits_def)
  have "pad_zeros (int ?k) (int d) (wrap64 (digits_val 0 (ds @ take d ?fs))) = wrap64 (scaled_value d ds ?fs)"
    using pad_zeros_eq [of ?k d "digits_val 0 (ds @ take d ?fs)"] scaled_value_take [of ?fs d ds] dig
    by (simp add: min_def del: digits_val_simps split: if_splits)
  then show ?thesis
    unfolding parse_unsigned_def ip attempt.simps prod.case fr Let_def by auto
qed

lemma integer_part_sound:
  "integer_part decimal_digit cs u b = Inr (v, b', rest) \<Longrightarrow>
     \<exists>ds. cs = ds @ rest \<and> (\<forall>c \<in> set ds. decimal_digit c) \<and> (rest = [] \<or> (\<exists>fs. rest = CHR ''.'' # fs))"
proof (induction "decimal_digit" cs u b rule: integer_part.induct)
  case (2 c cs u b)
  show ?case
  proof (cases "c = CHR ''.''")
    case False
    with 2 obtain ds where "cs = ds @ rest" "\<forall>c \<in> set ds. decimal_digit c" "decimal_digit c"
      "rest = [] \<or> (\<exists>fs. rest = CHR ''.'' # fs)" by (auto simp: split: if_splits)
    then show ?thesis by (intro exI [of _ "c # ds"]) auto
  qed (use 2 in auto)
qed simp

lemma fraction_part_sound:
  "fraction_part decimal_digit d cs k u b = Inr (k', v, b', rest) \<Longrightarrow>
     \<exists>ds. cs = ds @ rest \<and> (\<forall>c \<in> set ds. decimal_digit c)"
proof (induction "decimal_digit" d cs k u b rule: fraction_part.induct)
  case (2 d c cs k u b)
  show ?case
  proof (cases "k < d")
    case True
    with 2 obtain ds where "cs = ds @ rest" "\<forall>c \<in> set ds. decimal_digit c" "decimal_digit c"
      by (auto simp: split: if_splits)
    then show ?thesis by (intro exI [of _ "c # ds"]) auto
  qed (use 2 in auto)
qed simp

lemma parse_unsigned_sound:
  assumes "parse_unsigned decimal_digit negative cs d = Inr v"
  shows "\<exists>ds frac. cs = ds @ point_text frac \<and> (\<forall>c \<in> set (ds @ frac_digits frac). decimal_digit c)"
proof -
  from assms obtain u b rest where ip: "integer_part decimal_digit cs 0 False = Inr (u, b, rest)"
    unfolding parse_unsigned_def attempt_eq_Inr by auto
  from integer_part_sound [OF this] obtain ds where ds: "cs = ds @ rest" "\<forall>c \<in> set ds. decimal_digit c"
    "rest = [] \<or> (\<exists>fs. rest = CHR ''.'' # fs)" by blast
  from ds(3) show ?thesis
  proof
    assume "rest = []"
    with ds show ?thesis by (intro exI [of _ ds] exI [of _ None]) (simp add: point_text_def frac_digits_def)
  next
    assume "\<exists>fs. rest = CHR ''.'' # fs"
    then obtain fs where fs: "rest = CHR ''.'' # fs" by blast
    from assms ip fs obtain k w b' trail where
      "fraction_part decimal_digit d fs 0 u b = Inr (k, w, b', trail)" "check_trailing decimal_digit trail = Inr ()"
      unfolding parse_unsigned_def by (auto simp: attempt_eq_Inr)
    with fraction_part_sound [OF this(1)] check_trailing_iff fs ds
    show ?thesis by (intro exI [of _ ds] exI [of _ "Some fs"]) (auto simp: point_text_def frac_digits_def)
  qed
qed

end
