(* ===== verification/Order_Types.thy ===== *)
theory Order_Types
  imports Prelude
begin

text \<open>
  The plain data of the engine: \<open>src/engine/side.hpp\<close> and \<open>src/engine/order.hpp\<close>.
  Prices and order ids are unsigned 64-bit words; a \<open>Volume\<close> is an \<open>int\<close> kept in the range of
  \<open>std::int64_t\<close> (its arithmetic goes through \<open>wrap64\<close>).
\<close>

section \<open>Sides\<close>

datatype side = BID | ASK

text \<open>The enum is encoded as a \<open>bool\<close>: \<open>BID\<close> is 0, \<open>ASK\<close> is 1.\<close>

fun bool_of_side :: "side \<Rightarrow> bool" where
  "bool_of_side BID = False"
| "bool_of_side ASK = True"

definition side_of_bool :: "bool \<Rightarrow> side" where
  "side_of_bool b = (if b then ASK else BID)"

definition opposed :: "side \<Rightarrow> side" where
  "opposed s = side_of_bool (\<not> bool_of_side s)"

lemma opposed_simps [simp]: "opposed BID = ASK" "opposed ASK = BID"
  by (simp_all add: opposed_def side_of_bool_def)

lemma opposed_opposed [simp]: "opposed (opposed s) = s"
  by (cases s) simp_all

lemma opposed_neq [simp]: "opposed s \<noteq> s" "s \<noteq> opposed s"
  by (cases s; simp)+

lemma side_cases_opposed: "s' = s \<or> s' = opposed s"
  by (cases s; cases s') simp_all

lemma all_sides: "(\<forall>s. P s) \<longleftrightarrow> P BID \<and> P ASK"
  by (metis side.exhaust)

section \<open>Orders and trades\<close>

type_synonym price = "64 word"
type_synonym order_id = "64 word"

datatype order_type = GOOD_TILL_CANCELED | FILL_OR_KILL | IMMEDIATE_OR_CANCEL

record order =
  oid :: order_id
  oside :: side
  oprice :: price
  ovolume :: int
  otype :: order_type

text \<open>\<open>Order::operator==\<close> is the defaulted member-wise comparison.\<close>

definition order_eq :: "order \<Rightarrow> order \<Rightarrow> bool" where
  "order_eq a b \<longleftrightarrow> oid a = oid b \<and> oside a = oside b \<and> oprice a = oprice b \<and>
     ovolume a = ovolume b \<and> otype a = otype b"

record trade =
  aggressor :: order_id
  resting :: order_id
  tprice :: price
  tvolume :: int

text \<open>The designated initialiser of the documentation: the type defaults to \<open>GOOD_TILL_CANCELED\<close>.\<close>

definition limit_order :: "order_id \<Rightarrow> side \<Rightarrow> price \<Rightarrow> int \<Rightarrow> order" where
  "limit_order i s p v =
     \<lparr>oid = i, oside = s, oprice = p, ovolume = v, otype = GOOD_TILL_CANCELED\<rparr>"

section \<open>The order of prices on a side\<close>

text \<open>
  \<open>before s p q\<close>: price \<open>p\<close> is better than \<open>q\<close> on side \<open>s\<close> (bids descend, asks ascend). The two
  comparators are the ones \<open>OrderBook::find_level\<close> hands to the search, \<open>std::greater\<close> and \<open>std::less\<close>.
\<close>

fun before :: "side \<Rightarrow> price \<Rightarrow> price \<Rightarrow> bool" where
  "before BID p q \<longleftrightarrow> p > q"
| "before ASK p q \<longleftrightarrow> p < q"

end
