(* ===== verification/Binance_Depth.thy ===== *)
theory Binance_Depth
  imports Decimal Order_Types
begin

text \<open>
  The depth parser of \<open>src/io/binance_depth.{hpp,cpp}\<close>: REST snapshots, \<open>depthUpdate\<close> frames and
  newline-delimited captures. The JSON reader is simdjson, not part of the repository: it is a
  parameter, a record of the functions the code calls, with each result a function of the value it
  is asked of (the code reads every value once and in document order). \<open>fmt::format\<close> is a
  parameter too. Errors are strings, \<open>std::expected<T, std::string>\<close> is \<open>string + T\<close>.
\<close>

section \<open>Data\<close>

record price_level =
  pl_price :: price
  pl_volume :: int

record depth_snapshot =
  lastUpdateId :: "64 word"
  snap_bids :: "price_level list"
  snap_asks :: "price_level list"

record depth_update =
  eventTime :: "64 word"
  firstUpdateId :: "64 word"
  finalUpdateId :: "64 word"
  upd_bids :: "price_level list"
  upd_asks :: "price_level list"

record raw_level =
  raw_price :: string
  raw_qty :: string

section \<open>The JSON reader\<close>

text \<open>
  What the code uses of simdjson On-Demand, over its own types of documents, values and error
  codes: \<open>parser.iterate\<close>, \<open>document::operator[]\<close>, \<open>value::get_array\<close> with the sequence of results a
  range-for visits, \<open>get_string\<close>, \<open>get<uint64_t>\<close>, \<open>error_message\<close> and \<open>is_digit\<close>.
\<close>

record ('d, 'v, 'e) simdjson =
  iterate :: "string \<Rightarrow> 'e + 'd"
  field_of :: "'d \<Rightarrow> string \<Rightarrow> 'e + 'v"
  get_array :: "'v \<Rightarrow> 'e + ('e + 'v) list"
  get_string :: "'v \<Rightarrow> 'e + string"
  get_uint64 :: "'v \<Rightarrow> 'e + 64 word"
  error_message :: "'e \<Rightarrow> string"
  is_digit :: "char \<Rightarrow> bool"

text \<open>\<open>if (const auto err = r.get(x)) return std::unexpected(error_message(err));\<close>\<close>

definition checked :: "('d, 'v, 'e) simdjson \<Rightarrow> 'e + 'a \<Rightarrow> string + 'a" where
  "checked sj r = map_sum (error_message sj) (\<lambda>x. x) r"

lemma checked_simps [simp]: "checked sj (Inr x) = Inr x" "checked sj (Inl e) = Inl (error_message sj e)"
  by (simp_all add: checked_def)

lemma checked_eq_Inr [simp]: "checked sj r = Inr x \<longleftrightarrow> r = Inr x"
  by (cases r) simp_all

section \<open>Levels\<close>

text \<open>
  The loop over the fields of one level: the first two strings and the number of fields. (The
  counter is an \<open>int\<close>; a level of \<open>2 ^ 31\<close> fields is not considered.)
\<close>

fun read_fields :: "('d, 'v, 'e) simdjson \<Rightarrow> ('e + 'v) list \<Rightarrow> string \<times> string \<Rightarrow> nat \<Rightarrow> string + (string \<times> string \<times> nat)" where
  "read_fields sj [] (f0, f1) count = Inr (f0, f1, count)"
| "read_fields sj (r # rs) (f0, f1) count =
     attempt (checked sj (case r of Inl e \<Rightarrow> Inl e | Inr v \<Rightarrow> get_string sj v)) (\<lambda>sv.
     read_fields sj rs (if count = 0 then sv else f0, if count = 1 then sv else f1) (count + 1))"

text \<open>Pass 1: the raw strings of all levels.\<close>

fun collect_raw :: "('d, 'v, 'e) simdjson \<Rightarrow> ('e + 'v) list \<Rightarrow> raw_level list \<Rightarrow> string + raw_level list" where
  "collect_raw sj [] raw = Inr raw"
| "collect_raw sj (r # rs) raw =
     attempt (checked sj (case r of Inl e \<Rightarrow> Inl e | Inr v \<Rightarrow> get_array sj v)) (\<lambda>pair.
     attempt (read_fields sj pair ([], []) 0) (\<lambda>(price, qty, count).
     if count \<noteq> 2 then Inl ''level is not a [price, qty] pair''
     else collect_raw sj rs (raw @ [\<lparr>raw_price = price, raw_qty = qty\<rparr>])))"

text \<open>Pass 2: the scaled levels. The cast of the price to \<open>std::uint64_t\<close> is modular.\<close>

fun scale_levels :: "(char \<Rightarrow> bool) \<Rightarrow> int \<Rightarrow> int \<Rightarrow> raw_level list \<Rightarrow> price_level list \<Rightarrow> string + price_level list" where
  "scale_levels isd price_decimals qty_decimals [] levels = Inr levels"
| "scale_levels isd price_decimals qty_decimals (raw # raws) levels =
     attempt (parse_scaled isd (raw_price raw) price_decimals) (\<lambda>price.
     attempt (parse_scaled isd (raw_qty raw) qty_decimals) (\<lambda>qty.
     scale_levels isd price_decimals qty_decimals raws
       (levels @ [\<lparr>pl_price = word_of_int price, pl_volume = qty\<rparr>])))"

definition parse_levels :: "('d, 'v, 'e) simdjson \<Rightarrow> 'v \<Rightarrow> int \<Rightarrow> int \<Rightarrow> string + price_level list" where
  "parse_levels sj array_value price_decimals qty_decimals =
     attempt (checked sj (get_array sj array_value)) (\<lambda>array.
     attempt (collect_raw sj array []) (\<lambda>raw.
     scale_levels (is_digit sj) price_decimals qty_decimals raw []))"

definition parse_sides ::
  "('d, 'v, 'e) simdjson \<Rightarrow> 'd \<Rightarrow> string \<Rightarrow> string \<Rightarrow> int \<Rightarrow> int \<Rightarrow> string + (price_level list \<times> price_level list)"
where
  "parse_sides sj doc bid_key ask_key price_decimals qty_decimals =
     attempt (case field_of sj doc bid_key of
         Inl err \<Rightarrow> Inl (bid_key @ '': '' @ error_message sj err)
       | Inr bids_value \<Rightarrow> parse_levels sj bids_value price_decimals qty_decimals) (\<lambda>bids.
     attempt (case field_of sj doc ask_key of
         Inl err \<Rightarrow> Inl (ask_key @ '': '' @ error_message sj err)
       | Inr asks_value \<Rightarrow> parse_levels sj asks_value price_decimals qty_decimals) (\<lambda>asks.
     Inr (bids, asks)))"

section \<open>Documents\<close>

text \<open>\<open>if (std::uint64_t id; !doc[key].get(id)) field = id;\<close> with the field initially 0\<close>

definition scalar_field :: "('d, 'v, 'e) simdjson \<Rightarrow> 'd \<Rightarrow> string \<Rightarrow> 64 word" where
  "scalar_field sj doc key =
     (case field_of sj doc key of
        Inl e \<Rightarrow> 0
      | Inr v \<Rightarrow> (case get_uint64 sj v of Inl e \<Rightarrow> 0 | Inr n \<Rightarrow> n))"

definition parse_binance_depth :: "('d, 'v, 'e) simdjson \<Rightarrow> string \<Rightarrow> int \<Rightarrow> int \<Rightarrow> string + depth_snapshot" where
  "parse_binance_depth sj json price_decimals qty_decimals =
     attempt (checked sj (iterate sj json)) (\<lambda>doc.
     attempt (parse_sides sj doc ''bids'' ''asks'' price_decimals qty_decimals) (\<lambda>(bids, asks).
     Inr \<lparr>lastUpdateId = scalar_field sj doc ''lastUpdateId'', snap_bids = bids, snap_asks = asks\<rparr>))"

definition parse_binance_depth_update :: "('d, 'v, 'e) simdjson \<Rightarrow> string \<Rightarrow> int \<Rightarrow> int \<Rightarrow> string + depth_update" where
  "parse_binance_depth_update sj json price_decimals qty_decimals =
     attempt (checked sj (iterate sj json)) (\<lambda>doc.
     attempt (parse_sides sj doc ''b'' ''a'' price_decimals qty_decimals) (\<lambda>(bids, asks).
     Inr \<lparr>eventTime = scalar_field sj doc ''E'', firstUpdateId = scalar_field sj doc ''U'',
          finalUpdateId = scalar_field sj doc ''u'', upd_bids = bids, upd_asks = asks\<rparr>))"

section \<open>Captures\<close>

text \<open>\<open>jsonl.find('\n', pos)\<close>\<close>

abbreviation newline :: char where
  "newline \<equiv> CHR 0x0A"

fun find_char :: "char \<Rightarrow> string \<Rightarrow> nat option" where
  "find_char c [] = None"
| "find_char c (x # xs) = (if x = c then Some 0 else map_option Suc (find_char c xs))"

definition find_from :: "char \<Rightarrow> string \<Rightarrow> nat \<Rightarrow> nat option" where
  "find_from c s pos = map_option (\<lambda>k. pos + k) (find_char c (drop pos s))"

definition trim_cr :: "string \<Rightarrow> string" where
  "trim_cr line = (if line \<noteq> [] \<and> last line = CHR 0x0D then butlast line else line)"

text \<open>\<open>line.find_first_not_of(" \t") == npos\<close>\<close>

definition blank :: "string \<Rightarrow> bool" where
  "blank line \<longleftrightarrow> list_all (\<lambda>c. c = CHR '' '' \<or> c = CHR 0x09) line"

text \<open>One turn of the loop, on the line \<open>line_no\<close>.\<close>

definition depth_line ::
  "('d, 'v, 'e) simdjson \<Rightarrow> (string \<Rightarrow> nat \<Rightarrow> string \<Rightarrow> string) \<Rightarrow> int \<Rightarrow> int \<Rightarrow> nat \<Rightarrow> string \<Rightarrow>
     depth_update list \<Rightarrow> string + depth_update list"
where
  "depth_line sj fmt price_decimals qty_decimals line_no line updates =
     (let line = trim_cr line in
      if \<not> blank line then
        (case parse_binance_depth_update sj line price_decimals qty_decimals of
           Inl e \<Rightarrow> Inl (fmt ''line {}: '' line_no e)
         | Inr parsed \<Rightarrow> Inr (updates @ [parsed]))
      else Inr updates)"

lemma find_from_bounds: "find_from c s pos = Some k \<Longrightarrow> pos \<le> k \<and> k < length s"
proof -
  have "find_char c xs = Some j \<Longrightarrow> j < length xs" for xs j
    by (induction xs arbitrary: j) (auto split: if_splits)
  then show "find_from c s pos = Some k \<Longrightarrow> pos \<le> k \<and> k < length s"
    by (fastforce simp: find_from_def)
qed

function depth_lines ::
  "('d, 'v, 'e) simdjson \<Rightarrow> (string \<Rightarrow> nat \<Rightarrow> string \<Rightarrow> string) \<Rightarrow> int \<Rightarrow> int \<Rightarrow> string \<Rightarrow> nat \<Rightarrow> nat \<Rightarrow>
     depth_update list \<Rightarrow> string + depth_update list"
where
  "depth_lines sj fmt price_decimals qty_decimals jsonl pos line_no updates =
     (if \<not> pos \<le> length jsonl then Inr updates
      else
        let nl = find_from newline jsonl pos;
            stop = (case nl of None \<Rightarrow> length jsonl | Some k \<Rightarrow> k);
            line = take (stop - pos) (drop pos jsonl) in
        attempt (depth_line sj fmt price_decimals qty_decimals (line_no + 1) line updates) (\<lambda>updates'.
        case nl of
          None \<Rightarrow> Inr updates'
        | Some k \<Rightarrow> depth_lines sj fmt price_decimals qty_decimals jsonl (k + 1) (line_no + 1) updates'))"
  by pat_completeness auto
termination
  by (relation "measure (\<lambda>(sj, fmt, pd, qd, jsonl, pos, n, us). Suc (length jsonl) - pos)")
    (auto dest!: find_from_bounds [OF sym])

declare depth_lines.simps [simp del]

definition parse_binance_depth_updates ::
  "('d, 'v, 'e) simdjson \<Rightarrow> (string \<Rightarrow> nat \<Rightarrow> string \<Rightarrow> string) \<Rightarrow> string \<Rightarrow> int \<Rightarrow> int \<Rightarrow> string + depth_update list"
where
  "parse_binance_depth_updates sj fmt jsonl price_decimals qty_decimals =
     depth_lines sj fmt price_decimals qty_decimals jsonl 0 0 []"

end
