(* ===== verification/Branchless.thy ===== *)
theory Branchless
  imports Prelude
begin

text \<open>
  \<open>src/engine/branchless_binary_search.hpp\<close>: the lower-bound search whose stride is scaled by the
  outcome of the comparison. The iterator is its offset from the start of the range, the length
  is the code's \<open>length\<close>; reading an element outside the range is \<open>Bad_Index\<close>.
\<close>

section \<open>The search\<close>

definition element_at :: "'a list \<Rightarrow> nat \<Rightarrow> 'a run" where
  "element_at xs i = (if i < length xs then ok (xs ! i) else abort Bad_Index)"

function search_from ::
  "('k \<Rightarrow> 'v \<Rightarrow> bool) \<Rightarrow> ('a \<Rightarrow> 'k) \<Rightarrow> 'a list \<Rightarrow> 'v \<Rightarrow> nat \<Rightarrow> nat \<Rightarrow> nat run" where
  "search_from cmp proj xs v first len =
     (if len > 0 then
        (let half = len div 2 in
         chain (element_at xs (first + half)) (\<lambda>x.
           let take = (if cmp (proj x) v then 1 else 0) in
           search_from cmp proj xs v (first + take * (len - half)) half))
      else ok first)"
  by pat_completeness auto
termination
  by (relation "measure (\<lambda>(cmp, proj, xs, v, first, len). len)") auto

declare search_from.simps [simp del]

text \<open>The range overload starts at \<open>begin(r)\<close> with the length of the range.\<close>

definition branchless_lower_bound ::
  "('k \<Rightarrow> 'v \<Rightarrow> bool) \<Rightarrow> ('a \<Rightarrow> 'k) \<Rightarrow> 'a list \<Rightarrow> 'v \<Rightarrow> nat run" where
  "branchless_lower_bound cmp proj xs v = search_from cmp proj xs v 0 (length xs)"

section \<open>The reference: the first element not ordered before the value\<close>

definition lower_bound :: "('k \<Rightarrow> 'v \<Rightarrow> bool) \<Rightarrow> ('a \<Rightarrow> 'k) \<Rightarrow> 'a list \<Rightarrow> 'v \<Rightarrow> nat" where
  "lower_bound cmp proj xs v = length (takeWhile (\<lambda>x. cmp (proj x) v) xs)"

text \<open>
  The precondition of \<open>std::lower_bound\<close>: the elements ordered before the value form a prefix.
\<close>

definition partitioned :: "('k \<Rightarrow> 'v \<Rightarrow> bool) \<Rightarrow> ('a \<Rightarrow> 'k) \<Rightarrow> 'a list \<Rightarrow> 'v \<Rightarrow> bool" where
  "partitioned cmp proj xs v \<longleftrightarrow>
     sorted_wrt (\<lambda>x y. cmp (proj y) v \<longrightarrow> cmp (proj x) v) xs"

lemma lower_bound_le: "lower_bound cmp proj xs v \<le> length xs"
  by (simp add: lower_bound_def length_takeWhile_le)

lemma partitioned_nth:
  assumes "partitioned cmp proj xs v" "i < length xs"
  shows "cmp (proj (xs ! i)) v \<longleftrightarrow> i < lower_bound cmp proj xs v"
  using assms
proof (induction xs arbitrary: i)
  case (Cons a xs)
  then have IH: "\<And>j. j < length xs \<Longrightarrow> cmp (proj (xs ! j)) v \<longleftrightarrow> j < lower_bound cmp proj xs v"
    and first: "\<forall>y \<in> set xs. cmp (proj y) v \<longrightarrow> cmp (proj a) v"
    by (simp_all add: partitioned_def)
  show ?case
  proof (cases i)
    case 0
    then show ?thesis by (simp add: lower_bound_def)
  next
    case (Suc j)
    with Cons.prems have "j < length xs" by simp
    with IH first Suc show ?thesis by (auto simp: lower_bound_def)
  qed
qed simp

section \<open>Correctness\<close>

lemma search_from_correct:
  assumes part: "partitioned cmp proj xs v"
    and "first \<le> lower_bound cmp proj xs v"
    and "lower_bound cmp proj xs v \<le> first + len"
    and "first + len \<le> length xs"
  shows "search_from cmp proj xs v first len = ok (lower_bound cmp proj xs v)"
  using assms(2-4)
proof (induction len arbitrary: first rule: less_induct)
  case (less len)
  show ?case
  proof (cases "len = 0")
    case True
    with less.prems show ?thesis by (simp add: search_from.simps)
  next
    case False
    let ?h = "len div 2" and ?b = "lower_bound cmp proj xs v"
    from False have h: "?h < len" by simp
    from h less.prems have i: "first + ?h < length xs" by simp
    have dec: "cmp (proj (xs ! (first + ?h))) v \<longleftrightarrow> first + ?h < ?b"
      by (rule partitioned_nth [OF part i])
    show ?thesis
    proof (cases "first + ?h < ?b")
      case True
      have "search_from cmp proj xs v (first + (len - ?h)) ?h = ok ?b"
        by (rule less.IH [OF h]) (use True less.prems in presburger)+
      with False True dec i show ?thesis
        by (simp add: search_from.simps [of _ _ _ _ first len] element_at_def Let_def)
    next
      case ge: False
      have "search_from cmp proj xs v first ?h = ok ?b"
        by (rule less.IH [OF h]) (use ge less.prems in presburger)+
      with False ge dec i show ?thesis
        by (simp add: search_from.simps [of _ _ _ _ first len] element_at_def Let_def)
    qed
  qed
qed

lemma branchless_lower_bound_eq:
  "partitioned cmp proj xs v \<Longrightarrow>
     branchless_lower_bound cmp proj xs v = ok (lower_bound cmp proj xs v)"
  unfolding branchless_lower_bound_def
  by (rule search_from_correct) (simp_all add: lower_bound_le)

text \<open>
  Without the precondition the search still never reads outside its range and returns a position
  of the range.
\<close>

lemma search_from_safe:
  assumes "first + len \<le> length xs"
  shows "\<exists>k. search_from cmp proj xs v first len = ok k \<and> first \<le> k \<and> k \<le> first + len"
  using assms
proof (induction len arbitrary: first rule: less_induct)
  case (less len)
  show ?case
  proof (cases "len = 0")
    case True
    then show ?thesis by (simp add: search_from.simps)
  next
    case False
    let ?h = "len div 2" and ?t = "if cmp (proj (xs ! (first + len div 2))) v then 1 else 0::nat"
    from False have h: "?h < len" by simp
    let ?f = "first + ?t * (len - ?h)"
    have "?f + ?h \<le> length xs" using less.prems h by auto
    from less.IH [OF h this] obtain k where
      "search_from cmp proj xs v ?f ?h = ok k" "?f \<le> k" "k \<le> ?f + ?h" by blast
    with False h less.prems show ?thesis
      by (auto simp: search_from.simps [of _ _ _ _ first len] element_at_def Let_def
          split: if_splits)
  qed
qed

section \<open>Properties\<close>

text \<open>
  C39: on a range partitioned by the comparison with the value, which a sorted range is, the
  branchless search answers the lower bound: the first position whose element is not ordered
  before the value.
\<close>

theorem branchless_search_correct:
  assumes "partitioned cmp proj xs v"
  shows "branchless_lower_bound cmp proj xs v = ok (lower_bound cmp proj xs v)"
  by (rule branchless_lower_bound_eq [OF assms])

theorem branchless_search_correct_witness:
  "branchless_lower_bound (\<lambda>x y. x > y) (\<lambda>x. x) [9, 7, 7, 4, 1 :: nat] 7 = ok 1"
proof -
  have "partitioned (\<lambda>x y. x > y) (\<lambda>x. x) [9, 7, 7, 4, 1 :: nat] 7" by code_simp
  moreover have "lower_bound (\<lambda>x y. x > y) (\<lambda>x. x) [9, 7, 7, 4, 1 :: nat] 7 = 1" by code_simp
  ultimately show ?thesis
    using branchless_search_correct [of "\<lambda>x y. x > y" "\<lambda>x. x" "[9, 7, 7, 4, 1 :: nat]" 7] by simp
qed

text \<open>
  Whatever the range holds and the comparison answers, sorted or not, the search ends, never
  reads outside the range and answers a position of it or its end.
\<close>

theorem branchless_search_in_range:
  "\<exists>k. branchless_lower_bound cmp proj xs v = ok k \<and> k \<le> length xs"
  using search_from_safe [of 0 "length xs" xs cmp proj v] by (simp add: branchless_lower_bound_def)

end
