(* ===== verification/Intrusive_List.thy ===== *)
theory Intrusive_List
  imports Prelude
begin

text \<open>
  Doubly linked lists threaded through the nodes of a pool (\<open>Node\<close> of
  \<open>src/memory/object_pool.hpp\<close>), and the interface \<open>node_store\<close> of a pool as its users see it.
  The links are indices; -1 is "no neighbour".
\<close>

section \<open>Nodes and list segments\<close>

record 'a node =
  nval :: 'a
  nnext :: int
  nprev :: int

abbreviation null_index :: int where
  "null_index \<equiv> - 1"

definition fresh_node :: "'a \<Rightarrow> 'a node" where
  "fresh_node v = \<lparr>nval = v, nnext = null_index, nprev = null_index\<rparr>"

text \<open>
  \<open>dseg h p q n\<close>: in the heap \<open>h\<close> the indices \<open>q\<close> form a segment whose first node points back to \<open>p\<close>
  and whose last node points on to \<open>n\<close>.
\<close>

primrec dseg :: "(int \<Rightarrow> 'a node option) \<Rightarrow> int \<Rightarrow> int list \<Rightarrow> int \<Rightarrow> bool" where
  "dseg h p [] n \<longleftrightarrow> True"
| "dseg h p (i # q) n \<longleftrightarrow> 0 \<le> i \<and>
     map_option (\<lambda>nd. (nprev nd, nnext nd)) (h i) = Some (p, hd (q @ [n])) \<and> dseg h i q n"

text \<open>The links from \<open>i\<close> on, at most \<open>fuel\<close> of them.\<close>

primrec walk :: "(int \<Rightarrow> 'a node option) \<Rightarrow> nat \<Rightarrow> int \<Rightarrow> int list" where
  "walk h 0 i = []"
| "walk h (Suc fuel) i =
     (if i = null_index then []
      else case h i of None \<Rightarrow> [] | Some nd \<Rightarrow> i # walk h fuel (nnext nd))"

lemma dseg_append:
  "dseg h p (a @ b) n \<longleftrightarrow> dseg h p a (hd (b @ [n])) \<and> dseg h (last (p # a)) b n"
proof (induction a arbitrary: p)
  case (Cons i a)
  have "hd ((a @ b) @ [n]) = hd (a @ [hd (b @ [n])])" by (cases a) auto
  then show ?case by (simp add: Cons.IH)
qed simp

lemma dseg_cong: "(\<And>i. i \<in> set q \<Longrightarrow> h' i = h i) \<Longrightarrow> dseg h' p q n \<longleftrightarrow> dseg h p q n"
  by (induction q arbitrary: p) auto

lemma dseg_upd_other: "i \<notin> set q \<Longrightarrow> dseg (h(i \<mapsto> nd)) p q n \<longleftrightarrow> dseg h p q n"
  by (rule dseg_cong) auto

lemma dseg_nonneg: "dseg h p q n \<Longrightarrow> i \<in> set q \<Longrightarrow> 0 \<le> i"
  by (induction q arbitrary: p) auto

lemma dseg_node: "dseg h p q n \<Longrightarrow> i \<in> set q \<Longrightarrow> \<exists>nd. h i = Some nd"
  by (induction q arbitrary: p) (auto split: option.splits)

lemma dseg_hd_null: "dseg h p q n \<Longrightarrow> hd (q @ [null_index]) = null_index \<longleftrightarrow> q = []"
  by (cases q) auto

lemma dseg_last_null: "dseg h p q n \<Longrightarrow> last (null_index # q) = null_index \<longleftrightarrow> q = []"
  by (cases q rule: rev_cases) (auto dest!: dseg_nonneg [where i = "last q"])

lemma walk_dseg:
  "dseg h p q null_index \<Longrightarrow> length q \<le> fuel \<Longrightarrow> walk h fuel (hd (q @ [null_index])) = q"
proof (induction q arbitrary: p fuel)
  case Nil
  then show ?case by (cases fuel) auto
next
  case (Cons i q)
  then obtain m where "fuel = Suc m" by (cases fuel) auto
  with Cons show ?case by (auto split: option.splits)
qed

section \<open>Updates of a segment\<close>

text \<open>Writing the last node's forward link, or the first node's back link.\<close>

lemma dseg_set_next:
  assumes "dseg h p (q @ [t]) n" "distinct (q @ [t])" "h t = Some nd"
  shows "dseg (h(t \<mapsto> nd\<lparr>nnext := n'\<rparr>)) p (q @ [t]) n'"
proof -
  have "dseg (h(t \<mapsto> nd\<lparr>nnext := n'\<rparr>)) p q t"
    using assms by (subst dseg_cong [of q _ h]) (auto simp: dseg_append)
  with assms show ?thesis by (auto simp: dseg_append)
qed

lemma dseg_set_prev:
  assumes "dseg h p (i # q) n" "distinct (i # q)" "h i = Some nd"
  shows "dseg (h(i \<mapsto> nd\<lparr>nprev := p'\<rparr>)) p' (i # q) n"
proof -
  have "dseg (h(i \<mapsto> nd\<lparr>nprev := p'\<rparr>)) i q n"
    using assms by (subst dseg_cong [of q _ h]) auto
  with assms show ?thesis by auto
qed

text \<open>The payload is not part of the shape.\<close>

lemma dseg_set_value:
  assumes "h i = Some nd" "nprev nd' = nprev nd" "nnext nd' = nnext nd"
  shows "dseg (h(i \<mapsto> nd')) p q n \<longleftrightarrow> dseg h p q n"
  using assms by (induction q arbitrary: p) auto

text \<open>Appending a node \<open>i\<close> after the last node \<open>t\<close>.\<close>

lemma dseg_push_back:
  assumes "dseg h p (q @ [t]) null_index" "distinct (q @ [t])" "i \<notin> set (q @ [t])"
    and "h t = Some nt" "h i = Some ni" "nnext ni = null_index" "0 \<le> i"
  shows "dseg (h(t \<mapsto> nt\<lparr>nnext := i\<rparr>, i \<mapsto> ni\<lparr>nprev := t\<rparr>)) p (q @ [t, i]) null_index"
proof -
  have "dseg (h(t \<mapsto> nt\<lparr>nnext := i\<rparr>)) p (q @ [t]) i"
    using assms by (intro dseg_set_next) auto
  then have "dseg (h(t \<mapsto> nt\<lparr>nnext := i\<rparr>, i \<mapsto> ni\<lparr>nprev := t\<rparr>)) p (q @ [t]) i"
    using assms by (subst dseg_cong) auto
  with assms show ?thesis by (auto simp: dseg_append)
qed

text \<open>
  Splicing out the node between two segments: the neighbour before it, if any, gets its forward
  link, the neighbour after it, if any, its back link.
\<close>

lemma dseg_unlink_next:
  assumes "dseg h p (a @ [i]) n" "distinct (a @ [i])" "a \<noteq> []" "h (last a) = Some na"
  shows "dseg (h(last a \<mapsto> na\<lparr>nnext := n'\<rparr>)) p a n'"
proof -
  from assms(3) obtain a' t where a: "a = a' @ [t]" by (metis append_butlast_last_id)
  have "dseg h p (a' @ [t]) i" using assms(1) a by (simp add: dseg_append)
  then show ?thesis using assms(2,4) unfolding a last_snoc by (intro dseg_set_next) simp_all
qed

lemma dseg_unlink_prev:
  assumes "dseg h p (i # b) n" "distinct (i # b)" "b \<noteq> []" "h (hd b) = Some nb"
  shows "dseg (h(hd b \<mapsto> nb\<lparr>nprev := p'\<rparr>)) p' b n"
proof -
  from assms(3) obtain t b' where b: "b = t # b'" by (cases b) auto
  have "dseg h i (t # b') n" using assms(1) unfolding b by simp
  then show ?thesis using assms(2,4) unfolding b list.sel by (intro dseg_set_prev) simp_all
qed

section \<open>The interface of a node store\<close>

text \<open>
  What the users of a pool rely on: \<open>look\<close> reads a slot, \<open>live\<close> is the set of slots handed out
  and not returned, \<open>cap\<close> the number of slots. A store keeps its invariant under its own
  operations, never hands out a live slot, and fails only when every slot is live.
\<close>

locale node_store =
  fixes look :: "'s \<Rightarrow> int \<Rightarrow> 'a node option"
    and live :: "'s \<Rightarrow> int set"
    and cap :: "'s \<Rightarrow> nat"
    and inv :: "'s \<Rightarrow> bool"
    and alloc :: "'a \<Rightarrow> 's \<Rightarrow> (int \<times> 's) run"
    and modify :: "int \<Rightarrow> ('a node \<Rightarrow> 'a node) \<Rightarrow> 's \<Rightarrow> 's run"
    and release :: "int \<Rightarrow> 's \<Rightarrow> 's"
  assumes finite_live: "inv s \<Longrightarrow> finite (live s)"
    and live_node: "inv s \<Longrightarrow> i \<in> live s \<Longrightarrow> 0 \<le> i \<and> (\<exists>nd. look s i = Some nd)"
    and alloc_ok: "inv s \<Longrightarrow> card (live s) < cap s \<Longrightarrow>
      \<exists>i s'. alloc v s = ok (i, s') \<and> inv s' \<and> cap s' = cap s \<and> 0 \<le> i \<and> i \<notin> live s \<and>
        live s' = insert i (live s) \<and> look s' = (look s)(i \<mapsto> fresh_node v)"
    and alloc_full: "inv s \<Longrightarrow> \<not> card (live s) < cap s \<Longrightarrow> alloc v s = abort Pool_Exhausted"
    and modify_ok: "inv s \<Longrightarrow> look s i = Some nd \<Longrightarrow>
      \<exists>s'. modify i f s = ok s' \<and> inv s' \<and> cap s' = cap s \<and> live s' = live s \<and>
        look s' = (look s)(i \<mapsto> f nd)"
    and release_ok: "inv s \<Longrightarrow> i \<in> live s \<Longrightarrow>
      inv (release i s) \<and> cap (release i s) = cap s \<and> live (release i s) = live s - {i} \<and>
        look (release i s) = look s"
begin

text \<open>A user's list stays intact when another slot is allocated.\<close>

lemma alloc_frame:
  assumes "inv s" "card (live s) < cap s" "set q \<subseteq> live s" "dseg (look s) p q n"
    and "alloc v s = ok (i, s')"
  shows "dseg (look s') p q n \<and> i \<notin> set q"
proof -
  from alloc_ok [OF assms(1,2), of v] assms(5) have "i \<notin> live s"
    and look: "look s' = (look s)(i \<mapsto> fresh_node v)" by auto
  with assms(3) have "i \<notin> set q" by blast
  then show ?thesis
    using assms(4) look by (subst dseg_cong [of q _ "look s"]) auto
qed

text \<open>Hooking a freshly allocated node \<open>i\<close> behind a non-empty list.\<close>

lemma hook_behind:
  assumes "inv s" "dseg (look s) p (q @ [t]) null_index" "distinct (q @ [t])"
    and "look s i = Some ni" "nnext ni = null_index" "0 \<le> i" "i \<notin> set (q @ [t])"
  shows "\<exists>s'. chain (modify t (nnext_update (\<lambda>_. i)) s) (\<lambda>s1. modify i (nprev_update (\<lambda>_. t)) s1)
      = ok s' \<and> inv s' \<and> cap s' = cap s \<and> live s' = live s \<and>
      dseg (look s') p (q @ [t, i]) null_index \<and>
      (\<forall>j. j \<noteq> t \<longrightarrow> j \<noteq> i \<longrightarrow> look s' j = look s j) \<and>
      (\<forall>j. map_option nval (look s' j) = map_option nval (look s j))"
proof -
  from dseg_node [OF assms(2), of t] obtain nt where nt: "look s t = Some nt" by auto
  from modify_ok [OF assms(1) nt, of "nnext_update (\<lambda>_. i)"] obtain s1 where
    s1: "modify t (nnext_update (\<lambda>_. i)) s = ok s1" "inv s1" "cap s1 = cap s"
    "live s1 = live s" "look s1 = (look s)(t \<mapsto> nt\<lparr>nnext := i\<rparr>)" by auto
  with assms(4,7) have "look s1 i = Some ni" by auto
  from modify_ok [OF s1(2) this, of "nprev_update (\<lambda>_. t)"] obtain s2 where
    s2: "modify i (nprev_update (\<lambda>_. t)) s1 = ok s2" "inv s2" "cap s2 = cap s1"
    "live s2 = live s1" "look s2 = (look s1)(i \<mapsto> ni\<lparr>nprev := t\<rparr>)" by auto
  have "dseg (look s2) p (q @ [t, i]) null_index"
    unfolding s2(5) s1(5) using assms nt by (intro dseg_push_back) auto
  then show ?thesis
    using s1 s2 assms(4,7) nt by (auto simp: fun_upd_apply)
qed

text \<open>
  Any number of frees is possible, so a store whose live slots are returned one by one ends
  empty.
\<close>

lemma release_all:
  assumes "inv s" "distinct q" "set q \<subseteq> live s"
  shows "inv (fold release q s) \<and> live (fold release q s) = live s - set q \<and>
    look (fold release q s) = look s \<and> cap (fold release q s) = cap s"
  using assms
proof (induction q arbitrary: s)
  case (Cons i q)
  then have r: "inv (release i s) \<and> cap (release i s) = cap s \<and>
    live (release i s) = live s - {i} \<and> look (release i s) = look s"
    by (intro release_ok) auto
  moreover have "inv (fold release q (release i s)) \<and>
      live (fold release q (release i s)) = live (release i s) - set q \<and>
      look (fold release q (release i s)) = look (release i s) \<and>
      cap (fold release q (release i s)) = cap (release i s)"
    using Cons.prems r by (intro Cons.IH) auto
  ultimately show ?case by auto
qed simp

end

end
