(* ===== verification/Object_Pool.thy ===== *)
theory Object_Pool
  imports Intrusive_List
begin

text \<open>
  \<open>ObjectPool\<close> of \<open>src/memory/object_pool.hpp\<close>: a vector of nodes and a free list used as a
  stack (its \<open>back()\<close> is the last element of the list). The capacity is the one reserved by the
  constructor. Indices are \<open>std::int32_t\<close>, so the cast of the vector's size goes through
  \<open>wrap32\<close>; an index outside the vector is \<open>Bad_Index\<close>.
\<close>

section \<open>State and operations\<close>

record 'a object_pool =
  nodes :: "'a node list"
  free_list :: "int list"
  capacity :: nat

definition object_pool_new :: "nat \<Rightarrow> 'a object_pool" where
  "object_pool_new cap = \<lparr>nodes = [], free_list = [], capacity = cap\<rparr>"

text \<open>\<open>get(index)\<close>: what it reads, and the update of the node through the returned reference.\<close>

definition pool_look :: "'a object_pool \<Rightarrow> int \<Rightarrow> 'a node option" where
  "pool_look p i =
     (if 0 \<le> i \<and> nat i < length (nodes p) then Some (nodes p ! nat i) else None)"

definition pool_get :: "int \<Rightarrow> 'a object_pool \<Rightarrow> 'a node run" where
  "pool_get i p = (case pool_look p i of None \<Rightarrow> abort Bad_Index | Some nd \<Rightarrow> ok nd)"

definition pool_modify ::
  "int \<Rightarrow> ('a node \<Rightarrow> 'a node) \<Rightarrow> 'a object_pool \<Rightarrow> 'a object_pool run" where
  "pool_modify i f p =
     chain (pool_get i p) (\<lambda>nd. ok (p\<lparr>nodes := (nodes p)[nat i := f nd]\<rparr>))"

text \<open>
  The tail of \<open>allocate\<close>: construct the value in slot \<open>index\<close> and reset both links. The node
  that \<open>emplace_back\<close> default-constructs is overwritten here before anybody reads it.
\<close>

definition pool_construct :: "int \<Rightarrow> 'a \<Rightarrow> 'a object_pool \<Rightarrow> (int \<times> 'a object_pool) run" where
  "pool_construct i v p =
     chain (pool_modify i (\<lambda>nd. nd\<lparr>nval := v\<rparr>) p) (\<lambda>p1.
     chain (pool_modify i (\<lambda>nd. nd\<lparr>nnext := null_index\<rparr>) p1) (\<lambda>p2.
     chain (pool_modify i (\<lambda>nd. nd\<lparr>nprev := null_index\<rparr>) p2) (\<lambda>p3. ok (i, p3))))"

definition pool_allocate :: "'a \<Rightarrow> 'a object_pool \<Rightarrow> (int \<times> 'a object_pool) run" where
  "pool_allocate v p =
     (if free_list p \<noteq> [] then
        let index = last (free_list p) in
        pool_construct index v (p\<lparr>free_list := butlast (free_list p)\<rparr>)
      else if length (nodes p) < capacity p then
        let p' = p\<lparr>nodes := nodes p @ [fresh_node v]\<rparr> in
        pool_construct (wrap32 (int (length (nodes p')) - 1)) v p'
      else abort Pool_Exhausted)"

definition pool_size :: "'a object_pool \<Rightarrow> int" where
  "pool_size p = (int (length (nodes p)) - int (length (free_list p))) mod 2 ^ 64"

definition pool_deallocate :: "int \<Rightarrow> 'a object_pool \<Rightarrow> 'a object_pool" where
  "pool_deallocate i p = p\<lparr>free_list := free_list p @ [i]\<rparr>"

section \<open>Invariant\<close>

text \<open>The slots handed out and not yet returned.\<close>

definition pool_live :: "'a object_pool \<Rightarrow> int set" where
  "pool_live p = {0..<int (length (nodes p))} - set (free_list p)"

definition pool_inv :: "'a object_pool \<Rightarrow> bool" where
  "pool_inv p \<longleftrightarrow> distinct (free_list p) \<and>
     set (free_list p) \<subseteq> {0..<int (length (nodes p))} \<and>
     length (nodes p) \<le> capacity p \<and> capacity p \<le> 2 ^ 31"

lemma pool_inv_new: "cap \<le> 2 ^ 31 \<Longrightarrow> pool_inv (object_pool_new cap)"
  by (simp add: pool_inv_def object_pool_new_def)

lemma pool_new_simps [simp]:
  "pool_live (object_pool_new cap) = {}" "capacity (object_pool_new cap) = cap"
  by (simp_all add: pool_live_def object_pool_new_def)

lemma pool_live_look: "i \<in> pool_live p \<Longrightarrow> 0 \<le> i \<and> (\<exists>nd. pool_look p i = Some nd)"
  by (auto simp: pool_live_def pool_look_def)

lemma finite_pool_live [simp]: "finite (pool_live p)"
  by (simp add: pool_live_def)

lemma card_pool_live:
  assumes "pool_inv p"
  shows "card (pool_live p) + length (free_list p) = length (nodes p)"
proof -
  have f: "card (set (free_list p)) = length (free_list p)"
    using assms by (simp add: pool_inv_def distinct_card)
  moreover have "card (set (free_list p)) \<le> card {0..<int (length (nodes p))}"
    using assms by (intro card_mono) (simp_all add: pool_inv_def)
  moreover have "card (pool_live p) = card {0..<int (length (nodes p))} - card (set (free_list p))"
    using assms unfolding pool_live_def by (intro card_Diff_subset) (simp_all add: pool_inv_def)
  ultimately show ?thesis by simp
qed

section \<open>The operations on the heap view\<close>

lemma pool_get_eq: "pool_look p i = Some nd \<Longrightarrow> pool_get i p = ok nd"
  by (simp add: pool_get_def)

lemma pool_modify_look:
  assumes "pool_look p i = Some nd"
  shows "pool_modify i f p = ok (p\<lparr>nodes := (nodes p)[nat i := f nd]\<rparr>)"
    and "pool_look (p\<lparr>nodes := (nodes p)[nat i := f nd]\<rparr>) = (pool_look p)(i \<mapsto> f nd)"
  using assms
  by (auto simp: pool_modify_def pool_get_def pool_look_def nth_list_update fun_eq_iff
      split: if_splits)

lemma pool_construct_ok:
  assumes i: "0 \<le> i" "nat i < length (nodes p)"
  shows "pool_construct i v p = ok (i, p\<lparr>nodes := (nodes p)[nat i := fresh_node v]\<rparr>)"
proof -
  have "(nodes p ! nat i)\<lparr>nval := v, nnext := null_index, nprev := null_index\<rparr> = fresh_node v"
    by (cases "nodes p ! nat i") (simp add: fresh_node_def)
  with i show ?thesis
    by (simp add: pool_construct_def pool_modify_def pool_get_def pool_look_def)
qed

lemma pool_allocate_ok:
  assumes inv: "pool_inv p" and room: "card (pool_live p) < capacity p"
  shows "\<exists>i p'. pool_allocate v p = ok (i, p') \<and> pool_inv p' \<and> capacity p' = capacity p \<and>
    0 \<le> i \<and> i \<notin> pool_live p \<and> pool_live p' = insert i (pool_live p) \<and>
    pool_look p' = (pool_look p)(i \<mapsto> fresh_node v)"
proof (cases "free_list p = []")
  case True
  let ?n = "length (nodes p)"
  have n: "?n < capacity p" using room card_pool_live [OF inv] True by simp
  moreover have "capacity p \<le> 2 ^ 31" using inv by (simp add: pool_inv_def)
  ultimately have "int ?n < 2 ^ 31" by simp
  then have w: "wrap32 (int ?n) = int ?n" by (intro wrap32_id) simp_all
  have "pool_allocate v p = ok (int ?n, p\<lparr>nodes := nodes p @ [fresh_node v]\<rparr>)"
    using True n w by (simp add: pool_allocate_def pool_construct_ok Let_def)
  moreover have "pool_live (p\<lparr>nodes := nodes p @ [fresh_node v]\<rparr>) = insert (int ?n) (pool_live p)"
    using True by (auto simp: pool_live_def)
  moreover have "pool_look (p\<lparr>nodes := nodes p @ [fresh_node v]\<rparr>) =
      (pool_look p)(int ?n \<mapsto> fresh_node v)"
    by (auto simp: pool_look_def nth_append fun_eq_iff less_Suc_eq)
  ultimately show ?thesis
    using inv True n by (auto simp: pool_inv_def pool_live_def)
next
  case False
  let ?i = "last (free_list p)"
  have mem: "?i \<in> set (free_list p)" using False by simp
  have "?i \<in> {0..<int (length (nodes p))}" using inv mem unfolding pool_inv_def by blast
  then have i: "0 \<le> ?i" "nat ?i < length (nodes p)" by auto
  let ?p = "p\<lparr>free_list := butlast (free_list p), nodes := (nodes p)[nat ?i := fresh_node v]\<rparr>"
  have fl: "free_list p = butlast (free_list p) @ [?i]" using False by simp
  have dst: "distinct (butlast (free_list p) @ [?i])" using inv fl by (simp add: pool_inv_def)
  have "pool_allocate v p = ok (?i, ?p)"
    using False i by (simp add: pool_allocate_def pool_construct_ok Let_def)
  moreover have "pool_live ?p = insert ?i (pool_live p)"
    using i dst by (subst (2) pool_live_def, subst (2) fl) (auto simp: pool_live_def)
  moreover have "pool_look ?p = (pool_look p)(?i \<mapsto> fresh_node v)"
    using i by (auto simp: pool_look_def nth_list_update fun_eq_iff)
  moreover have "pool_inv ?p"
    using inv dst unfolding pool_inv_def by (auto dest: in_set_butlastD)
  ultimately show ?thesis
    using i mem by (auto simp: pool_live_def)
qed

lemma pool_allocate_full:
  assumes inv: "pool_inv p" and full: "\<not> card (pool_live p) < capacity p"
  shows "pool_allocate v p = abort Pool_Exhausted"
proof -
  have "length (nodes p) \<le> capacity p" using inv by (simp add: pool_inv_def)
  with full card_pool_live [OF inv] have "length (free_list p) = 0" "\<not> length (nodes p) < capacity p"
    by linarith+
  then show ?thesis by (simp add: pool_allocate_def)
qed

lemma pool_modify_ok:
  assumes "pool_inv p" "pool_look p i = Some nd"
  shows "\<exists>p'. pool_modify i f p = ok p' \<and> pool_inv p' \<and> capacity p' = capacity p \<and>
    pool_live p' = pool_live p \<and> pool_look p' = (pool_look p)(i \<mapsto> f nd)"
  using assms(1) pool_modify_look [OF assms(2), of f]
  by (auto simp: pool_inv_def pool_live_def)

lemma pool_deallocate_ok:
  assumes "pool_inv p" "i \<in> pool_live p"
  shows "pool_inv (pool_deallocate i p) \<and> capacity (pool_deallocate i p) = capacity p \<and>
    pool_live (pool_deallocate i p) = pool_live p - {i} \<and>
    pool_look (pool_deallocate i p) = pool_look p"
  using assms
  by (auto simp: pool_deallocate_def pool_inv_def pool_live_def pool_look_def fun_eq_iff)

text \<open>The pool is a node store.\<close>

interpretation pool: node_store pool_look pool_live capacity pool_inv pool_allocate pool_modify
  pool_deallocate
proof unfold_locales
  show "finite (pool_live s)" for s :: "'a object_pool" by simp
  show "0 \<le> i \<and> (\<exists>nd. pool_look s i = Some nd)" if "i \<in> pool_live s"
    for s :: "'a object_pool" and i using that by (rule pool_live_look)
  show "\<exists>i s'. pool_allocate v s = ok (i, s') \<and> pool_inv s' \<and> capacity s' = capacity s \<and> 0 \<le> i \<and>
      i \<notin> pool_live s \<and> pool_live s' = insert i (pool_live s) \<and>
      pool_look s' = (pool_look s)(i \<mapsto> fresh_node v)"
    if "pool_inv s" "card (pool_live s) < capacity s" for s :: "'a object_pool" and v
    using that by (rule pool_allocate_ok)
  show "pool_allocate v s = abort Pool_Exhausted"
    if "pool_inv s" "\<not> card (pool_live s) < capacity s" for s :: "'a object_pool" and v
    using that by (rule pool_allocate_full)
  show "\<exists>s'. pool_modify i f s = ok s' \<and> pool_inv s' \<and> capacity s' = capacity s \<and>
      pool_live s' = pool_live s \<and> pool_look s' = (pool_look s)(i \<mapsto> f nd)"
    if "pool_inv s" "pool_look s i = Some nd" for s :: "'a object_pool" and i f nd
    using that by (rule pool_modify_ok)
  show "pool_inv (pool_deallocate i s) \<and> capacity (pool_deallocate i s) = capacity s \<and>
      pool_live (pool_deallocate i s) = pool_live s - {i} \<and>
      pool_look (pool_deallocate i s) = pool_look s"
    if "pool_inv s" "i \<in> pool_live s" for s :: "'a object_pool" and i
    using that by (rule pool_deallocate_ok)
qed

section \<open>Properties\<close>

text \<open>
  C40: while fewer slots are in use than the capacity, \<open>allocate\<close> succeeds: it hands out a slot that
  nobody holds, holding the value with both links reset, and leaves every other slot as it was;
  when all are in use it stops at its assertion.
\<close>

theorem pool_allocate_fresh:
  assumes "pool_inv p"
  shows "if card (pool_live p) < capacity p
    then \<exists>i p'. pool_allocate v p = ok (i, p') \<and> pool_inv p' \<and> i \<notin> pool_live p \<and>
      pool_live p' = insert i (pool_live p) \<and> pool_look p' = (pool_look p)(i \<mapsto> fresh_node v)
    else pool_allocate v p = abort Pool_Exhausted"
  using pool_allocate_ok [OF assms, of v] pool_allocate_full [OF assms, of v] by auto

theorem pool_allocate_fresh_witness:
  "\<exists>i p'. pool_allocate (5 :: nat) (object_pool_new 2) = ok (i, p') \<and> pool_inv p' \<and> pool_live p' = {i}"
  using pool_allocate_fresh [OF pool_inv_new, of 2 "5 :: nat"] by auto

text \<open>
  The free list is last-in first-out: the next \<open>allocate\<close> after a \<open>deallocate\<close> reuses that very
  slot, and the pool is back to the slots in use before.
\<close>

theorem pool_reuses_last_freed:
  assumes "pool_inv p" "i \<in> pool_live p"
  shows "\<exists>p'. pool_allocate v (pool_deallocate i p) = ok (i, p') \<and> pool_inv p' \<and>
    pool_live p' = pool_live p \<and> free_list p' = free_list p \<and>
    pool_look p' = (pool_look p)(i \<mapsto> fresh_node v)"
proof -
  have i: "0 \<le> i" "nat i < length (nodes p)" using assms(2) by (auto simp: pool_live_def)
  let ?p' = "p\<lparr>nodes := (nodes p)[nat i := fresh_node v]\<rparr>"
  have "pool_allocate v (pool_deallocate i p) = ok (i, ?p')"
    using i pool_construct_ok [of i p v] by (simp add: pool_allocate_def pool_deallocate_def Let_def)
  moreover have "pool_inv ?p'" "pool_live ?p' = pool_live p" using assms(1) by (auto simp: pool_inv_def pool_live_def)
  moreover have "pool_look ?p' = (pool_look p)(i \<mapsto> fresh_node v)"
    using i by (auto simp: pool_look_def fun_eq_iff nth_list_update)
  ultimately show ?thesis by (intro exI [of _ ?p']) simp
qed

theorem pool_reuses_last_freed_witness:
  "\<exists>p'. pool_allocate 8 (pool_deallocate 0 \<lparr>nodes = [fresh_node (5 :: nat), fresh_node 6], free_list = [], capacity = 4\<rparr>) =
    ok (0, p') \<and> free_list p' = []"
proof -
  let ?p = "\<lparr>nodes = [fresh_node (5 :: nat), fresh_node 6], free_list = [], capacity = 4\<rparr>"
  have "pool_inv ?p" "0 \<in> pool_live ?p" by (simp_all add: pool_inv_def pool_live_def)
  from pool_reuses_last_freed [OF this, of 8] show ?thesis by auto
qed

end
