(* ===== verification/Book_Spec.thy ===== *)
theory Book_Spec
  imports Order_Types
begin

text \<open>
  What an order book promises, without pools, links or caches. A side of the abstract book is a
  list of price levels, best price first, each with its queue of resting orders, oldest first.
  The operations of the book are functions on these lists; \<open>Order_Book\<close> shows that the code
  implements them.
\<close>

section \<open>The abstract book\<close>

type_synonym aorder = "order_id \<times> int"
type_synonym alevel = "price \<times> aorder list"
type_synonym abook = "side \<Rightarrow> alevel list"

text \<open>The queue resting at a price, empty when there is no such level.\<close>

definition queue_at :: "'k \<Rightarrow> ('k \<times> 'q list) list \<Rightarrow> 'q list" where
  "queue_at p ls = (case map_of ls p of None \<Rightarrow> [] | Some q \<Rightarrow> q)"

text \<open>
  Change the queue at one price: create the level at its place when it is missing, drop it when
  its queue becomes empty.
\<close>

fun upd_level ::
  "('k \<Rightarrow> 'k \<Rightarrow> bool) \<Rightarrow> 'k \<Rightarrow> ('q list \<Rightarrow> 'q list) \<Rightarrow> ('k \<times> 'q list) list \<Rightarrow> ('k \<times> 'q list) list"
where
  "upd_level lt p f [] = (if f [] = [] then [] else [(p, f [])])"
| "upd_level lt p f ((p', q) # ls) =
     (if lt p' p then (p', q) # upd_level lt p f ls
      else if p' = p then (if f q = [] then ls else (p, f q) # ls)
      else (if f [] = [] then (p', q) # ls else (p, f []) # (p', q) # ls))"

section \<open>Price orders\<close>

text \<open>The contract of the comparator of a side: a strict total order.\<close>

locale price_order =
  fixes lt :: "'k \<Rightarrow> 'k \<Rightarrow> bool"
  assumes po_irrefl: "\<not> lt x x"
    and po_trans: "lt x y \<Longrightarrow> lt y z \<Longrightarrow> lt x z"
    and po_total: "lt x y \<or> x = y \<or> lt y x"
begin

lemma po_asym: "lt x y \<Longrightarrow> \<not> lt y x"
  using po_irrefl po_trans by blast

lemma sorted_distinct: "sorted_wrt lt ps \<Longrightarrow> distinct ps"
  by (induction ps) (auto simp: po_irrefl)

text \<open>A sorted list splits at a price: what comes before, the element at the price, what comes after.\<close>

lemma sorted_split:
  assumes "sorted_wrt lt (map key xs)"
  shows "\<exists>A L B. xs = A @ L @ B \<and> length L \<le> 1 \<and> (\<forall>a \<in> set A. lt (key a) p) \<and>
    (\<forall>l \<in> set L. key l = p) \<and> (\<forall>b \<in> set B. lt p (key b))"
  using assms
proof (induction xs)
  case (Cons x xs)
  then obtain A L B where IH: "xs = A @ L @ B" "length L \<le> 1" "\<forall>a \<in> set A. lt (key a) p"
    "\<forall>l \<in> set L. key l = p" "\<forall>b \<in> set B. lt p (key b)" by auto
  have after: "lt (key x) (key y)" if "y \<in> set xs" for y using Cons.prems that by simp
  consider "lt (key x) p" | "key x = p" | "lt p (key x)" using po_total by blast
  then show ?case
  proof cases
    case 1
    with IH have "x # xs = (x # A) @ L @ B \<and> (\<forall>a \<in> set (x # A). lt (key a) p)" by simp
    with IH show ?thesis by blast
  next
    case 2
    with after have "\<forall>b \<in> set xs. lt p (key b)" by auto
    with 2 have "x # xs = [] @ [x] @ xs \<and> length [x] \<le> 1 \<and> (\<forall>l \<in> set [x]. key l = p) \<and>
      (\<forall>b \<in> set xs. lt p (key b))" by simp
    then show ?thesis by (metis empty_iff empty_set)
  next
    case 3
    with after have "\<forall>b \<in> set (x # xs). lt p (key b)" using po_trans by auto
    then have "x # xs = [] @ [] @ (x # xs) \<and> (\<forall>b \<in> set (x # xs). lt p (key b))" by simp
    then show ?thesis by (metis empty_iff empty_set le0 list.size(3))
  qed
qed simp

lemma takeWhile_before:
  assumes "\<forall>a \<in> set A. lt (key a) p" "\<forall>l \<in> set L. key l = p" "\<forall>b \<in> set B. lt p (key b)"
  shows "takeWhile (\<lambda>x. lt (key x) p) (A @ L @ B) = A"
proof -
  have "takeWhile (\<lambda>x. lt (key x) p) (L @ B) = []"
    using assms(2,3) po_irrefl po_asym by (cases L; cases B) auto
  with assms(1) show ?thesis by simp
qed

lemma upd_level_hit:
  assumes "\<forall>a \<in> set A. lt (fst a) p"
  shows "upd_level lt p f (A @ (p, q) # B) = A @ (if f q = [] then B else (p, f q) # B)"
  using assms by (induction A) (auto simp: po_irrefl)

lemma upd_level_miss:
  assumes "\<forall>a \<in> set A. lt (fst a) p" "\<forall>b \<in> set B. lt p (fst b)"
  shows "upd_level lt p f (A @ B) = A @ (if f [] = [] then B else (p, f []) # B)"
proof -
  have "upd_level lt p f B = (if f [] = [] then B else (p, f []) # B)"
    using assms(2) po_irrefl po_asym by (cases B) auto
  with assms(1) show ?thesis by (induction A) auto
qed

lemma queue_at_hit:
  assumes "\<forall>a \<in> set A. lt (fst a) p"
  shows "queue_at p (A @ (p, q) # B) = q"
proof -
  have "p \<notin> fst ` set A" using assms po_irrefl by fastforce
  then show ?thesis by (simp add: queue_at_def map_of_append map_add_def map_of_eq_None_iff
        split: option.splits) (metis map_of_eq_None_iff option.distinct(1))
qed

lemma queue_at_miss: "p \<notin> fst ` set ls \<Longrightarrow> queue_at p ls = []"
  by (simp add: queue_at_def map_of_eq_None_iff [THEN iffD2] split: option.splits)

lemma queue_at_skip: "p' \<noteq> p \<Longrightarrow> queue_at p' (A @ (p, x) # B) = queue_at p' (A @ B)"
  by (cases "map_of A p'") (simp_all add: queue_at_def map_of_append map_add_def)

text \<open>A sorted side, split at a price: the level is there, or its place is found.\<close>

lemma level_cases [consumes 1, case_names hit miss]:
  assumes "sorted_wrt lt (map fst ls)"
  obtains (hit) A q B where "ls = A @ (p, q) # B" "\<forall>a \<in> set A. lt (fst a) p"
      "\<forall>b \<in> set B. lt p (fst b)"
    | (miss) A B where "ls = A @ B" "\<forall>a \<in> set A. lt (fst a) p" "\<forall>b \<in> set B. lt p (fst b)"
proof -
  obtain A L B where s: "ls = A @ L @ B" "length L \<le> 1" "\<forall>a \<in> set A. lt (fst a) p"
    "\<forall>l \<in> set L. fst l = p" "\<forall>b \<in> set B. lt p (fst b)"
    using sorted_split [OF assms, of p] by blast
  show thesis
  proof (cases L)
    case Nil
    with s miss show thesis by simp
  next
    case (Cons l L')
    with s(2,4) obtain q where "L = [(p, q)]" by (cases l) auto
    with s hit [of A q B] show thesis by simp
  qed
qed

text \<open>What \<open>upd_level\<close> means for every price of a sorted side.\<close>

lemma queue_at_upd_level:
  assumes "sorted_wrt lt (map fst ls)"
  shows "queue_at p' (upd_level lt p f ls) = (if p' = p then f (queue_at p ls) else queue_at p' ls)"
  using assms
proof (cases rule: level_cases [where p = p])
  case (hit A q B)
  have "p \<notin> fst ` set (A @ B)" using hit po_irrefl by fastforce
  then have "queue_at p (A @ B) = []" by (rule queue_at_miss)
  then show ?thesis
    using hit by (cases "p' = p") (auto simp: upd_level_hit queue_at_hit queue_at_skip)
next
  case (miss A B)
  have "p \<notin> fst ` set (A @ B)" using miss po_irrefl by fastforce
  then have "queue_at p (A @ B) = []" by (rule queue_at_miss)
  then show ?thesis
    using miss by (cases "p' = p") (auto simp: upd_level_miss queue_at_hit queue_at_skip)
qed

lemma upd_level_cong:
  assumes "sorted_wrt lt (map fst ls)" "f (queue_at p ls) = g (queue_at p ls)"
  shows "upd_level lt p f ls = upd_level lt p g ls"
  using assms(1)
proof (cases rule: level_cases [where p = p])
  case (hit A q B)
  then show ?thesis using assms(2) by (simp add: upd_level_hit queue_at_hit)
next
  case (miss A B)
  have "p \<notin> fst ` set ls" using miss po_irrefl by fastforce
  then have "queue_at p ls = []" by (rule queue_at_miss)
  with miss assms(2) show ?thesis by (simp add: upd_level_miss)
qed

lemma sorted_insert_between:
  assumes "sorted_wrt lt (as @ bs)" "\<forall>a \<in> set as. lt a p" "\<forall>b \<in> set bs. lt p b"
  shows "sorted_wrt lt (as @ p # bs)"
  using assms by (auto simp: sorted_wrt_append)

lemma sorted_upd_level:
  assumes "sorted_wrt lt (map fst ls)"
  shows "sorted_wrt lt (map fst (upd_level lt p f ls))"
  using assms
proof (cases rule: level_cases [where p = p])
  case (hit A q B)
  with assms show ?thesis by (auto simp: upd_level_hit sorted_wrt_append)
next
  case (miss A B)
  with assms have "sorted_wrt lt (map fst A @ p # map fst B)"
    by (intro sorted_insert_between) auto
  with miss assms show ?thesis by (auto simp: upd_level_miss)
qed

lemma nonempty_upd_level:
  "[] \<notin> snd ` set ls \<Longrightarrow> [] \<notin> snd ` set (upd_level lt p f ls)"
  by (induction ls) (force split: if_splits)+

end

interpretation side_order: price_order "before s" for s
  by (cases s; unfold_locales) auto

end
