(* ===== verification/Match_Spec.thy ===== *)
theory Match_Spec
  imports Book_Spec
begin

text \<open>
  The reference behaviour of the operations of the book on the abstract book of \<open>Book_Spec\<close>:
  matching, resting, cancelling, reducing and setting a level, and the facts about matching that
  do not depend on how the code does it (conservation of quantity, price-time priority, what is
  left when a remainder is left).
\<close>

section \<open>Definitions\<close>

definition volumes :: "aorder list \<Rightarrow> int" where
  "volumes q = sum_list (map snd q)"

text \<open>An incoming order on side \<open>s\<close> with this limit accepts the resting price \<open>p\<close>.\<close>

definition acceptable :: "side \<Rightarrow> price \<Rightarrow> price \<Rightarrow> bool" where
  "acceptable s limit p \<longleftrightarrow> \<not> before (opposed s) limit p"

text \<open>Fill from one queue, oldest first: what is left of the volume and of the queue, the trades.\<close>

fun fill_queue :: "order_id \<Rightarrow> price \<Rightarrow> int \<Rightarrow> aorder list \<Rightarrow> int \<times> aorder list \<times> trade list" where
  "fill_queue a p v [] = (v, [], [])"
| "fill_queue a p v ((i, w) # q) =
     (if v \<le> 0 then (v, (i, w) # q, [])
      else let f = min v w; t = \<lparr>aggressor = a, resting = i, tprice = p, tvolume = f\<rparr> in
        if w - f = 0 then (case fill_queue a p (v - f) q of (v', q', ts) \<Rightarrow> (v', q', t # ts))
        else (v - f, (i, w - f) # q, [t]))"

text \<open>Fill from the levels, best price first, as long as the price is accepted.\<close>

fun sweep :: "(price \<Rightarrow> bool) \<Rightarrow> order_id \<Rightarrow> int \<Rightarrow> alevel list \<Rightarrow> int \<times> alevel list \<times> trade list" where
  "sweep c a v [] = (v, [], [])"
| "sweep c a v ((p, q) # ls) =
     (if v > 0 \<and> c p then
        (case fill_queue a p v q of (v', q', ts) \<Rightarrow>
           if q' = [] then (case sweep c a v' ls of (v2, ls2, ts2) \<Rightarrow> (v2, ls2, ts @ ts2))
           else (v', (p, q') # ls, ts))
      else (v, (p, q) # ls, []))"

definition liquidity :: "(price \<Rightarrow> bool) \<Rightarrow> alevel list \<Rightarrow> int" where
  "liquidity c ls = sum_list (map (volumes \<circ> snd) (takeWhile (\<lambda>l. c (fst l)) ls))"

definition spec_rest :: "side \<Rightarrow> price \<Rightarrow> order_id \<Rightarrow> int \<Rightarrow> abook \<Rightarrow> abook" where
  "spec_rest s p i v ab = ab(s := upd_level (before s) p (\<lambda>q. q @ [(i, v)]) (ab s))"

definition spec_place :: "order \<Rightarrow> abook \<Rightarrow> trade list \<times> abook" where
  "spec_place od ab =
     (let s = oside od; opp = opposed s; c = acceptable s (oprice od) in
      if ovolume od \<le> 0 then ([], ab)
      else if otype od = FILL_OR_KILL \<and> liquidity c (ab opp) < ovolume od then ([], ab)
      else (case sweep c (oid od) (ovolume od) (ab opp) of (v, ls, ts) \<Rightarrow>
        (ts, if v > 0 \<and> otype od = GOOD_TILL_CANCELED
             then spec_rest s (oprice od) (oid od) v (ab(opp := ls)) else ab(opp := ls))))"

definition spec_cancel :: "side \<Rightarrow> price \<Rightarrow> order_id \<Rightarrow> abook \<Rightarrow> abook" where
  "spec_cancel s p i ab = ab(s := upd_level (before s) p (filter (\<lambda>x. fst x \<noteq> i)) (ab s))"

fun drain :: "int \<Rightarrow> aorder list \<Rightarrow> aorder list" where
  "drain v [] = []"
| "drain v ((i, w) # q) =
     (if v \<le> 0 then (i, w) # q
      else if w \<le> v then drain (v - w) q else (i, w - v) # q)"

definition spec_delete :: "side \<Rightarrow> price \<Rightarrow> int \<Rightarrow> abook \<Rightarrow> abook" where
  "spec_delete s p v ab = ab(s := upd_level (before s) p (drain v) (ab s))"

definition collapse :: "int \<Rightarrow> aorder list \<Rightarrow> aorder list" where
  "collapse v q = (if v \<le> 0 then [] else case q of [] \<Rightarrow> [(0, v)] | (i, _) # _ \<Rightarrow> [(i, v)])"

definition spec_set_level :: "side \<Rightarrow> price \<Rightarrow> int \<Rightarrow> abook \<Rightarrow> abook" where
  "spec_set_level s p v ab = ab(s := upd_level (before s) p (collapse v) (ab s))"

text \<open>
  Price-time priority in one list: the resting orders in the order in which they must trade, and
  the trades of an incoming volume against such a list.
\<close>

definition ranked :: "alevel list \<Rightarrow> (price \<times> aorder) list" where
  "ranked ls = concat (map (\<lambda>(p, q). map (Pair p) q) ls)"

fun greedy :: "order_id \<Rightarrow> int \<Rightarrow> (price \<times> aorder) list \<Rightarrow> trade list" where
  "greedy a v [] = []"
| "greedy a v ((p, i, w) # xs) =
     (if v \<le> 0 then []
      else \<lparr>aggressor = a, resting = i, tprice = p, tvolume = min v w\<rparr> # greedy a (v - min v w) xs)"

definition traded :: "trade list \<Rightarrow> int" where
  "traded ts = sum_list (map tvolume ts)"

section \<open>Filling from a queue\<close>

lemma volumes_simps [simp]:
  "volumes [] = 0" "volumes (x # q) = snd x + volumes q" "volumes (q @ r) = volumes q + volumes r"
  by (simp_all add: volumes_def)

lemma traded_simps [simp]:
  "traded [] = 0" "traded (t # ts) = tvolume t + traded ts" "traded (ts @ us) = traded ts + traded us"
  by (simp_all add: traded_def)

lemma volumes_nonneg: "\<forall>x \<in> set q. 0 < snd x \<Longrightarrow> 0 \<le> volumes q"
  unfolding volumes_def by (intro sum_list_nonneg) auto

lemma fill_queue_step:
  "fill_queue a p v ((i, w) # q) =
     (if v \<le> 0 then (v, (i, w) # q, [])
      else if w \<le> v then
        (case fill_queue a p (v - w) q of (v', q', ts) \<Rightarrow>
          (v', q', \<lparr>aggressor = a, resting = i, tprice = p, tvolume = w\<rparr> # ts))
      else (0, (i, w - v) # q, [\<lparr>aggressor = a, resting = i, tprice = p, tvolume = v\<rparr>]))"
  by (auto simp: Let_def)

declare fill_queue.simps(2) [simp del]

text \<open>The three ways a fill of a non-empty queue can go.\<close>

lemma fill_queue_cases [consumes 1, case_names stop whole part]:
  assumes "fill_queue a p v ((i, w) # q) = (v', q', ts)"
  obtains "v \<le> 0" "v' = v" "q' = (i, w) # q" "ts = []"
    | ts' where "0 < v" "w \<le> v" "fill_queue a p (v - w) q = (v', q', ts')"
      "ts = \<lparr>aggressor = a, resting = i, tprice = p, tvolume = w\<rparr> # ts'"
    | "0 < v" "v < w" "v' = 0" "q' = (i, w - v) # q"
      "ts = [\<lparr>aggressor = a, resting = i, tprice = p, tvolume = v\<rparr>]"
  using assms by (auto simp: fill_queue_step split: if_splits prod.splits)

lemma fill_queue_conserves:
  "fill_queue a p v q = (v', q', ts) \<Longrightarrow>
     v = v' + traded ts \<and> volumes q = volumes q' + traded ts"
proof (induction q arbitrary: v ts)
  case (Cons x q)
  obtain i w where "x = (i, w)" by (cases x)
  with Cons.prems have "fill_queue a p v ((i, w) # q) = (v', q', ts)" by simp
  then show ?case
  proof (cases rule: fill_queue_cases)
    case (whole ts')
    with Cons.IH [OF whole(3)] \<open>x = (i, w)\<close> show ?thesis by simp
  qed (simp_all add: \<open>x = (i, w)\<close>)
qed simp

lemma fill_queue_left:
  assumes "fill_queue a p v q = (v', q', ts)" "\<forall>x \<in> set q. 0 < snd x" "0 \<le> v"
  shows "v' = max 0 (v - volumes q) \<and> (q' \<noteq> [] \<longrightarrow> v' = 0) \<and> (\<forall>x \<in> set q'. 0 < snd x)"
  using assms
proof (induction q arbitrary: v ts)
  case (Cons x q)
  obtain i w where x: "x = (i, w)" by (cases x)
  have "0 \<le> volumes q" using Cons.prems by (intro volumes_nonneg) simp
  from Cons.prems x have "fill_queue a p v ((i, w) # q) = (v', q', ts)" by simp
  then show ?case
  proof (cases rule: fill_queue_cases)
    case stop
    with Cons.prems x \<open>0 \<le> volumes q\<close> show ?thesis by auto
  next
    case (whole ts')
    from Cons.IH [OF whole(3)] whole Cons.prems
    have "v' = max 0 (v - w - volumes q)" "q' \<noteq> [] \<longrightarrow> v' = 0" "\<forall>x \<in> set q'. 0 < snd x" by auto
    with x show ?thesis by (simp add: algebra_simps)
  next
    case part
    with Cons.prems x \<open>0 \<le> volumes q\<close> show ?thesis by auto
  qed
qed simp

lemma fill_queue_drain: "fst (snd (fill_queue a p v q)) = drain v q"
  by (induction q arbitrary: v) (auto simp: fill_queue_step split: prod.splits, metis fst_conv snd_conv)

section \<open>Price-time priority\<close>

definition total_ranked :: "(price \<times> aorder) list \<Rightarrow> int" where
  "total_ranked xs = sum_list (map (snd \<circ> snd) xs)"

lemma greedy_le_0 [simp]: "v \<le> 0 \<Longrightarrow> greedy a v xs = []"
  by (cases "(a, v, xs)" rule: greedy.cases) auto

lemma greedy_append:
  assumes "\<forall>x \<in> set xs. 0 < snd (snd x)" "0 \<le> v"
  shows "greedy a v (xs @ ys) = greedy a v xs @ greedy a (max 0 (v - total_ranked xs)) ys"
  using assms
proof (induction a v xs rule: greedy.induct)
  case (2 a v p i w xs)
  have t: "0 \<le> total_ranked xs"
    unfolding total_ranked_def using "2.prems"(1) by (intro sum_list_nonneg) auto
  show ?case
  proof (cases "v \<le> 0")
    case True
    with t "2.prems" show ?thesis by (simp add: total_ranked_def)
  next
    case False
    then have "greedy a (v - min v w) (xs @ ys) =
        greedy a (v - min v w) xs @ greedy a (max 0 (v - min v w - total_ranked xs)) ys"
      using "2.IH" "2.prems" by simp
    moreover have "max 0 (v - min v w - total_ranked xs) = max 0 (v - (w + total_ranked xs))"
      using t by linarith
    ultimately show ?thesis using False by (simp add: total_ranked_def)
  qed
qed (simp add: total_ranked_def)

lemma fill_queue_greedy:
  assumes "fill_queue a p v q = (v', q', ts)" "\<forall>x \<in> set q. 0 < snd x"
  shows "ts = greedy a v (map (Pair p) q)"
  using assms
proof (induction q arbitrary: v ts)
  case (Cons x q)
  obtain i w where x: "x = (i, w)" by (cases x)
  from Cons.prems x have "fill_queue a p v ((i, w) # q) = (v', q', ts)" by simp
  then show ?case
  proof (cases rule: fill_queue_cases)
    case (whole ts')
    with Cons.IH [OF whole(3)] Cons.prems x show ?thesis by simp
  qed (simp_all add: x)
qed simp

lemma ranked_simps [simp]:
  "ranked [] = []" "ranked ((p, q) # ls) = map (Pair p) q @ ranked ls"
  by (simp_all add: ranked_def)

lemma total_ranked_simps [simp]:
  "total_ranked [] = 0" "total_ranked (map (Pair p) q) = volumes q"
  "total_ranked (xs @ ys) = total_ranked xs + total_ranked ys"
  by (simp_all add: total_ranked_def volumes_def comp_def)

lemma liquidity_simps [simp]:
  "liquidity c [] = 0"
  "liquidity c ((p, q) # ls) = (if c p then volumes q + liquidity c ls else 0)"
  by (simp_all add: liquidity_def)

abbreviation positive_book :: "alevel list \<Rightarrow> bool" where
  "positive_book ls \<equiv> (\<forall>l \<in> set ls. \<forall>x \<in> set (snd l). 0 < snd x)"

lemma liquidity_nonneg: "positive_book ls \<Longrightarrow> 0 \<le> liquidity c ls"
  by (induction ls) (auto simp: volumes_nonneg intro!: add_nonneg_nonneg)

section \<open>Sweeping the levels\<close>

definition resting_volume :: "alevel list \<Rightarrow> int" where
  "resting_volume ls = sum_list (map (volumes \<circ> snd) ls)"

lemma resting_volume_simps [simp]:
  "resting_volume [] = 0" "resting_volume ((p, q) # ls) = volumes q + resting_volume ls"
  by (simp_all add: resting_volume_def)

lemma sweep_conserves:
  "sweep c a v ls = (v', ls', ts) \<Longrightarrow>
     v = v' + traded ts \<and> resting_volume ls = resting_volume ls' + traded ts"
proof (induction c a v ls arbitrary: v' ls' ts rule: sweep.induct)
  case (2 c a v p q ls)
  obtain v1 q1 ts1 where r: "fill_queue a p v q = (v1, q1, ts1)" by (cases "fill_queue a p v q")
  obtain v2 ls2 ts2 where r2: "sweep c a v1 ls = (v2, ls2, ts2)" by (cases "sweep c a v1 ls")
  show ?case
    using "2.IH" [OF _ r [symmetric] refl _ r2] "2.prems" r r2 fill_queue_conserves [OF r]
    by (auto split: if_splits)
qed simp

lemma sweep_result:
  assumes "sweep c a v ls = (v', ls', ts)" "positive_book ls" "0 \<le> v"
  shows "v' = max 0 (v - liquidity c ls) \<and> positive_book ls' \<and>
    ts = greedy a v (ranked (takeWhile (\<lambda>l. c (fst l)) ls)) \<and>
    (0 < v' \<longrightarrow> ls' = dropWhile (\<lambda>l. c (fst l)) ls)"
  using assms
proof (induction c a v ls arbitrary: v' ls' ts rule: sweep.induct)
  case (2 c a v p q ls)
  obtain v1 q1 ts1 where r: "fill_queue a p v q = (v1, q1, ts1)" by (cases "fill_queue a p v q")
  obtain v2 ls2 ts2 where r2: "sweep c a v1 ls = (v2, ls2, ts2)" by (cases "sweep c a v1 ls")
  have pq: "\<forall>x \<in> set q. 0 < snd x" and pl: "positive_book ls" using "2.prems"(2) by auto
  have nn: "0 \<le> volumes q" "0 \<le> liquidity c ls" using pq pl by (auto intro: volumes_nonneg liquidity_nonneg)
  note left = fill_queue_left [OF r pq "2.prems"(3)]
  note ts1 = fill_queue_greedy [OF r pq]
  show ?case
  proof (cases "v > 0 \<and> c p")
    case True
    have app: "greedy a v (map (Pair p) q @ xs) = ts1 @ greedy a v1 xs" for xs
      using left ts1 pq "2.prems"(3) by (subst greedy_append) auto
    show ?thesis
    proof (cases "q1 = []")
      case q1: True
      have "0 \<le> v1" using left by simp
      from "2.IH" [OF True r [symmetric] refl q1 r2 pl this]
      have IH: "v2 = max 0 (v1 - liquidity c ls)" "positive_book ls2"
        "ts2 = greedy a v1 (ranked (takeWhile (\<lambda>l. c (fst l)) ls))"
        "0 < v2 \<longrightarrow> ls2 = dropWhile (\<lambda>l. c (fst l)) ls" by auto
      have "v' = v2 \<and> ls' = ls2 \<and> ts = ts1 @ ts2" using "2.prems"(1) True q1 r r2 by simp
      moreover have "max 0 (v1 - liquidity c ls) = max 0 (v - (volumes q + liquidity c ls))"
        using left nn by linarith
      ultimately show ?thesis using IH app True by simp
    next
      case q1: False
      with left have "v1 = 0" by simp
      moreover have "v' = v1 \<and> ls' = (p, q1) # ls \<and> ts = ts1" using "2.prems"(1) True q1 r by simp
      moreover have "v \<le> volumes q + liquidity c ls" using left nn \<open>v1 = 0\<close> by linarith
      ultimately show ?thesis using left app pl True by simp
    qed
  next
    case False
    then have "v' = v" "ls' = (p, q) # ls" "ts = []" using "2.prems"(1) by auto
    then show ?thesis using "2.prems"(2,3) nn False by (cases "c p") simp_all
  qed
qed simp

lemma sweep_subset: "sweep c a v ls = (v', ls', ts) \<Longrightarrow> fst ` set ls' \<subseteq> fst ` set ls"
proof (induction c a v ls arbitrary: v' ls' ts rule: sweep.induct)
  case (2 c a v p q ls)
  obtain v1 q1 ts1 where r: "fill_queue a p v q = (v1, q1, ts1)" by (cases "fill_queue a p v q")
  obtain v2 ls2 ts2 where r2: "sweep c a v1 ls = (v2, ls2, ts2)" by (cases "sweep c a v1 ls")
  show ?case
    using "2.IH" [OF _ r [symmetric] refl _ r2] "2.prems" r r2 by (auto split: if_splits)
qed simp

text \<open>On a sorted side the accepted levels are a prefix: nothing acceptable hides behind.\<close>

lemma accepted_prefix:
  assumes "sorted_wrt (before (opposed s)) (map fst ls)"
  shows "takeWhile (\<lambda>l. acceptable s limit (fst l)) ls = filter (\<lambda>l. acceptable s limit (fst l)) ls"
  using assms
proof (induction ls)
  case (Cons l ls)
  show ?case
  proof (cases "acceptable s limit (fst l)")
    case False
    with Cons.prems have "\<forall>x \<in> set ls. \<not> acceptable s limit (fst x)"
      by (auto simp: acceptable_def intro: side_order.po_trans)
    with False show ?thesis by (auto simp: filter_empty_conv)
  next
    case True
    have "sorted_wrt (before (opposed s)) (map fst ls)" using Cons.prems by simp
    from Cons.IH [OF this] True show ?thesis by simp
  qed
qed simp

lemma dropped_not_acceptable:
  assumes "sorted_wrt (before (opposed s)) (map fst ls)"
  shows "\<forall>l \<in> set (dropWhile (\<lambda>l. acceptable s limit (fst l)) ls). \<not> acceptable s limit (fst l)"
  using assms
proof (induction ls)
  case (Cons l ls)
  show ?case
  proof (cases "acceptable s limit (fst l)")
    case False
    with Cons.prems have "\<forall>x \<in> set ls. \<not> acceptable s limit (fst x)"
      by (auto simp: acceptable_def intro: side_order.po_trans)
    with False show ?thesis by simp
  next
    case True
    have "sorted_wrt (before (opposed s)) (map fst ls)" using Cons.prems by simp
    note Cons.IH [OF this]
    then show ?thesis using True by (simp only: dropWhile.simps if_True simp_thms)
  qed
qed simp

end
