(* ===== verification/Order_Book.thy ===== *)
theory Order_Book
  imports Branchless Object_Pool Match_Spec
begin

text \<open>
  \<open>OrderBook\<close> of \<open>src/engine/order_book.hpp\<close> and \<open>src/engine/order_book.cpp\<close>. Levels live in two
  vectors (lists), best price first; the resting orders of a level are nodes of the pool, linked
  from \<open>head\<close> (oldest) to \<open>tail\<close> (newest); \<open>index\<close> maps the id of an identified resting order to
  its place. A reference the code holds into a vector (\<open>lvl\<close>, \<open>it\<close>) is a value the model passes
  along and writes back. Loops that follow links may fail to end on a corrupted pool, so they are
  partial functions: \<open>None\<close> is a call that does not return.
\<close>

section \<open>State\<close>

record resting_order =
  r_id :: order_id
  r_volume :: int

record level =
  lv_price :: price
  total_volume :: int
  head :: int
  tail :: int

record location =
  loc_side :: side
  loc_price :: price
  loc_node :: int

record order_book =
  pool :: "resting_order object_pool"
  bid_levels :: "level list"
  ask_levels :: "level list"
  index :: "order_id \<Rightarrow> location option"

abbreviation kNull :: int where
  "kNull \<equiv> null_index"

definition kAnonymous :: order_id where
  "kAnonymous = 0"

definition order_book_new :: "nat \<Rightarrow> order_book" where
  "order_book_new cap =
     \<lparr>pool = object_pool_new cap, bid_levels = [], ask_levels = [], index = Map.empty\<rparr>"

text \<open>\<open>Level{price}\<close>: no volume, no orders.\<close>

definition new_level :: "price \<Rightarrow> level" where
  "new_level p = \<lparr>lv_price = p, total_volume = 0, head = kNull, tail = kNull\<rparr>"

section \<open>Helpers\<close>

definition crosses :: "side \<Rightarrow> price \<Rightarrow> price \<Rightarrow> bool" where
  "crosses s p book_price = (if s = BID then p \<ge> book_price else p \<le> book_price)"

definition side_levels :: "side \<Rightarrow> order_book \<Rightarrow> level list" where
  "side_levels s ob = (if s = BID then bid_levels ob else ask_levels ob)"

text \<open>Assignment through the reference \<open>side_levels\<close> returns.\<close>

definition set_side_levels :: "side \<Rightarrow> level list \<Rightarrow> order_book \<Rightarrow> order_book" where
  "set_side_levels s ls ob =
     (if s = BID then ob\<lparr>bid_levels := ls\<rparr> else ob\<lparr>ask_levels := ls\<rparr>)"

definition find_level :: "level list \<Rightarrow> side \<Rightarrow> price \<Rightarrow> nat run" where
  "find_level ls s p =
     (if s = BID then branchless_lower_bound (\<lambda>x y. x > y) lv_price ls p
      else branchless_lower_bound (\<lambda>x y. x < y) lv_price ls p)"

text \<open>\<open>it != levels.end() && it->price == price\<close>\<close>

definition level_exists :: "level list \<Rightarrow> nat \<Rightarrow> price \<Rightarrow> bool" where
  "level_exists ls k p \<longleftrightarrow> k < length ls \<and> lv_price (ls ! k) = p"

definition pop_front :: "level \<Rightarrow> order_book \<Rightarrow> (level \<times> order_book) run" where
  "pop_front lvl ob =
     (let node = head lvl in
      chain (pool_get node (pool ob)) (\<lambda>nd.
      let ob1 = (if r_id (nval nd) \<noteq> kAnonymous
                 then ob\<lparr>index := (index ob)(r_id (nval nd) := None)\<rparr> else ob);
          lvl1 = lvl\<lparr>head := nnext nd\<rparr> in
      chain (if head lvl1 \<noteq> kNull
             then chain (pool_modify (head lvl1) (nprev_update (\<lambda>_. kNull)) (pool ob1))
                    (\<lambda>p. ok (lvl1, p))
             else ok (lvl1\<lparr>tail := kNull\<rparr>, pool ob1)) (\<lambda>(lvl2, p).
      ok (lvl2, ob1\<lparr>pool := pool_deallocate node p\<rparr>))))"

definition unlink :: "level \<Rightarrow> int \<Rightarrow> order_book \<Rightarrow> (level \<times> order_book) run" where
  "unlink lvl node ob =
     chain (pool_get node (pool ob)) (\<lambda>nd.
     let prev = nprev nd; next = nnext nd in
     chain (if prev \<noteq> kNull
            then chain (pool_modify prev (nnext_update (\<lambda>_. next)) (pool ob)) (\<lambda>p. ok (lvl, p))
            else ok (lvl\<lparr>head := next\<rparr>, pool ob)) (\<lambda>(lvl1, p1).
     chain (if next \<noteq> kNull
            then chain (pool_modify next (nprev_update (\<lambda>_. prev)) p1) (\<lambda>p. ok (lvl1, p))
            else ok (lvl1\<lparr>tail := prev\<rparr>, p1)) (\<lambda>(lvl2, p2).
     ok (lvl2, ob\<lparr>pool := p2\<rparr>))))"

fun fill_scan :: "level list \<Rightarrow> side \<Rightarrow> price \<Rightarrow> int \<Rightarrow> int \<Rightarrow> bool" where
  "fill_scan [] s p v available = False"
| "fill_scan (lvl # ls) s p v available =
     (if \<not> crosses s p (lv_price lvl) then False
      else let available' = wrap64 (available + total_volume lvl) in
        if available' \<ge> v then True else fill_scan ls s p v available')"

definition can_fully_fill :: "level list \<Rightarrow> side \<Rightarrow> price \<Rightarrow> int \<Rightarrow> bool" where
  "can_fully_fill opposite s p v = fill_scan opposite s p v 0"

section \<open>Resting an order\<close>

definition rest :: "order_id \<Rightarrow> side \<Rightarrow> price \<Rightarrow> int \<Rightarrow> order_book \<Rightarrow> order_book run" where
  "rest i s p v ob =
     chain (find_level (side_levels s ob) s p) (\<lambda>k.
     let levels = (if level_exists (side_levels s ob) k p then side_levels s ob
                   else insert_at k (new_level p) (side_levels s ob)) in
     chain (pool_allocate \<lparr>r_id = i, r_volume = v\<rparr> (pool ob)) (\<lambda>(node, p1).
     chain (element_at levels k) (\<lambda>lvl.
     chain (if tail lvl = kNull then ok (lvl\<lparr>head := node, tail := node\<rparr>, p1)
            else chain (pool_modify (tail lvl) (nnext_update (\<lambda>_. node)) p1) (\<lambda>p2.
                 chain (pool_modify node (nprev_update (\<lambda>_. tail lvl)) p2) (\<lambda>p3.
                 ok (lvl\<lparr>tail := node\<rparr>, p3)))) (\<lambda>(lvl1, p4).
     let lvl2 = lvl1\<lparr>total_volume := wrap64 (total_volume lvl1 + v)\<rparr>;
         idx = (if i \<noteq> kAnonymous
                then (index ob)(i \<mapsto> \<lparr>loc_side = s, loc_price = p, loc_node = node\<rparr>)
                else index ob) in
     ok (set_side_levels s (levels[k := lvl2]) (ob\<lparr>pool := p4, index := idx\<rparr>))))))"

section \<open>Matching\<close>

text \<open>
  The inner loop of \<open>match\<close>: fill from the head of one level while volume is left and the level
  has an order. \<open>fill_head\<close> is one turn of the loop.
\<close>

definition fill_head ::
  "order_id \<Rightarrow> int \<Rightarrow> level \<Rightarrow> order_book \<Rightarrow> trade list \<Rightarrow>
     (int \<times> level \<times> order_book \<times> trade list) run" where
  "fill_head i v lvl ob trades =
     chain (pool_get (head lvl) (pool ob)) (\<lambda>nd.
     let r = nval nd; fill = min v (r_volume r);
         trades' = trades @ [\<lparr>aggressor = i, resting = r_id r, tprice = lv_price lvl,
                              tvolume = fill\<rparr>];
         r' = r\<lparr>r_volume := wrap64 (r_volume r - fill)\<rparr> in
     chain (pool_modify (head lvl) (nval_update (\<lambda>_. r')) (pool ob)) (\<lambda>p1.
     let lvl1 = lvl\<lparr>total_volume := wrap64 (total_volume lvl - fill)\<rparr>; ob1 = ob\<lparr>pool := p1\<rparr> in
     chain (if r_volume r' = 0 then pop_front lvl1 ob1 else ok (lvl1, ob1)) (\<lambda>(lvl2, ob2).
     ok (wrap64 (v - fill), lvl2, ob2, trades'))))"

partial_function (option) match_level ::
  "order_id \<Rightarrow> int \<Rightarrow> level \<Rightarrow> order_book \<Rightarrow> trade list \<Rightarrow>
     (fault + int \<times> level \<times> order_book \<times> trade list) option" where
  "match_level i v lvl ob trades =
     (if v > 0 \<and> head lvl \<noteq> kNull then
        chain (fill_head i v lvl ob trades) (\<lambda>(v', lvl', ob', trades').
          match_level i v' lvl' ob' trades')
      else ok (v, lvl, ob, trades))"

partial_function (option) match ::
  "order_id \<Rightarrow> side \<Rightarrow> price \<Rightarrow> int \<Rightarrow> order_book \<Rightarrow> trade list \<Rightarrow>
     (fault + int \<times> order_book \<times> trade list) option" where
  "match i s p v ob trades =
     (case side_levels (opposed s) ob of
        [] \<Rightarrow> ok (v, ob, trades)
      | lvl # ls \<Rightarrow>
          if v > 0 \<and> crosses s p (lv_price lvl) then
            chain (match_level i v lvl ob trades) (\<lambda>(v', lvl', ob', trades').
              match i s p v'
                (set_side_levels (opposed s) (if head lvl' = kNull then ls else lvl' # ls) ob')
                trades')
          else ok (v, ob, trades))"

definition place_order :: "order \<Rightarrow> order_book \<Rightarrow> (trade list \<times> order_book) run" where
  "place_order od ob =
     (let i = oid od; s = oside od; p = oprice od; v = ovolume od; ty = otype od in
      if v \<le> 0 then ok ([], ob)
      else if ty = FILL_OR_KILL \<and> \<not> can_fully_fill (side_levels (opposed s) ob) s p v
      then ok ([], ob)
      else chain (match i s p v ob []) (\<lambda>(new_volume, ob1, trades).
        let rest_remainder = (new_volume > 0 \<and> ty \<noteq> IMMEDIATE_OR_CANCEL \<and> ty \<noteq> FILL_OR_KILL) in
        if rest_remainder then chain (rest i s p new_volume ob1) (\<lambda>ob2. ok (trades, ob2))
        else ok (trades, ob1)))"

section \<open>Cancelling, seeding and reducing\<close>

definition cancel_order :: "order_id \<Rightarrow> order_book \<Rightarrow> order_book run" where
  "cancel_order i ob =
     (case index ob i of
        None \<Rightarrow> ok ob
      | Some loc \<Rightarrow>
          let s = loc_side loc; p = loc_price loc; node = loc_node loc; levels = side_levels s ob in
          chain (find_level levels s p) (\<lambda>k.
          if \<not> level_exists levels k p then abort Level_Missing
          else
            chain (pool_get node (pool ob)) (\<lambda>nd.
            let remaining = r_volume (nval nd) in
            chain (unlink (levels ! k) node ob) (\<lambda>(lvl, ob1).
            let lvl' = lvl\<lparr>total_volume := wrap64 (total_volume lvl - remaining)\<rparr>;
                levels' = (if head lvl' = kNull then erase_at k levels else levels[k := lvl']) in
            ok (set_side_levels s levels'
                  (ob1\<lparr>pool := pool_deallocate node (pool ob1),
                       index := (index ob1)(i := None)\<rparr>))))))"

definition add_order :: "side \<Rightarrow> price \<Rightarrow> int \<Rightarrow> order_book \<Rightarrow> order_book run" where
  "add_order s p v ob = (if v \<le> 0 then ok ob else rest kAnonymous s p v ob)"

text \<open>One turn of the loop of \<open>delete_order\<close>, and the loop.\<close>

definition take_head :: "int \<Rightarrow> level \<Rightarrow> order_book \<Rightarrow> (int \<times> level \<times> order_book) run" where
  "take_head v lvl ob =
     chain (pool_get (head lvl) (pool ob)) (\<lambda>nd.
     let current_volume = r_volume (nval nd); tk = min v current_volume;
         current' = wrap64 (current_volume - tk) in
     chain (pool_modify (head lvl) (nval_update (r_volume_update (\<lambda>_. current'))) (pool ob)) (\<lambda>p1.
     let lvl1 = lvl\<lparr>total_volume := wrap64 (total_volume lvl - tk)\<rparr>; ob1 = ob\<lparr>pool := p1\<rparr> in
     chain (if current' = 0 then pop_front lvl1 ob1 else ok (lvl1, ob1)) (\<lambda>(lvl2, ob2).
     ok (wrap64 (v - tk), lvl2, ob2))))"

partial_function (option) delete_loop ::
  "int \<Rightarrow> level \<Rightarrow> order_book \<Rightarrow> (fault + level \<times> order_book) option" where
  "delete_loop v lvl ob =
     (if v > 0 \<and> head lvl \<noteq> kNull then
        chain (take_head v lvl ob) (\<lambda>(v', lvl', ob'). delete_loop v' lvl' ob')
      else ok (lvl, ob))"

definition delete_order :: "side \<Rightarrow> price \<Rightarrow> int \<Rightarrow> order_book \<Rightarrow> order_book run" where
  "delete_order s p v ob =
     (let levels = side_levels s ob in
      chain (find_level levels s p) (\<lambda>k.
      if \<not> level_exists levels k p then ok ob
      else chain (delete_loop v (levels ! k) ob) (\<lambda>(lvl, ob1).
        ok (set_side_levels s
              (if head lvl = kNull then erase_at k levels else levels[k := lvl]) ob1))))"

section \<open>Setting a level\<close>

partial_function (option) clear_level ::
  "level \<Rightarrow> order_book \<Rightarrow> (fault + level \<times> order_book) option" where
  "clear_level lvl ob =
     (if head lvl \<noteq> kNull then
        chain (pop_front lvl ob) (\<lambda>(lvl', ob'). clear_level lvl' ob')
      else ok (lvl, ob))"

text \<open>The drain of the nodes behind the head: it frees them and touches nothing else.\<close>

partial_function (option) free_chain ::
  "int \<Rightarrow> resting_order object_pool \<Rightarrow> (fault + resting_order object_pool) option" where
  "free_chain n p =
     (if n \<noteq> kNull then
        chain (pool_get n p) (\<lambda>nd. free_chain (nnext nd) (pool_deallocate n p))
      else ok p)"

definition set_level :: "side \<Rightarrow> price \<Rightarrow> int \<Rightarrow> order_book \<Rightarrow> order_book run" where
  "set_level s p v ob =
     (let levels = side_levels s ob in
      chain (find_level levels s p) (\<lambda>k.
      let exists = level_exists levels k p in
      if v \<le> 0 then
        (if exists then
           chain (clear_level (levels ! k) ob) (\<lambda>(lvl, ob1).
             ok (set_side_levels s (erase_at k levels) ob1))
         else ok ob)
      else if \<not> exists then
        chain (pool_allocate \<lparr>r_id = kAnonymous, r_volume = v\<rparr> (pool ob)) (\<lambda>(node, p1).
          let lvl = (new_level p)\<lparr>head := node, tail := node, total_volume := v\<rparr> in
          ok (set_side_levels s (insert_at k lvl levels) (ob\<lparr>pool := p1\<rparr>)))
      else
        (let lvl = levels ! k in
         chain (pool_get (head lvl) (pool ob)) (\<lambda>hd_node.
         chain (free_chain (nnext hd_node) (pool ob)) (\<lambda>p1.
         chain (pool_modify (head lvl) (nnext_update (\<lambda>_. kNull)) p1) (\<lambda>p2.
         chain (pool_modify (head lvl) (nval_update (r_volume_update (\<lambda>_. v))) p2) (\<lambda>p3.
         let lvl' = lvl\<lparr>tail := head lvl, total_volume := v\<rparr> in
         ok (set_side_levels s (levels[k := lvl']) (ob\<lparr>pool := p3\<rparr>)))))))))"

text \<open>The equations of the loops compute.\<close>

declare match_level.simps [code] match.simps [code] delete_loop.simps [code]
  clear_level.simps [code] free_chain.simps [code]

section \<open>Queries\<close>

definition volume_at_price :: "price \<Rightarrow> side \<Rightarrow> order_book \<Rightarrow> int run" where
  "volume_at_price p s ob =
     (let levels = side_levels s ob in
      chain (find_level levels s p) (\<lambda>k.
      ok (if level_exists levels k p then total_volume (levels ! k) else 0)))"

definition best_bid :: "order_book \<Rightarrow> price option" where
  "best_bid ob = (case bid_levels ob of [] \<Rightarrow> None | lvl # _ \<Rightarrow> Some (lv_price lvl))"

definition best_ask :: "order_book \<Rightarrow> price option" where
  "best_ask ob = (case ask_levels ob of [] \<Rightarrow> None | lvl # _ \<Rightarrow> Some (lv_price lvl))"

end
