(* ===== verification/Snapshot_Tool.thy ===== *)
theory Snapshot_Tool
  imports Binance_Depth Order_Book
begin

text \<open>
  \<open>src/tools/snapshot_main.cpp\<close>: fetch a depth snapshot over HTTPS or read a saved one, load it into an
  order book and report the top of book. The network (Boost.Asio and Beast), the file system, the
  JSON reader and \<open>fmt::format\<close> are parameters: a run is given the outcomes of its asynchronous
  operations. What the tool prints is the value of \<open>report\<close>.
\<close>

section \<open>Arguments\<close>

text \<open>\<open>std::atoi\<close>: white space, a sign, digits up to the first other character.\<close>

definition space_char :: "char \<Rightarrow> bool" where
  "space_char c \<longleftrightarrow> c \<in> set [CHR '' '', CHR 0x09, CHR 0x0A, CHR 0x0B, CHR 0x0C, CHR 0x0D]"

fun atoi_digits :: "int \<Rightarrow> string \<Rightarrow> int" where
  "atoi_digits v [] = v"
| "atoi_digits v (c # cs) = (if c \<in> set ''0123456789'' then atoi_digits (v * 10 + digit_value c) cs else v)"

definition atoi :: "string \<Rightarrow> int" where
  "atoi s = (case dropWhile space_char s of
       [] \<Rightarrow> 0
     | c # cs \<Rightarrow>
         if c = CHR ''-'' then wrap32 (- atoi_digits 0 cs)
         else if c = CHR ''+'' then wrap32 (atoi_digits 0 cs)
         else wrap32 (atoi_digits 0 (c # cs)))"

text \<open>\<open>argc > i ? std::atoi(argv[i]) : d\<close>, with \<open>args\<close> the arguments after the program's name\<close>

definition int_arg :: "string list \<Rightarrow> nat \<Rightarrow> int \<Rightarrow> int" where
  "int_arg args i d = (if length args + 1 > i then atoi (args ! (i - 1)) else d)"

section \<open>Fetching\<close>

record request =
  req_target :: string
  req_version :: nat
  req_fields :: "(string \<times> string) list"

text \<open>The outcomes of one HTTPS exchange.\<close>

record ('p, 'x) https =
  set_sni :: "string \<Rightarrow> bool"
  resolve :: "string \<Rightarrow> string \<Rightarrow> 'x + 'p"
  connect :: "'p \<Rightarrow> 'x option"
  tls_handshake :: "'x option"
  write_request :: "request \<Rightarrow> 'x option"
  read_response :: "'x + (nat \<times> string)"
  ec_message :: "'x \<Rightarrow> string"
  escaped :: "string option" \<comment> \<open>\<open>what()\<close> of an exception that left the coroutine\<close>

record formats =
  fmt_target :: "string \<Rightarrow> int \<Rightarrow> string"
  fmt_http :: "nat \<Rightarrow> string \<Rightarrow> string"
  fmt_open :: "string \<Rightarrow> string"

text \<open>\<open>if (ec) co_return std::unexpected(what + ec.message());\<close>\<close>

definition step_ok :: "('p, 'x) https \<Rightarrow> string \<Rightarrow> 'x option \<Rightarrow> string + unit" where
  "step_ok net what ec = (case ec of None \<Rightarrow> Inr () | Some x \<Rightarrow> Inl (what @ ec_message net x))"

definition get_request :: "string \<Rightarrow> string \<Rightarrow> request" where
  "get_request host target = \<lparr>req_target = target, req_version = 11,
     req_fields = [(''Host'', host), (''User-Agent'', ''order_book/1.0''), (''Accept'', ''application/json'')]\<rparr>"

definition https_get :: "('p, 'x) https \<Rightarrow> formats \<Rightarrow> string \<Rightarrow> string \<Rightarrow> string + string" where
  "https_get net fmt host target =
     (if \<not> set_sni net host then Inl ''failed to set TLS SNI host name''
      else
        attempt (case resolve net host ''443'' of
            Inl x \<Rightarrow> Inl (''resolve: '' @ ec_message net x) | Inr endpoints \<Rightarrow> Inr endpoints) (\<lambda>endpoints.
        attempt (step_ok net ''connect: '' (connect net endpoints)) (\<lambda>_.
        attempt (step_ok net ''tls handshake: '' (tls_handshake net)) (\<lambda>_.
        attempt (step_ok net ''write: '' (write_request net (get_request host target))) (\<lambda>_.
        attempt (case read_response net of
            Inl x \<Rightarrow> Inl (''read: '' @ ec_message net x) | Inr res \<Rightarrow> Inr res) (\<lambda>(status, body).
        if status \<noteq> 200 then Inl (fmt_http fmt status body) else Inr body))))))"

definition fetch_depth :: "('p, 'x) https \<Rightarrow> formats \<Rightarrow> string \<Rightarrow> int \<Rightarrow> string + string" where
  "fetch_depth net fmt symbol limit =
     (case escaped net of
        Some what \<Rightarrow> Inl (''exception: '' @ what)
      | None \<Rightarrow> https_get net fmt ''api.binance.com'' (fmt_target fmt symbol limit))"

definition read_file :: "(string \<Rightarrow> string option) \<Rightarrow> formats \<Rightarrow> string \<Rightarrow> string + string" where
  "read_file files fmt path = (case files path of None \<Rightarrow> Inl (fmt_open fmt path) | Some body \<Rightarrow> Inr body)"

section \<open>Loading\<close>

text \<open>The default capacity of \<open>OrderBook\<close>.\<close>

definition default_capacity :: nat where
  "default_capacity = 32768"

fun add_levels :: "side \<Rightarrow> price_level list \<Rightarrow> order_book \<Rightarrow> order_book run" where
  "add_levels s [] book = ok book"
| "add_levels s (l # ls) book = chain (add_order s (pl_price l) (pl_volume l) book) (add_levels s ls)"

definition load_book :: "depth_snapshot \<Rightarrow> order_book run" where
  "load_book snapshot =
     chain (add_levels BID (snap_bids snapshot) (order_book_new default_capacity)) (\<lambda>book.
     add_levels ASK (snap_asks snapshot) book)"

section \<open>The program\<close>

text \<open>The best bid and ask with their spread, printed when both exist.\<close>

definition top_of_book :: "order_book \<Rightarrow> (price \<times> price \<times> 64 word) option" where
  "top_of_book book =
     (case (best_bid book, best_ask book) of
        (Some bid, Some ask) \<Rightarrow> Some (bid, ask, ask - bid)
      | _ \<Rightarrow> None)"

datatype report =
    Usage
  | Fetch_Error string
  | Parse_Error string
  | Loaded "64 word" nat nat "(price \<times> price \<times> 64 word) option"

definition exit_code :: "report \<Rightarrow> int" where
  "exit_code r = (case r of Loaded i b a t \<Rightarrow> 0 | _ \<Rightarrow> 1)"

text \<open>From the JSON text on.\<close>

definition report_json :: "('d, 'v, 'e) simdjson \<Rightarrow> int \<Rightarrow> int \<Rightarrow> string + string \<Rightarrow> report run" where
  "report_json sj price_decimals qty_decimals json =
     (case json of
        Inl e \<Rightarrow> ok (Fetch_Error e)
      | Inr body \<Rightarrow>
          (case parse_binance_depth sj body price_decimals qty_decimals of
             Inl e \<Rightarrow> ok (Parse_Error e)
           | Inr snapshot \<Rightarrow>
               chain (load_book snapshot) (\<lambda>book.
               ok (Loaded (lastUpdateId snapshot) (length (snap_bids snapshot)) (length (snap_asks snapshot))
                 (top_of_book book)))))"

definition snapshot_main ::
  "('p, 'x) https \<Rightarrow> (string \<Rightarrow> string option) \<Rightarrow> formats \<Rightarrow> ('d, 'v, 'e) simdjson \<Rightarrow> string list \<Rightarrow> report run"
where
  "snapshot_main net files fmt sj args =
     (if length args + 1 < 2 then ok Usage
      else if args ! 0 = ''--file'' then
        (if length args + 1 < 3 then ok Usage
         else report_json sj (int_arg args 3 2) (int_arg args 4 2) (read_file files fmt (args ! 1)))
      else report_json sj (int_arg args 3 2) (int_arg args 4 2)
        (fetch_depth net fmt (args ! 0) (int_arg args 2 100)))"

end
