(* ===== verification/Capture_Tool.thy ===== *)
theory Capture_Tool
  imports Snapshot_Tool
begin

text \<open>
  \<open>src/tools/ws_capture_main.cpp\<close>: record a depth stream over a WebSocket into a file, one frame per
  line. The network and the clock are parameters: a run is given the outcomes of its asynchronous
  operations, and the sequence of clock readings and read results its loop meets.
\<close>

section \<open>Capturing\<close>

datatype 'x read = Frame string | Server_Closed | Read_Failed 'x

record ('p, 'x) websocket =
  ws_sni :: "string \<Rightarrow> bool"
  ws_resolve :: "string \<Rightarrow> string \<Rightarrow> 'x + 'p"
  ws_connect :: "'p \<Rightarrow> 'x option"
  ws_tls :: "'x option"
  ws_upgrade :: "string \<Rightarrow> string \<Rightarrow> 'x option"
  ws_opens :: "string \<Rightarrow> bool"
  ws_start :: int
  ws_turns :: "(int \<times> 'x read) list"
  ws_message :: "'x \<Rightarrow> string"
  ws_escaped :: "string option"

text \<open>
  The loop: the error message of a failed read, if any, the number of frames and what was written. A
  run whose turns are used up before it ends has not returned.
\<close>

fun capture_loop ::
  "('x \<Rightarrow> string) \<Rightarrow> int \<Rightarrow> (int \<times> 'x read) list \<Rightarrow> nat \<Rightarrow> string \<Rightarrow> (string option \<times> nat \<times> string) option"
where
  "capture_loop msg deadline [] frames out = None"
| "capture_loop msg deadline ((now, r) # turns) frames out =
     (if \<not> now < deadline then Some (None, frames, out)
      else case r of
        Server_Closed \<Rightarrow> Some (None, frames, out)
      | Read_Failed x \<Rightarrow> Some (Some (''read: '' @ msg x), frames, out)
      | Frame line \<Rightarrow> capture_loop msg deadline turns (frames + 1) (out @ line @ [newline]))"

text \<open>
  The result of the coroutine and the contents of the output file, if it was opened. (Of a run ended by
  an exception, \<open>ws_escaped\<close>, nothing is said about the file.)
\<close>

definition capture ::
  "('p, 'x) websocket \<Rightarrow> string \<Rightarrow> string \<Rightarrow> string \<Rightarrow> string \<Rightarrow> int \<Rightarrow> ((string + nat) \<times> string option) option"
where
  "capture net host port target outfile duration =
     (let fail = (\<lambda>e. Some (Inl e, None)) in
      if \<not> ws_sni net host then fail ''failed to set TLS SNI host name''
      else case ws_resolve net host port of
        Inl x \<Rightarrow> fail (''resolve: '' @ ws_message net x)
      | Inr endpoints \<Rightarrow>
      (case ws_connect net endpoints of
        Some x \<Rightarrow> fail (''connect: '' @ ws_message net x)
      | None \<Rightarrow>
      (case ws_tls net of
        Some x \<Rightarrow> fail (''tls handshake: '' @ ws_message net x)
      | None \<Rightarrow>
      (case ws_upgrade net (host @ '':'' @ port) target of
        Some x \<Rightarrow> fail (''ws handshake: '' @ ws_message net x)
      | None \<Rightarrow>
      if \<not> ws_opens net outfile then fail (''cannot open output file: '' @ outfile)
      else
        (case capture_loop (ws_message net) (ws_start net + duration) (ws_turns net) 0 [] of
           None \<Rightarrow> None
         | Some (Some e, frames, out) \<Rightarrow> Some (Inl e, Some out)
         | Some (None, frames, out) \<Rightarrow> Some (Inr frames, Some out))))))"

section \<open>The program\<close>

text \<open>\<open>std::tolower\<close> in the C locale\<close>

definition to_lower :: "char \<Rightarrow> char" where
  "to_lower c = (if 65 \<le> (of_char c :: nat) \<and> (of_char c :: nat) \<le> 90 then char_of ((of_char c :: nat) + 32) else c)"

definition stream_target :: "string \<Rightarrow> string \<Rightarrow> string" where
  "stream_target symbol speed =
     (let stream = (if speed = ''1000ms'' then symbol @ ''@depth'' else symbol @ ''@depth@100ms'') in
      ''/ws/'' @ stream)"

datatype capture_report = Capture_Usage | Bad_Seconds | Capture_Error string | Captured nat

definition capture_main :: "('p, 'x) websocket \<Rightarrow> string list \<Rightarrow> (capture_report \<times> string option) option" where
  "capture_main net args =
     (if length args + 1 < 3 then Some (Capture_Usage, None)
      else
        let symbol = map to_lower (args ! 0); outfile = args ! 1; seconds = int_arg args 3 30;
            speed = (if length args + 1 > 4 then args ! 3 else ''100ms'') in
        if seconds \<le> 0 then Some (Bad_Seconds, None)
        else
          case ws_escaped net of
            Some what \<Rightarrow> Some (Capture_Error (''exception: '' @ what), None)
          | None \<Rightarrow>
              (case capture net ''stream.binance.com'' ''9443'' (stream_target symbol speed) outfile seconds of
                 None \<Rightarrow> None
               | Some (Inl e, out) \<Rightarrow> Some (Capture_Error e, out)
               | Some (Inr frames, out) \<Rightarrow> Some (Captured frames, out)))"

end
