(* ===== verification/Decimal_Properties.thy ===== *)
theory Decimal_Properties
  imports Decimal
begin

text \<open>
  What \<open>parse_scaled\<close> computes: on a decimal numeral the exact value truncated to the given number
  of fractional digits (reduced to 64 bits), and an error on everything else.
\<close>

section \<open>Signs\<close>

text \<open>After the sign of a numeral comes a digit or the point.\<close>

lemma parse_scaled_unsigned:
  assumes "sign_text sg" "\<forall>c \<in> set ds. decimal_digit c" "sg @ ds @ point_text frac \<noteq> []"
  shows "parse_scaled isd (sg @ ds @ point_text frac) (int d) =
    parse_unsigned isd (sg = ''-'') (ds @ point_text frac) (int d)"
proof -
  consider "sg = ''+''" | "sg = ''-''" | "sg = []" using assms(1) by (auto simp: sign_text_def)
  then show ?thesis
  proof cases
    case 3
    then show ?thesis
      using assms(2,3) decimal_digit_cases
      by (cases ds) (auto simp: parse_scaled_def point_text_def split: option.splits)
  qed (simp_all add: parse_scaled_def)
qed

lemma numeral_unsigned:
  assumes "numeral_text sg ds frac" "sg @ ds @ point_text frac \<noteq> []"
  shows "parse_scaled decimal_digit (sg @ ds @ point_text frac) (int d) =
    (if ds = [] \<and> take d (frac_digits frac) = [] then Inl ''no digits in number''
     else Inr (wrap64 (sign_of sg * scaled_value d ds (frac_digits frac))))"
proof -
  have s: "sign_text sg" "\<forall>c \<in> set (ds @ frac_digits frac). decimal_digit c" "\<forall>c \<in> set ds. decimal_digit c"
    using assms(1) by (simp_all add: numeral_text_def)
  have sg: "(if sg = ''-'' then -1 else 1) = sign_of sg" by (simp add: sign_of_def)
  show ?thesis
    unfolding parse_scaled_unsigned [OF s(1,3) assms(2)] parse_unsigned_numeral [OF s(2)] sg ..
qed

section \<open>Numerals as an exchange prints them\<close>

text \<open>
  A scaled integer as a decimal with \<open>d\<close> significant fractional digits and \<open>z\<close> further zeros, the
  form of the prices and quantities of a depth feed.
\<close>

definition digit_char :: "nat \<Rightarrow> char" where
  "digit_char n = ''0123456789'' ! n"

fun nat_text :: "nat \<Rightarrow> string" where
  "nat_text n = (if n div 10 = 0 then [] else nat_text (n div 10)) @ [digit_char (n mod 10)]"

declare nat_text.simps [simp del]

primrec frac_text :: "nat \<Rightarrow> nat \<Rightarrow> string" where
  "frac_text 0 n = []"
| "frac_text (Suc d) n = frac_text d (n div 10) @ [digit_char (n mod 10)]"

definition print_scaled :: "nat \<Rightarrow> nat \<Rightarrow> int \<Rightarrow> string" where
  "print_scaled d z n =
     (if n < 0 then ''-'' else []) @ nat_text (nat \<bar>n\<bar> div 10 ^ d) @
     CHR ''.'' # frac_text d (nat \<bar>n\<bar> mod 10 ^ d) @ replicate z (CHR ''0'')"

lemma digit_char: "n < 10 \<Longrightarrow> decimal_digit (digit_char n) \<and> digit_value (digit_char n) = int n"
proof -
  assume "n < 10"
  then have "n \<in> {0, 1, 2, 3, 4, 5, 6, 7, 8, 9}" by auto
  then show ?thesis by (auto simp: digit_char_def decimal_digit_def digit_value_def)
qed

lemma nat_text_digits: "c \<in> set (nat_text n) \<Longrightarrow> decimal_digit c"
  by (induction n rule: nat_text.induct) (subst (asm) nat_text.simps, auto simp: digit_char split: if_splits)

lemma nat_text_value: "digits_val 0 (nat_text n) = int n"
proof (induction n rule: nat_text.induct)
  case (1 n)
  have "int n = int (n div 10) * 10 + int (n mod 10)"
    by (metis div_mult_mod_eq of_nat_add of_nat_mult of_nat_numeral)
  with 1 show ?case by (subst nat_text.simps) (auto simp: digit_char)
qed

lemma nat_text_neq [simp]: "nat_text n \<noteq> []"
  by (subst nat_text.simps) simp

lemma frac_text_digits: "c \<in> set (frac_text d n) \<Longrightarrow> decimal_digit c"
  by (induction d arbitrary: n) (auto simp: digit_char)

lemma length_frac_text [simp]: "length (frac_text d n) = d"
  by (induction d arbitrary: n) simp_all

lemma frac_text_value: "digits_val v (frac_text d n) = v * 10 ^ d + int (n mod 10 ^ d)"
proof (induction d arbitrary: n)
  case (Suc d)
  have "n mod 10 ^ Suc d = n div 10 mod 10 ^ d * 10 + n mod 10"
    by (simp add: mod_mult2_eq mult.commute)
  with Suc [of "n div 10"] show ?case by (simp add: digit_char algebra_simps)
qed simp

lemma print_scaled_numeral:
  "\<exists>sg. print_scaled d z n = sg @ nat_text (nat \<bar>n\<bar> div 10 ^ d) @
      point_text (Some (frac_text d (nat \<bar>n\<bar> mod 10 ^ d) @ replicate z (CHR ''0''))) \<and>
    numeral_text sg (nat_text (nat \<bar>n\<bar> div 10 ^ d)) (Some (frac_text d (nat \<bar>n\<bar> mod 10 ^ d) @ replicate z (CHR ''0''))) \<and>
    sign_of sg * \<bar>n\<bar> = n"
proof -
  have "decimal_digit (CHR ''0'')" by (simp add: decimal_digit_def)
  then show ?thesis
    using nat_text_digits frac_text_digits
    by (intro exI [of _ "if n < 0 then ''-'' else []"])
      (auto simp: print_scaled_def numeral_text_def point_text_def frac_digits_def sign_text_def sign_of_def)
qed

lemma parse_print_scaled:
  assumes "i64 n"
  shows "parse_scaled decimal_digit (print_scaled d z n) (int d) = Inr n"
proof -
  let ?a = "nat \<bar>n\<bar> div 10 ^ d" and ?b = "nat \<bar>n\<bar> mod 10 ^ d"
  let ?fs = "frac_text d ?b @ replicate z (CHR ''0'')"
  obtain sg where sg: "print_scaled d z n = sg @ nat_text ?a @ point_text (Some ?fs)"
    "numeral_text sg (nat_text ?a) (Some ?fs)" "sign_of sg * \<bar>n\<bar> = n" using print_scaled_numeral by blast
  have dig: "\<forall>c \<in> set ?fs. decimal_digit c" using sg(2) by (simp add: numeral_text_def frac_digits_def)
  have "scaled_value d (nat_text ?a) ?fs = int ?a * 10 ^ d + int ?b"
    using scaled_value_take [OF dig] by (simp add: nat_text_value frac_text_value)
  also have "\<dots> = int (nat \<bar>n\<bar>)"
    using arg_cong [OF div_mult_mod_eq [of "nat \<bar>n\<bar>" "10 ^ d"], of int]
    unfolding of_nat_add of_nat_mult of_nat_power of_nat_numeral .
  also have "\<dots> = \<bar>n\<bar>" by simp
  finally have "sign_of sg * scaled_value d (nat_text ?a) ?fs = n" using sg(3) by simp
  with numeral_unsigned [OF sg(2), of d] assms show ?thesis
    by (simp add: sg(1) frac_digits_def wrap64_id)
qed

section \<open>Results fit the type\<close>

lemma shift_in_i64: "i64 (shift_in v c)"
  unfolding shift_in_def by (rule wrap64_range)

text \<open>What \<open>shift_in\<close> establishes holds of the value after the loops.\<close>

lemma integer_part_keeps:
  "integer_part isd cs v b = Inr (v', b', rest) \<Longrightarrow> (\<And>w c. P (shift_in w c)) \<Longrightarrow> P v \<Longrightarrow> P v'"
  by (induction isd cs v b rule: integer_part.induct) (auto split: if_splits)

lemma fraction_part_keeps:
  "fraction_part isd d cs k v b = Inr (k', v', b', rest) \<Longrightarrow> (\<And>w c. P (shift_in w c)) \<Longrightarrow> P v \<Longrightarrow> P v'"
  by (induction isd d cs k v b rule: fraction_part.induct) (auto split: if_splits)

lemmas integer_part_i64 = integer_part_keeps [of _ _ _ _ _ _ _ i64, OF _ shift_in_i64]
lemmas fraction_part_i64 = fraction_part_keeps [of _ _ _ _ _ _ _ _ _ _ i64, OF _ shift_in_i64]

lemma pad_zeros_i64: "i64 v \<Longrightarrow> i64 (pad_zeros k d v)"
proof (induction k d v rule: pad_zeros.induct)
  case (1 k d v)
  then show ?case using wrap64_range [of "v * 10"] by (subst (1 2) pad_zeros.simps) simp
qed

lemma parse_unsigned_i64:
  assumes "parse_unsigned isd negative cs d = Inr v"
  shows "i64 v"
proof -
  from assms obtain u b rest where ip: "integer_part isd cs 0 False = Inr (u, b, rest)"
    unfolding parse_unsigned_def attempt_eq_Inr by auto
  then have u: "i64 u" by (rule integer_part_i64) simp
  from assms ip obtain k w where w: "i64 w" "v = (if negative then wrap64 (- pad_zeros k d w) else pad_zeros k d w)"
  proof (cases rest)
    case Nil
    with assms ip u show thesis by (intro that [of u 0]) (auto simp: parse_unsigned_def Let_def split: if_splits)
  next
    case (Cons c cs')
    with assms ip obtain k w b' t where f: "fraction_part isd d cs' 0 u b = Inr (k, w, b', t)"
      "v = (if negative then wrap64 (- pad_zeros k d w) else pad_zeros k d w)"
      unfolding parse_unsigned_def by (auto simp: attempt_eq_Inr Let_def split: if_splits)
    from fraction_part_i64 [OF f(1) u] f(2) show thesis by (rule that)
  qed
  then show ?thesis using pad_zeros_i64 [OF w(1)] wrap64_range by simp
qed

lemma parse_scaled_i64: "parse_scaled isd cs d = Inr v \<Longrightarrow> i64 v"
  using parse_unsigned_i64 by (fastforce simp: parse_scaled_def split: if_splits list.splits)

section \<open>Properties\<close>

text \<open>
  C28: the value of a decimal numeral. With or without a sign, integer digits, a point and fraction
  digits (at least one digit among those that count), \<open>parse_scaled\<close> returns the exact decimal times
  \<open>10 ^ d\<close>, truncated towards zero, reduced to 64 bits; it is the exact value whenever that fits.
\<close>

theorem parse_scaled_value:
  assumes "digit_test isd" "numeral_text sg ds frac" "ds \<noteq> [] \<or> take d (frac_digits frac) \<noteq> []"
  shows "parse_scaled isd (sg @ ds @ point_text frac) (int d) =
      Inr (wrap64 (sign_of sg * (digits_val 0 (ds @ frac_digits frac) * 10 ^ d div 10 ^ length (frac_digits frac)))) \<and>
    (digits_val 0 (ds @ frac_digits frac) * 10 ^ d div 10 ^ length (frac_digits frac) < 2 ^ 63 \<longrightarrow>
      parse_scaled isd (sg @ ds @ point_text frac) (int d) =
      Inr (sign_of sg * (digits_val 0 (ds @ frac_digits frac) * 10 ^ d div 10 ^ length (frac_digits frac))))"
proof -
  let ?m = "digits_val 0 (ds @ frac_digits frac) * 10 ^ d div 10 ^ length (frac_digits frac)"
  have ne: "sg @ ds @ point_text frac \<noteq> []"
    using assms(3) by (auto simp: frac_digits_def point_text_def split: option.splits)
  have p: "parse_scaled isd (sg @ ds @ point_text frac) (int d) = Inr (wrap64 (sign_of sg * ?m))"
    using numeral_unsigned [OF assms(2) ne, of d] assms(1,3) by (auto simp: scaled_value_def digit_test_iff)
  have "0 \<le> ?m"
    using assms(2) digits_val_bounds [of "ds @ frac_digits frac"]
    by (simp add: numeral_text_def pos_imp_zdiv_nonneg_iff del: digits_val_simps)
  then have "?m < 2 ^ 63 \<Longrightarrow> wrap64 (sign_of sg * ?m) = sign_of sg * ?m"
    by (intro wrap64_id) (auto simp: sign_of_def)
  with p show ?thesis by simp
qed

theorem parse_scaled_value_witness:
  "parse_scaled decimal_digit ''-153.459'' 2 = Inr (-15345)"
proof -
  have n: "numeral_text ''-'' ''153'' (Some ''459'')" by code_simp
  have e: "digits_val 0 (''153'' @ frac_digits (Some ''459'')) * 10 ^ 2 div 10 ^ length (frac_digits (Some ''459'')) = 15345"
    by code_simp
  have d: "digit_test decimal_digit" by (simp add: digit_test_def)
  have "parse_scaled decimal_digit (''-'' @ ''153'' @ point_text (Some ''459'')) (int 2) = Inr (sign_of ''-'' * 15345)"
    using parse_scaled_value [OF d n, of 2] unfolding e by (simp add: sign_of_def wrap64_id)
  then show ?thesis by (simp add: point_text_def sign_of_def)
qed

text \<open>
  C29: exactly the numerals are accepted: \<open>parse_scaled\<close> returns a number if and only if the precision
  is not negative and the text is an optional sign, digits, and optionally a point and digits, with
  at least one digit before the point or among the first \<open>decimals\<close> after it.
\<close>

theorem parse_scaled_accepts:
  assumes "digit_test isd"
  shows "(\<exists>v. parse_scaled isd text decimals = Inr v) \<longleftrightarrow>
    0 \<le> decimals \<and> (\<exists>sg ds frac. text = sg @ ds @ point_text frac \<and> numeral_text sg ds frac \<and>
      (ds \<noteq> [] \<or> take (nat decimals) (frac_digits frac) \<noteq> []))"
proof
  assume "\<exists>v. parse_scaled isd text decimals = Inr v"
  then obtain v where v: "parse_scaled decimal_digit text decimals = Inr v" using assms by (auto simp: digit_test_iff)
  then have d: "0 \<le> decimals" and ne: "text \<noteq> []" by (auto simp: parse_scaled_def split: if_splits)
  then obtain c cs where ccs: "text = c # cs" by (cases "text") auto
  obtain sg rest neg where s: "text = sg @ rest" "sign_text sg" "parse_unsigned decimal_digit neg rest decimals = Inr v"
  proof (cases "c = CHR ''+'' \<or> c = CHR ''-''")
    case True
    with v ccs d show thesis by (intro that [of "[c]" cs]) (auto simp: parse_scaled_def sign_text_def)
  next
    case False
    with v ccs d show thesis by (intro that [of "[]" "text"]) (auto simp: parse_scaled_def sign_text_def)
  qed
  from parse_unsigned_sound [OF s(3)] obtain ds frac where
    f: "rest = ds @ point_text frac" "\<forall>c \<in> set (ds @ frac_digits frac). decimal_digit c" by blast
  then have n: "numeral_text sg ds frac" using s(2) by (simp add: numeral_text_def)
  have t: "text = sg @ ds @ point_text frac" using s(1) f(1) by simp
  with ne have "sg @ ds @ point_text frac \<noteq> []" by simp
  from numeral_unsigned [OF n this, of "nat decimals"] v t d
  have "ds \<noteq> [] \<or> take (nat decimals) (frac_digits frac) \<noteq> []" by (auto split: if_splits)
  with n t d show "0 \<le> decimals \<and> (\<exists>sg ds frac. text = sg @ ds @ point_text frac \<and> numeral_text sg ds frac \<and>
      (ds \<noteq> [] \<or> take (nat decimals) (frac_digits frac) \<noteq> []))" by blast
next
  assume "0 \<le> decimals \<and> (\<exists>sg ds frac. text = sg @ ds @ point_text frac \<and> numeral_text sg ds frac \<and>
      (ds \<noteq> [] \<or> take (nat decimals) (frac_digits frac) \<noteq> []))"
  then obtain sg ds frac where d: "0 \<le> decimals" and t: "text = sg @ ds @ point_text frac"
    and n: "numeral_text sg ds frac" and c: "ds \<noteq> [] \<or> take (nat decimals) (frac_digits frac) \<noteq> []" by blast
  have "sg @ ds @ point_text frac \<noteq> []"
    using c by (auto simp: frac_digits_def point_text_def split: option.splits)
  from numeral_unsigned [OF n this, of "nat decimals"] c d t assms
  show "\<exists>v. parse_scaled isd text decimals = Inr v" by (auto simp: digit_test_iff)
qed

theorem parse_scaled_accepts_witness: "\<exists>v. parse_scaled decimal_digit ''+.5'' 1 = Inr v"
proof -
  have d: "digit_test decimal_digit" by (simp add: digit_test_def)
  have "numeral_text ''+'' [] (Some ''5'')" by code_simp
  moreover have "''+.5'' = ''+'' @ [] @ point_text (Some ''5'')" by (simp add: point_text_def)
  moreover have "take (nat 1) (frac_digits (Some ''5'')) \<noteq> []" by (simp add: frac_digits_def)
  ultimately show ?thesis using parse_scaled_accepts [OF d, of "''+.5''" 1] by (metis zero_le_one)
qed

text \<open>
  Round trip. Every 64-bit scaled integer, printed as a decimal with \<open>d\<close> fractional digits and
  any number of extra zeros (the form of the feed), is read back exactly.
\<close>

theorem parse_scaled_roundtrip:
  assumes "digit_test isd" "- (2 ^ 63) \<le> n" "n < 2 ^ 63"
  shows "parse_scaled isd (print_scaled d z n) (int d) = Inr n"
  using parse_print_scaled [of n d z] assms by (simp add: digit_test_iff)

theorem parse_scaled_roundtrip_witness:
  "print_scaled 2 6 15345 = ''153.45000000'' \<and> parse_scaled decimal_digit (print_scaled 2 6 15345) (int 2) = Inr 15345"
proof
  show "print_scaled 2 6 15345 = ''153.45000000''"
  proof -
    have "nat_text 153 = ''153''" by (simp add: nat_text.simps digit_char_def)
    moreover have "frac_text 2 45 = ''45''" by (simp add: numeral_2_eq_2 digit_char_def)
    moreover have "replicate 6 (CHR ''0'') = ''000000''" by code_simp
    ultimately show ?thesis by (simp add: print_scaled_def)
  qed
  show "parse_scaled decimal_digit (print_scaled 2 6 15345) (int 2) = Inr 15345"
    by (rule parse_scaled_roundtrip) (simp_all add: digit_test_def)
qed

end
