(* ===== verification/Depth_Properties.thy ===== *)
theory Depth_Properties
  imports Binance_Depth Decimal_Properties
begin

text \<open>
  What the depth parser accepts and returns, in terms of what the JSON reader reads: exactly the
  arrays of pairs of numeral strings, level for level; and captures, line for line.
\<close>

section \<open>Levels\<close>

text \<open>The reader finds a pair of strings; an array of such pairs.\<close>

definition reads_pair :: "('d, 'v, 'e) simdjson \<Rightarrow> 'e + 'v \<Rightarrow> string \<times> string \<Rightarrow> bool" where
  "reads_pair sj r pq \<longleftrightarrow> (\<exists>w f g. r = Inr w \<and> get_array sj w = Inr [Inr f, Inr g] \<and>
     get_string sj f = Inr (fst pq) \<and> get_string sj g = Inr (snd pq))"

definition reads_pairs :: "('d, 'v, 'e) simdjson \<Rightarrow> 'v \<Rightarrow> (string \<times> string) list \<Rightarrow> bool" where
  "reads_pairs sj v pqs \<longleftrightarrow> (\<exists>rs. get_array sj v = Inr rs \<and> list_all2 (reads_pair sj) rs pqs)"

text \<open>The level a pair of numerals stands for.\<close>

definition level_of :: "(char \<Rightarrow> bool) \<Rightarrow> int \<Rightarrow> int \<Rightarrow> string \<times> string \<Rightarrow> price_level \<Rightarrow> bool" where
  "level_of isd pd qd pq l \<longleftrightarrow> (\<exists>p q. parse_scaled isd (fst pq) pd = Inr p \<and> parse_scaled isd (snd pq) qd = Inr q \<and>
     l = \<lparr>pl_price = word_of_int p, pl_volume = q\<rparr>)"

definition raw_of :: "string \<times> string \<Rightarrow> raw_level" where
  "raw_of pq = \<lparr>raw_price = fst pq, raw_qty = snd pq\<rparr>"

lemma read_fields_count: "read_fields sj rs (a, b) n = Inr (c, d, m) \<Longrightarrow> m = n + length rs"
proof (induction rs arbitrary: a b n)
  case (Cons r rs)
  then obtain a' b' where "read_fields sj rs (a', b') (n + 1) = Inr (c, d, m)" by (auto simp: attempt_eq_Inr)
  with Cons.IH [OF this] show ?case by simp
qed simp

lemma read_fields_pair:
  "read_fields sj rs ([], []) 0 = Inr (price, qty, 2) \<longleftrightarrow> reads_pair sj (Inr w) (price, qty)"
  if "get_array sj w = Inr rs"
proof
  assume r: "read_fields sj rs ([], []) 0 = Inr (price, qty, 2)"
  then have "length rs = 2" using read_fields_count by fastforce
  then obtain x y where "rs = [x, y]" by (auto simp: length_Suc_conv numeral_2_eq_2)
  with r that show "reads_pair sj (Inr w) (price, qty)"
    by (cases x; cases y) (auto simp: reads_pair_def attempt_eq_Inr)
next
  assume "reads_pair sj (Inr w) (price, qty)"
  with that show "read_fields sj rs ([], []) 0 = Inr (price, qty, 2)"
    by (auto simp: reads_pair_def)
qed

lemma collect_raw_step:
  "collect_raw sj (r # rs) raw = Inr raws \<longleftrightarrow>
    (\<exists>pq. reads_pair sj r pq \<and> collect_raw sj rs (raw @ [raw_of pq]) = Inr raws)"
proof (cases r)
  case r: (Inr w)
  show ?thesis
  proof (cases "get_array sj w")
    case (Inr fs)
    have "collect_raw sj (r # rs) raw = Inr raws \<longleftrightarrow>
        (\<exists>price qty. read_fields sj fs ([], []) 0 = Inr (price, qty, 2) \<and>
          collect_raw sj rs (raw @ [raw_of (price, qty)]) = Inr raws)"
      using r Inr by (auto simp: attempt_eq_Inr raw_of_def split: if_splits)
    then show ?thesis unfolding r read_fields_pair [OF Inr] by auto
  qed (use r in \<open>auto simp: reads_pair_def\<close>)
qed (auto simp: reads_pair_def)

lemma ex_Cons_map:
  "(\<exists>ys. list_all2 P (x # xs) ys \<and> zs = ws @ map f ys) \<longleftrightarrow>
    (\<exists>y. P x y \<and> (\<exists>ys. list_all2 P xs ys \<and> zs = (ws @ [f y]) @ map f ys))"
  unfolding list_all2_Cons1 by (metis append.assoc append_Cons append_Nil list.simps(9))

lemma collect_raw_iff:
  "collect_raw sj rs raw = Inr raws \<longleftrightarrow> (\<exists>pqs. list_all2 (reads_pair sj) rs pqs \<and> raws = raw @ map raw_of pqs)"
proof (induction rs arbitrary: raw)
  case (Cons r rs)
  show ?case unfolding collect_raw_step Cons.IH ex_Cons_map ..
qed auto

lemma scale_levels_iff:
  "scale_levels isd pd qd (map raw_of pqs) levels = Inr ls \<longleftrightarrow>
    (\<exists>ls'. list_all2 (level_of isd pd qd) pqs ls' \<and> ls = levels @ map (\<lambda>l. l) ls')"
proof (induction pqs arbitrary: levels)
  case (Cons pq pqs)
  have "scale_levels isd pd qd (map raw_of (pq # pqs)) levels = Inr ls \<longleftrightarrow>
      (\<exists>l. level_of isd pd qd pq l \<and> scale_levels isd pd qd (map raw_of pqs) (levels @ [l]) = Inr ls)"
    by (auto simp: attempt_eq_Inr level_of_def raw_of_def)
  then show ?case unfolding Cons.IH ex_Cons_map .
qed auto

lemma parse_levels_iff:
  "parse_levels sj v pd qd = Inr ls \<longleftrightarrow>
    (\<exists>pqs. reads_pairs sj v pqs \<and> list_all2 (level_of (is_digit sj) pd qd) pqs ls)"
proof -
  have "parse_levels sj v pd qd = Inr ls \<longleftrightarrow>
      (\<exists>rs pqs. get_array sj v = Inr rs \<and> list_all2 (reads_pair sj) rs pqs \<and>
        scale_levels (is_digit sj) pd qd (map raw_of pqs) [] = Inr ls)"
    unfolding parse_levels_def attempt_eq_Inr checked_eq_Inr collect_raw_iff by auto
  then show ?thesis by (auto simp: scale_levels_iff reads_pairs_def)
qed

text \<open>A document whose field \<open>key\<close> is read as the given levels.\<close>

definition reads_side :: "('d, 'v, 'e) simdjson \<Rightarrow> 'd \<Rightarrow> int \<Rightarrow> int \<Rightarrow> string \<Rightarrow> price_level list \<Rightarrow> bool" where
  "reads_side sj doc pd qd key ls \<longleftrightarrow> (\<exists>v pqs. field_of sj doc key = Inr v \<and> reads_pairs sj v pqs \<and>
     list_all2 (level_of (is_digit sj) pd qd) pqs ls)"

lemma parse_sides_iff:
  "parse_sides sj doc bk ak pd qd = Inr (bs, as) \<longleftrightarrow> reads_side sj doc pd qd bk bs \<and> reads_side sj doc pd qd ak as"
  unfolding parse_sides_def attempt_eq_Inr reads_side_def
  by (auto simp: parse_levels_iff split: sum.splits)

lemma depth_update_iff:
  "parse_binance_depth_update sj json pd qd = Inr u \<longleftrightarrow>
    (\<exists>doc. iterate sj json = Inr doc \<and> reads_side sj doc pd qd ''b'' (upd_bids u) \<and> reads_side sj doc pd qd ''a'' (upd_asks u) \<and>
      eventTime u = scalar_field sj doc ''E'' \<and> firstUpdateId u = scalar_field sj doc ''U'' \<and>
      finalUpdateId u = scalar_field sj doc ''u'')"
  unfolding parse_binance_depth_update_def attempt_eq_Inr checked_eq_Inr
  by (cases u) (auto simp: parse_sides_iff)

lemma depth_snapshot_iff:
  "parse_binance_depth sj json pd qd = Inr s \<longleftrightarrow>
    (\<exists>doc. iterate sj json = Inr doc \<and> reads_side sj doc pd qd ''bids'' (snap_bids s) \<and>
      reads_side sj doc pd qd ''asks'' (snap_asks s) \<and> lastUpdateId s = scalar_field sj doc ''lastUpdateId'')"
  unfolding parse_binance_depth_def attempt_eq_Inr checked_eq_Inr
  by (cases s) (auto simp: parse_sides_iff)

section \<open>Lines\<close>

text \<open>The lines of a text: the pieces between newlines.\<close>

fun split_lines :: "string \<Rightarrow> string list" where
  "split_lines [] = [[]]"
| "split_lines (c # cs) = (if c = newline then [] # split_lines cs
     else (case split_lines cs of [] \<Rightarrow> [[c]] | l # ls \<Rightarrow> (c # l) # ls))"

lemma split_lines_find:
  "split_lines s = (case find_char newline s of None \<Rightarrow> [s] | Some k \<Rightarrow> take k s # split_lines (drop (Suc k) s))"
  by (induction s) (auto split: option.splits)

fun line_loop ::
  "('d, 'v, 'e) simdjson \<Rightarrow> (string \<Rightarrow> nat \<Rightarrow> string \<Rightarrow> string) \<Rightarrow> int \<Rightarrow> int \<Rightarrow> nat \<Rightarrow> string list \<Rightarrow>
     depth_update list \<Rightarrow> string + depth_update list"
where
  "line_loop sj fmt pd qd n [] us = Inr us"
| "line_loop sj fmt pd qd n (l # ls) us =
     attempt (depth_line sj fmt pd qd (n + 1) l us) (\<lambda>us'. line_loop sj fmt pd qd (n + 1) ls us')"

lemma line_loop_Nil: "line_loop sj fmt pd qd n [] = Inr"
  by auto

lemma attempt_Inr: "attempt m Inr = m"
  by (cases m) simp_all

text \<open>The loop over positions is the loop over the lines.\<close>

lemma depth_lines_split:
  assumes "pos \<le> length s"
  shows "depth_lines sj fmt pd qd s pos n us = line_loop sj fmt pd qd n (split_lines (drop pos s)) us"
  using assms
proof (induction sj fmt pd qd s pos n us rule: depth_lines.induct)
  case (1 sj fmt pd qd s pos n us)
  show ?case
  proof (cases "find_char newline (drop pos s)")
    case None
    with 1(2) show ?thesis
      by (subst depth_lines.simps, subst split_lines_find) (simp add: find_from_def attempt_Inr line_loop_Nil)
  next
    case (Some k)
    then have f: "find_from newline s pos = Some (pos + k)" by (simp add: find_from_def)
    with find_from_bounds have k: "pos + k < length s" by blast
    have IH: "depth_lines sj fmt pd qd s (pos + k + 1) (n + 1) us' =
        line_loop sj fmt pd qd (n + 1) (split_lines (drop (pos + k + 1) s)) us'" for us'
      using k 1(2) f by (intro 1(1)) auto
    show ?thesis
      using 1(2) f Some k IH
      by (subst depth_lines.simps, subst split_lines_find) (simp add: add.commute add.left_commute)
  qed
qed

lemma line_loop_Inr:
  "line_loop sj fmt pd qd n ls us = Inr vs \<longleftrightarrow>
    (\<exists>ws. vs = us @ ws \<and> map (\<lambda>l. parse_binance_depth_update sj l pd qd) (filter (\<lambda>l. \<not> blank l) (map trim_cr ls)) = map Inr ws)"
proof (induction ls arbitrary: n us)
  case (Cons l ls)
  show ?case
  proof (cases "blank (trim_cr l)")
    case True
    with Cons show ?thesis by (simp add: depth_line_def)
  next
    case False
    with Cons show ?thesis
      by (cases "parse_binance_depth_update sj (trim_cr l) pd qd") (auto simp: depth_line_def Cons_eq_map_conv)
  qed
qed auto

lemma line_loop_Inl:
  "line_loop sj fmt pd qd n ls us = Inl e \<longleftrightarrow>
    (\<exists>k err. k < length ls \<and> \<not> blank (trim_cr (ls ! k)) \<and> parse_binance_depth_update sj (trim_cr (ls ! k)) pd qd = Inl err \<and>
      e = fmt ''line {}: '' (n + k + 1) err \<and>
      (\<forall>j < k. blank (trim_cr (ls ! j)) \<or> (\<exists>u. parse_binance_depth_update sj (trim_cr (ls ! j)) pd qd = Inr u)))"
proof (induction ls arbitrary: n us)
  case (Cons l ls)
  have ex: "(\<exists>k. P k) \<longleftrightarrow> P 0 \<or> (\<exists>k. P (Suc k))" for P :: "nat \<Rightarrow> bool" by (metis not0_implies_Suc)
  show ?case
  proof (cases "blank (trim_cr l) \<or> (\<exists>u. parse_binance_depth_update sj (trim_cr l) pd qd = Inr u)")
    case True
    then obtain us' where "depth_line sj fmt pd qd (n + 1) l us = Inr us'"
      by (cases "blank (trim_cr l)") (auto simp: depth_line_def)
    with Cons [of "n + 1" us'] True show ?thesis
      by (subst ex) (auto simp: All_less_Suc2)
  next
    case False
    then obtain err where "\<not> blank (trim_cr l)" "parse_binance_depth_update sj (trim_cr l) pd qd = Inl err"
      by (cases "parse_binance_depth_update sj (trim_cr l) pd qd") auto
    then show ?thesis
      by (subst ex) (auto simp: depth_line_def All_less_Suc2)
  qed
qed simp

section \<open>A reader of JSON trees\<close>

text \<open>
  An instance of the parameter for the witnesses: documents are JSON trees, and the texts of a
  finite table are the well-formed ones.
\<close>

datatype json = J_Number "64 word" | J_String string | J_Array "json list" | J_Object "(string \<times> json) list"

definition tree_reader :: "(string \<times> json) list \<Rightarrow> (json, json, string) simdjson" where
  "tree_reader docs = \<lparr>
     iterate = (\<lambda>t. case map_of docs t of None \<Rightarrow> Inl ''malformed'' | Some j \<Rightarrow> Inr j),
     field_of = (\<lambda>j k. case j of
         J_Object fs \<Rightarrow> (case map_of fs k of None \<Rightarrow> Inl ''no such field'' | Some v \<Rightarrow> Inr v)
       | _ \<Rightarrow> Inl ''not an object''),
     get_array = (\<lambda>j. case j of J_Array js \<Rightarrow> Inr (map Inr js) | _ \<Rightarrow> Inl ''incorrect type''),
     get_string = (\<lambda>j. case j of J_String s \<Rightarrow> Inr s | _ \<Rightarrow> Inl ''incorrect type''),
     get_uint64 = (\<lambda>j. case j of J_Number n \<Rightarrow> Inr n | _ \<Rightarrow> Inl ''incorrect type''),
     error_message = (\<lambda>e. e),
     is_digit = decimal_digit\<rparr>"

text \<open>The document of an update with the given levels, as the exchange prints them.\<close>

definition level_json :: "nat \<Rightarrow> nat \<Rightarrow> int \<times> int \<Rightarrow> json" where
  "level_json pd qd l = J_Array [J_String (print_scaled pd 6 (fst l)), J_String (print_scaled qd 6 (snd l))]"

definition update_json :: "nat \<Rightarrow> nat \<Rightarrow> 64 word \<Rightarrow> (int \<times> int) list \<Rightarrow> (int \<times> int) list \<Rightarrow> json" where
  "update_json pd qd u bids asks = J_Object [(''e'', J_String ''depthUpdate''), (''E'', J_Number 1700000000), (''U'', J_Number u),
     (''u'', J_Number (u + 5)), (''b'', J_Array (map (level_json pd qd) bids)), (''a'', J_Array (map (level_json pd qd) asks))]"

lemma tree_reads_pairs:
  "reads_pairs (tree_reader docs) (J_Array (map (level_json pd qd) ls))
     (map (\<lambda>l. (print_scaled pd 6 (fst l), print_scaled qd 6 (snd l))) ls)"
  by (simp add: reads_pairs_def list_all2_conv_all_nth reads_pair_def level_json_def tree_reader_def)

section \<open>Properties of the parser\<close>

text \<open>The level of an integral price and volume.\<close>

definition plain_level :: "int \<times> int \<Rightarrow> price_level" where
  "plain_level l = \<lparr>pl_price = word_of_int (fst l), pl_volume = snd l\<rparr>"

lemma printed_levels:
  assumes "digit_test (is_digit sj)" "\<forall>l \<in> set ls. i64 (fst l) \<and> i64 (snd l)"
  shows "list_all2 (level_of (is_digit sj) (int pd) (int qd))
    (map (\<lambda>l. (print_scaled pd zp (fst l), print_scaled qd zq (snd l))) ls) (map plain_level ls)"
proof -
  have d: "is_digit sj = decimal_digit" using assms(1) by (simp add: digit_test_iff)
  have "level_of (is_digit sj) (int pd) (int qd)
      (print_scaled pd zp (fst (ls ! i)), print_scaled qd zq (snd (ls ! i))) (plain_level (ls ! i))" if "i < length ls" for i
    using that assms(2) by (simp add: level_of_def d parse_print_scaled plain_level_def)
  then show ?thesis by (simp add: list_all2_conv_all_nth)
qed

text \<open>Well-formed documents of the reader of trees are parsed.\<close>

lemma tree_side:
  assumes "map_of fs k = Some (J_Array (map (level_json pd qd) ls))" "\<forall>l \<in> set ls. i64 (fst l) \<and> i64 (snd l)"
  shows "reads_side (tree_reader docs) (J_Object fs) (int pd) (int qd) k (map plain_level ls)"
proof -
  have dig: "digit_test (is_digit (tree_reader docs))" by (simp add: tree_reader_def digit_test_def)
  have "field_of (tree_reader docs) (J_Object fs) k = Inr (J_Array (map (level_json pd qd) ls))"
    using assms(1) by (simp add: tree_reader_def)
  then show ?thesis
    using tree_reads_pairs printed_levels [OF dig assms(2)] unfolding reads_side_def by blast
qed

lemma tree_update_levels:
  assumes "map_of docs t = Some (update_json pd qd n bs as)" "\<forall>l \<in> set bs. i64 (fst l) \<and> i64 (snd l)"
    and "\<forall>l \<in> set as. i64 (fst l) \<and> i64 (snd l)"
  shows "\<exists>u. parse_binance_depth_update (tree_reader docs) t (int pd) (int qd) = Inr u \<and> firstUpdateId u = n \<and>
    upd_bids u = map plain_level bs \<and> upd_asks u = map plain_level as"
proof -
  let ?sj = "tree_reader docs" and ?j = "update_json pd qd n bs as"
  have "iterate ?sj t = Inr ?j" "scalar_field ?sj ?j ''U'' = n"
    using assms(1) by (simp_all add: tree_reader_def update_json_def scalar_field_def)
  moreover have "reads_side ?sj ?j (int pd) (int qd) ''b'' (map plain_level bs)"
    "reads_side ?sj ?j (int pd) (int qd) ''a'' (map plain_level as)"
    unfolding update_json_def using assms(2,3) by (simp_all add: tree_side)
  ultimately show ?thesis unfolding depth_update_iff
    by (intro exI [of _ "\<lparr>eventTime = scalar_field ?sj ?j ''E'', firstUpdateId = n, finalUpdateId = scalar_field ?sj ?j ''u'',
      upd_bids = map plain_level bs, upd_asks = map plain_level as\<rparr>"]) simp
qed

lemma tree_update_parses:
  assumes "map_of docs t = Some (update_json pd qd n bs as)" "\<forall>l \<in> set bs. i64 (fst l) \<and> i64 (snd l)"
    and "\<forall>l \<in> set as. i64 (fst l) \<and> i64 (snd l)"
  shows "\<exists>u. parse_binance_depth_update (tree_reader docs) t (int pd) (int qd) = Inr u \<and> firstUpdateId u = n"
  using tree_update_levels [OF assms] by blast

definition snapshot_json :: "nat \<Rightarrow> nat \<Rightarrow> 64 word \<Rightarrow> (int \<times> int) list \<Rightarrow> (int \<times> int) list \<Rightarrow> json" where
  "snapshot_json pd qd n bids asks = J_Object [(''lastUpdateId'', J_Number n),
     (''bids'', J_Array (map (level_json pd qd) bids)), (''asks'', J_Array (map (level_json pd qd) asks))]"

lemma tree_snapshot_parses:
  assumes "map_of docs t = Some (snapshot_json pd qd n bs as)" "\<forall>l \<in> set bs. i64 (fst l) \<and> i64 (snd l)"
    and "\<forall>l \<in> set as. i64 (fst l) \<and> i64 (snd l)"
  shows "parse_binance_depth (tree_reader docs) t (int pd) (int qd) =
    Inr \<lparr>lastUpdateId = n, snap_bids = map plain_level bs, snap_asks = map plain_level as\<rparr>"
proof -
  let ?sj = "tree_reader docs" and ?j = "snapshot_json pd qd n bs as"
  have "iterate ?sj t = Inr ?j" "scalar_field ?sj ?j ''lastUpdateId'' = n"
    using assms(1) by (simp_all add: tree_reader_def snapshot_json_def scalar_field_def)
  moreover have "reads_side ?sj ?j (int pd) (int qd) ''bids'' (map plain_level bs)"
    "reads_side ?sj ?j (int pd) (int qd) ''asks'' (map plain_level as)"
    unfolding snapshot_json_def using assms(2,3) by (simp_all add: tree_side)
  ultimately show ?thesis unfolding depth_snapshot_iff by simp
qed

text \<open>
  C30: what the depth parser accepts, exactly. A \<open>depthUpdate\<close> frame (a snapshot) parses to \<open>u\<close> if and
  only if the reader accepts the text and reads both sides as arrays of pairs of strings, each string
  a numeral for the given precision, and \<open>u\<close> has those levels in order with the scaled prices and
  sizes, and the ids the document carries (0 where absent or mistyped).
\<close>

theorem depth_parse_exact:
  "(parse_binance_depth_update sj json pd qd = Inr u \<longleftrightarrow>
     (\<exists>doc. iterate sj json = Inr doc \<and> reads_side sj doc pd qd ''b'' (upd_bids u) \<and>
       reads_side sj doc pd qd ''a'' (upd_asks u) \<and> eventTime u = scalar_field sj doc ''E'' \<and>
       firstUpdateId u = scalar_field sj doc ''U'' \<and> finalUpdateId u = scalar_field sj doc ''u'')) \<and>
   (parse_binance_depth sj json pd qd = Inr s \<longleftrightarrow>
     (\<exists>doc. iterate sj json = Inr doc \<and> reads_side sj doc pd qd ''bids'' (snap_bids s) \<and>
       reads_side sj doc pd qd ''asks'' (snap_asks s) \<and> lastUpdateId s = scalar_field sj doc ''lastUpdateId''))"
  using depth_update_iff depth_snapshot_iff by blast

lemma reads_side_i64: "reads_side sj doc pd qd key ls \<Longrightarrow> \<forall>l \<in> set ls. i64 (pl_volume l)"
proof
  fix l
  assume "reads_side sj doc pd qd key ls" "l \<in> set ls"
  then obtain pq where "level_of (is_digit sj) pd qd pq l"
    unfolding reads_side_def by (metis in_set_conv_nth list_all2_conv_all_nth)
  then show "i64 (pl_volume l)" using parse_scaled_i64 unfolding level_of_def by fastforce
qed

text \<open>
  C31: a frame as the exchange prints it is read back level for level. When the sides are read as
  pairs of decimals printed from 64-bit scaled prices and sizes, the update has exactly those
  levels in order.
\<close>

theorem depth_update_decodes:
  assumes "digit_test (is_digit sj)" "iterate sj json = Inr doc"
    and "field_of sj doc ''b'' = Inr bv" "field_of sj doc ''a'' = Inr av"
    and "reads_pairs sj bv (map (\<lambda>l. (print_scaled pd zp (fst l), print_scaled qd zq (snd l))) bids)"
    and "reads_pairs sj av (map (\<lambda>l. (print_scaled pd zp (fst l), print_scaled qd zq (snd l))) asks)"
    and "\<forall>l \<in> set (bids @ asks). i64 (fst l) \<and> i64 (snd l)"
  shows "parse_binance_depth_update sj json (int pd) (int qd) =
    Inr \<lparr>eventTime = scalar_field sj doc ''E'', firstUpdateId = scalar_field sj doc ''U'',
      finalUpdateId = scalar_field sj doc ''u'', upd_bids = map plain_level bids, upd_asks = map plain_level asks\<rparr>"
proof -
  have range: "\<forall>l \<in> set bids. i64 (fst l) \<and> i64 (snd l)" "\<forall>l \<in> set asks. i64 (fst l) \<and> i64 (snd l)"
    using assms(7) by simp_all
  have "reads_side sj doc (int pd) (int qd) ''b'' (map plain_level bids)"
    unfolding reads_side_def using assms(3,5) printed_levels [OF assms(1) range(1)] by blast
  moreover have "reads_side sj doc (int pd) (int qd) ''a'' (map plain_level asks)"
    unfolding reads_side_def using assms(4,6) printed_levels [OF assms(1) range(2)] by blast
  ultimately have "reads_side sj doc (int pd) (int qd) ''b'' (map plain_level bids)"
    "reads_side sj doc (int pd) (int qd) ''a'' (map plain_level asks)" .
  with assms(2) show ?thesis by (simp add: depth_update_iff)
qed

definition sample_update :: json where
  "sample_update = update_json 2 2 7 [(15345, 250), (15340, 0)] [(15350, 1000)]"

theorem depth_update_decodes_witness:
  "parse_binance_depth_update (tree_reader [(''{frame}'', sample_update)]) ''{frame}'' (int 2) (int 2) =
    Inr \<lparr>eventTime = 1700000000, firstUpdateId = 7, finalUpdateId = 12,
      upd_bids = [\<lparr>pl_price = 15345, pl_volume = 250\<rparr>, \<lparr>pl_price = 15340, pl_volume = 0\<rparr>],
      upd_asks = [\<lparr>pl_price = 15350, pl_volume = 1000\<rparr>]\<rparr>"
proof -
  let ?sj = "tree_reader [(''{frame}'', sample_update)]"
  have r: "digit_test (is_digit ?sj)" "iterate ?sj ''{frame}'' = Inr sample_update"
    by (simp_all add: tree_reader_def digit_test_def)
  have f: "field_of ?sj sample_update ''b'' = Inr (J_Array (map (level_json 2 2) [(15345, 250), (15340, 0)]))"
    "field_of ?sj sample_update ''a'' = Inr (J_Array (map (level_json 2 2) [(15350, 1000)]))"
    by (simp_all add: tree_reader_def sample_update_def update_json_def)
  have s: "scalar_field ?sj sample_update ''E'' = 1700000000" "scalar_field ?sj sample_update ''U'' = 7"
    "scalar_field ?sj sample_update ''u'' = 12"
    by (simp_all add: scalar_field_def tree_reader_def sample_update_def update_json_def)
  have b: "\<forall>l \<in> set ([(15345, 250), (15340, 0)] @ [(15350, 1000)]). i64 (fst l) \<and> i64 (snd l)" by simp
  show ?thesis
    using depth_update_decodes [OF r f tree_reads_pairs tree_reads_pairs b] by (simp add: s plain_level_def)
qed

section \<open>Properties of captures\<close>

text \<open>The lines that carry a frame: not blank after a trailing carriage return is dropped.\<close>

definition frame_lines :: "string \<Rightarrow> string list" where
  "frame_lines s = filter (\<lambda>l. \<not> blank l) (map trim_cr (split_lines s))"

lemma depth_updates_lines: "parse_binance_depth_updates sj fmt s pd qd = line_loop sj fmt pd qd 0 (split_lines s) []"
  by (simp add: parse_binance_depth_updates_def depth_lines_split)

text \<open>
  C35: a capture is parsed line by line. It succeeds with \<open>us\<close> exactly when the frames on its non-blank
  lines, in order, parse to \<open>us\<close>; otherwise the error is the one made for the first line, counted from
  1 over all lines, whose frame does not parse.
\<close>

theorem capture_parse_lines:
  "(parse_binance_depth_updates sj fmt s pd qd = Inr us \<longleftrightarrow>
     map (\<lambda>l. parse_binance_depth_update sj l pd qd) (frame_lines s) = map Inr us) \<and>
   (parse_binance_depth_updates sj fmt s pd qd = Inl e \<longleftrightarrow>
     (\<exists>k err. k < length (split_lines s) \<and> \<not> blank (trim_cr (split_lines s ! k)) \<and>
       parse_binance_depth_update sj (trim_cr (split_lines s ! k)) pd qd = Inl err \<and>
       e = fmt ''line {}: '' (k + 1) err \<and>
       \<not> (\<exists>j < k. \<not> blank (trim_cr (split_lines s ! j)) \<and>
         (\<exists>err'. parse_binance_depth_update sj (trim_cr (split_lines s ! j)) pd qd = Inl err'))))"
proof -
  let ?P = "\<lambda>j. parse_binance_depth_update sj (trim_cr (split_lines s ! j)) pd qd"
  have "(\<forall>j < k. blank (trim_cr (split_lines s ! j)) \<or> (\<exists>u. ?P j = Inr u)) \<longleftrightarrow>
      \<not> (\<exists>j < k. \<not> blank (trim_cr (split_lines s ! j)) \<and> (\<exists>err'. ?P j = Inl err'))" for k
    by (metis Inr_not_Inl obj_sumE)
  then show ?thesis unfolding depth_updates_lines line_loop_Inr line_loop_Inl frame_lines_def by simp
qed

text \<open>
  The error of a capture does not say what is wrong with the line. The format string has one
  replacement field, and \<open>fmt::format\<close> ignores the arguments beyond; so the message is the same
  whatever error the parser found.
\<close>

theorem capture_error_loses_reason:
  assumes "\<And>n a b. fmt ''line {}: '' n a = fmt ''line {}: '' n b"
    and "parse_binance_depth_updates sj fmt s pd qd = Inl e"
  shows "\<exists>k < length (split_lines s). e = fmt ''line {}: '' (k + 1) []"
  using assms(2) unfolding depth_updates_lines line_loop_Inl using assms(1) by auto

theorem capture_error_loses_reason_witness:
  "parse_binance_depth_updates (tree_reader []) (\<lambda>f n a. ''line '' @ nat_text n @ '': '') ''garbage'' 2 2 = Inl ''line 1: ''"
proof -
  let ?fmt = "\<lambda>(f :: string) n (a :: string). ''line '' @ nat_text n @ '': ''"
  have "map_sum (\<lambda>_. ()) (\<lambda>_. ()) (parse_binance_depth_updates (tree_reader []) ?fmt ''garbage'' 2 2) = Inl ()"
    by (simp add: depth_updates_lines depth_line_def blank_def trim_cr_def parse_binance_depth_update_def tree_reader_def)
  then obtain e where e: "parse_binance_depth_updates (tree_reader []) ?fmt ''garbage'' 2 2 = Inl e"
    by (cases "parse_binance_depth_updates (tree_reader []) ?fmt ''garbage'' 2 2") auto
  from capture_error_loses_reason [of ?fmt, OF refl e] have "e = ''line '' @ nat_text 1 @ '': ''" by auto
  with e show ?thesis by (simp add: nat_text.simps digit_char_def)
qed

end
