(* ===== verification/Book_Invariant.thy ===== *)
theory Book_Invariant
  imports Order_Book
begin

text \<open>
  The invariant of the order book and its abstraction. \<open>book_rep ob Q\<close> relates a book to the
  indices of the pool nodes of each level (\<open>Q\<close>, per side, best level first, oldest order first);
  \<open>book_inv\<close> reads these indices off the links; \<open>abs_book\<close> is the abstract book of \<open>Book_Spec\<close>.
  \<open>book_rep_splice\<close> is the one place where the frame of an update is argued: every operation
  replaces a segment of one side's levels and leaves the nodes of all others alone.
\<close>

section \<open>Levels and their queues\<close>

type_synonym heap = "int \<Rightarrow> resting_order node option"

definition order_of :: "heap \<Rightarrow> int \<Rightarrow> aorder" where
  "order_of h i =
     (case h i of None \<Rightarrow> (kAnonymous, 0) | Some nd \<Rightarrow> (r_id (nval nd), r_volume (nval nd)))"

definition orders :: "heap \<Rightarrow> int list \<Rightarrow> aorder list" where
  "orders h q = map (order_of h) q"

text \<open>The links of a level: a doubly linked list from \<open>head\<close> to \<open>tail\<close> over exactly \<open>q\<close>.\<close>

definition linked :: "heap \<Rightarrow> level \<Rightarrow> int list \<Rightarrow> bool" where
  "linked h lvl q \<longleftrightarrow> distinct q \<and> dseg h kNull q kNull \<and>
     head lvl = hd (q @ [kNull]) \<and> tail lvl = last (kNull # q)"

abbreviation volumes_ok :: "aorder list \<Rightarrow> bool" where
  "volumes_ok q \<equiv> (\<forall>x \<in> set q. 0 < snd x \<and> snd x < 2 ^ 63)"

text \<open>The cached aggregate is the sum of the queue, at the width of \<open>Volume\<close>.\<close>

definition level_rep :: "heap \<Rightarrow> level \<Rightarrow> int list \<Rightarrow> bool" where
  "level_rep h lvl q \<longleftrightarrow> q \<noteq> [] \<and> linked h lvl q \<and> volumes_ok (orders h q) \<and>
     total_volume lvl = wrap64 (volumes (orders h q))"

lemma orders_simps [simp]:
  "orders h [] = []" "orders h (i # q) = order_of h i # orders h q"
  "orders h (q @ r) = orders h q @ orders h r" "orders h q = [] \<longleftrightarrow> q = []"
  by (simp_all add: orders_def)

lemma orders_cong: "(\<And>i. i \<in> set q \<Longrightarrow> h' i = h i) \<Longrightarrow> orders h' q = orders h q"
  by (simp add: orders_def order_of_def)

lemma linked_cong: "(\<And>i. i \<in> set q \<Longrightarrow> h' i = h i) \<Longrightarrow> linked h' lvl q \<longleftrightarrow> linked h lvl q"
  by (simp add: linked_def dseg_cong [of q h' h])

lemma level_rep_cong:
  "(\<And>i. i \<in> set q \<Longrightarrow> h' i = h i) \<Longrightarrow> level_rep h' lvl q \<longleftrightarrow> level_rep h lvl q"
  by (simp add: level_rep_def linked_cong [of q h' h] orders_cong [of q h' h])

lemma linked_head_null: "linked h lvl q \<Longrightarrow> head lvl = kNull \<longleftrightarrow> q = []"
  unfolding linked_def by (metis dseg_hd_null)

lemma linked_tail_null: "linked h lvl q \<Longrightarrow> tail lvl = kNull \<longleftrightarrow> q = []"
  unfolding linked_def by (metis dseg_last_null)

lemma linked_node: "linked h lvl q \<Longrightarrow> i \<in> set q \<Longrightarrow> \<exists>nd. h i = Some nd"
  unfolding linked_def by (blast dest: dseg_node)

section \<open>The book\<close>

definition located :: "order_book \<Rightarrow> (side \<Rightarrow> int list list) \<Rightarrow> order_id \<Rightarrow> location \<Rightarrow> bool" where
  "located ob Q i loc \<longleftrightarrow> i \<noteq> kAnonymous \<and>
     (\<exists>(l, q) \<in> set (zip (side_levels (loc_side loc) ob) (Q (loc_side loc))).
        lv_price l = loc_price loc \<and> loc_node loc \<in> set q \<and>
        fst (order_of (pool_look (pool ob)) (loc_node loc)) = i)"

abbreviation nodes_in :: "int list list \<Rightarrow> int set" where
  "nodes_in qs \<equiv> set (concat qs)"

definition book_rep :: "order_book \<Rightarrow> (side \<Rightarrow> int list list) \<Rightarrow> bool" where
  "book_rep ob Q \<longleftrightarrow> pool_inv (pool ob) \<and>
     (\<forall>s. list_all2 (level_rep (pool_look (pool ob))) (side_levels s ob) (Q s) \<and>
        sorted_wrt (before s) (map lv_price (side_levels s ob)) \<and> distinct (concat (Q s))) \<and>
     nodes_in (Q BID) \<inter> nodes_in (Q ASK) = {} \<and>
     pool_live (pool ob) = nodes_in (Q BID) \<union> nodes_in (Q ASK) \<and>
     (\<forall>i loc. index ob i = Some loc \<longrightarrow> located ob Q i loc)"

text \<open>The node indices of a level, read off the links.\<close>

definition level_nodes :: "resting_order object_pool \<Rightarrow> level \<Rightarrow> int list" where
  "level_nodes p lvl = walk (pool_look p) (length (nodes p)) (head lvl)"

definition book_nodes :: "order_book \<Rightarrow> side \<Rightarrow> int list list" where
  "book_nodes ob s = map (level_nodes (pool ob)) (side_levels s ob)"

definition book_inv :: "order_book \<Rightarrow> bool" where
  "book_inv ob \<longleftrightarrow> book_rep ob (book_nodes ob)"

definition abs_level :: "resting_order object_pool \<Rightarrow> level \<Rightarrow> alevel" where
  "abs_level p lvl = (lv_price lvl, orders (pool_look p) (level_nodes p lvl))"

definition abs_book :: "order_book \<Rightarrow> abook" where
  "abs_book ob s = map (abs_level (pool ob)) (side_levels s ob)"

lemma side_levels_set [simp]:
  "side_levels s (set_side_levels s' ls ob) = (if s = s' then ls else side_levels s ob)"
  "pool (set_side_levels s ls ob) = pool ob" "index (set_side_levels s ls ob) = index ob"
  by (cases s; cases s'; simp add: side_levels_def set_side_levels_def)+

lemma side_levels_upd [simp]:
  "side_levels s (ob\<lparr>pool := p\<rparr>) = side_levels s ob"
  "side_levels s (ob\<lparr>index := m\<rparr>) = side_levels s ob"
  by (simp_all add: side_levels_def)

lemma set_side_levels_upd [simp]:
  "set_side_levels s ls (ob\<lparr>pool := p\<rparr>) = (set_side_levels s ls ob)\<lparr>pool := p\<rparr>"
  "set_side_levels s ls (ob\<lparr>index := m\<rparr>) = (set_side_levels s ls ob)\<lparr>index := m\<rparr>"
  "set_side_levels s ls (set_side_levels s ls' ob) = set_side_levels s ls ob"
  "set_side_levels s (side_levels s ob) ob = ob"
  by (simp_all add: set_side_levels_def side_levels_def)

section \<open>Reading the representation\<close>

lemma level_nodes_eq:
  assumes "level_rep (pool_look p) lvl q" "set q \<subseteq> pool_live p"
  shows "level_nodes p lvl = q"
proof -
  have "card (set q) \<le> card {0..<int (length (nodes p))}"
    using assms(2) by (intro card_mono) (auto simp: pool_live_def)
  then have "length q \<le> length (nodes p)"
    using assms(1) by (simp add: level_rep_def linked_def distinct_card)
  with assms(1) show ?thesis
    unfolding level_nodes_def level_rep_def linked_def using walk_dseg by metis
qed

lemma book_repD:
  assumes "book_rep ob Q"
  shows "pool_inv (pool ob)"
    and "list_all2 (level_rep (pool_look (pool ob))) (side_levels s ob) (Q s)"
    and "sorted_wrt (before s) (map lv_price (side_levels s ob))"
    and "distinct (concat (Q s))"
    and "nodes_in (Q s) \<inter> nodes_in (Q (opposed s)) = {}"
    and "pool_live (pool ob) = nodes_in (Q s) \<union> nodes_in (Q (opposed s))"
    and "index ob i = Some loc \<Longrightarrow> located ob Q i loc"
  using assms unfolding book_rep_def by (cases s; auto)+

lemma book_repI:
  assumes "pool_inv (pool ob)"
    and "\<And>s. list_all2 (level_rep (pool_look (pool ob))) (side_levels s ob) (Q s)"
    and "\<And>s. sorted_wrt (before s) (map lv_price (side_levels s ob))"
    and "\<And>s. distinct (concat (Q s))"
    and "nodes_in (Q t) \<inter> nodes_in (Q (opposed t)) = {}"
    and "pool_live (pool ob) = nodes_in (Q t) \<union> nodes_in (Q (opposed t))"
    and "\<And>i loc. index ob i = Some loc \<Longrightarrow> located ob Q i loc"
  shows "book_rep ob Q"
  using assms unfolding book_rep_def by (cases t) auto

lemma book_rep_nodes_live: "book_rep ob Q \<Longrightarrow> q \<in> set (Q s) \<Longrightarrow> set q \<subseteq> pool_live (pool ob)"
  using book_repD(6) [of ob Q s] by auto

lemma book_rep_unique: "book_rep ob Q \<Longrightarrow> Q = book_nodes ob"
proof
  fix s
  assume rep: "book_rep ob Q"
  note l2 = book_repD(2) [OF rep, of s]
  show "Q s = book_nodes ob s"
  proof (rule nth_equalityI)
    show "length (Q s) = length (book_nodes ob s)"
      using l2 by (simp add: book_nodes_def list_all2_lengthD)
  next
    fix k
    assume "k < length (Q s)"
    then have k: "k < length (side_levels s ob)" using l2 by (simp add: list_all2_lengthD)
    then have "level_rep (pool_look (pool ob)) (side_levels s ob ! k) (Q s ! k)"
      using l2 by (simp add: list_all2_nthD)
    moreover have "set (Q s ! k) \<subseteq> pool_live (pool ob)"
      using \<open>k < length (Q s)\<close> by (intro book_rep_nodes_live [OF rep, of _ s]) simp
    ultimately show "Q s ! k = book_nodes ob s ! k"
      using k by (simp add: book_nodes_def level_nodes_eq)
  qed
qed

lemma book_inv_iff: "book_inv ob \<longleftrightarrow> (\<exists>Q. book_rep ob Q)"
  unfolding book_inv_def using book_rep_unique by blast

definition abs_levels :: "heap \<Rightarrow> level list \<Rightarrow> int list list \<Rightarrow> alevel list" where
  "abs_levels h ls qs = map (\<lambda>(l, q). (lv_price l, orders h q)) (zip ls qs)"

lemma abs_levels_simps [simp]:
  "abs_levels h [] qs = []"
  "abs_levels h (l # ls) (q # qs) = (lv_price l, orders h q) # abs_levels h ls qs"
  "length ls = length qs \<Longrightarrow> abs_levels h (ls @ ms) (qs @ rs) = abs_levels h ls qs @ abs_levels h ms rs"
  by (simp_all add: abs_levels_def)

lemma abs_levels_cong:
  "(\<And>i. i \<in> nodes_in qs \<Longrightarrow> h' i = h i) \<Longrightarrow> abs_levels h' ls qs = abs_levels h ls qs"
  unfolding abs_levels_def
  by (intro map_cong refl) (auto dest!: set_zip_rightD intro!: orders_cong)

lemma abs_levels_prices:
  "length ls = length qs \<Longrightarrow> map fst (abs_levels h ls qs) = map lv_price ls"
  by (induction ls qs rule: list_induct2) auto

lemma abs_book_eq:
  assumes "book_rep ob Q"
  shows "abs_book ob s = abs_levels (pool_look (pool ob)) (side_levels s ob) (Q s)"
  unfolding book_rep_unique [OF assms] book_nodes_def abs_book_def abs_levels_def
  by (simp add: zip_map2 zip_same_conv_map abs_level_def comp_def)

section \<open>The frame of an update\<close>

text \<open>
  Replace the levels \<open>L\<close> of side \<open>s\<close> (nodes \<open>QL\<close>) by \<open>L'\<close> (nodes \<open>QL'\<close>) over a pool that agrees with
  the old one on every other live node. The index may keep the entries of nodes outside \<open>QL\<close> and
  may have entries into \<open>L'\<close>.
\<close>

lemma list_all2_rep_cong:
  assumes "list_all2 (level_rep h) ls qs" "\<And>i. i \<in> nodes_in qs \<Longrightarrow> h' i = h i"
  shows "list_all2 (level_rep h') ls qs"
  using assms
proof (induction ls qs rule: list_all2_induct)
  case (Cons l ls q qs)
  then show ?case by (simp add: level_rep_cong [of q h' h])
qed simp

text \<open>An index entry of the old book away from \<open>QL\<close>, or of the new levels, is located in the new book.\<close>

lemma located_splice:
  assumes rep: "book_rep ob Q"
    and lv: "side_levels s ob = A @ L @ B" "Q s = QA @ QL @ QB"
    and len: "length QA = length A" "length QL = length L" "length L' = length QL'"
    and frame: "\<And>j. j \<in> pool_live (pool ob) \<Longrightarrow> j \<notin> nodes_in QL \<Longrightarrow> pool_look p' j = pool_look (pool ob) j"
    and entry: "(index ob i = Some loc \<and> loc_node loc \<notin> nodes_in QL) \<or>
      (i \<noteq> kAnonymous \<and> loc_side loc = s \<and> (\<exists>(l, q) \<in> set (zip L' QL'). lv_price l = loc_price loc \<and>
         loc_node loc \<in> set q \<and> fst (order_of (pool_look p') (loc_node loc)) = i))"
  shows "located (set_side_levels s (A @ L' @ B) (ob\<lparr>pool := p', index := idx\<rparr>)) (Q(s := QA @ QL' @ QB)) i loc"
    (is "located ?ob ?Q i loc")
proof -
  let ?h = "pool_look (pool ob)"
  have "list_all2 (level_rep ?h) (A @ L @ B) (QA @ QL @ QB)" using book_repD(2) [OF rep, of s] lv by simp
  from list_all2_lengthD [OF this] have lenB: "length QB = length B" using len by simp
  from entry consider
    (old) "index ob i = Some loc" "loc_node loc \<notin> nodes_in QL"
  | (new) l q where "i \<noteq> kAnonymous" "loc_side loc = s" "(l, q) \<in> set (zip L' QL')"
      "lv_price l = loc_price loc" "loc_node loc \<in> set q" "fst (order_of (pool_look p') (loc_node loc)) = i"
    by auto
  then show ?thesis
  proof cases
    case old
    from book_repD(7) [OF rep old(1)] obtain l q where i: "i \<noteq> kAnonymous" and
      lq: "(l, q) \<in> set (zip (side_levels (loc_side loc) ob) (Q (loc_side loc)))" and
      m: "lv_price l = loc_price loc" "loc_node loc \<in> set q" "fst (order_of ?h (loc_node loc)) = i"
      unfolding located_def by auto
    have "q \<in> set (Q (loc_side loc))" using lq by (rule set_zip_rightD)
    then have "loc_node loc \<in> pool_live (pool ob)" using m(2) book_rep_nodes_live [OF rep] by blast
    then have "pool_look p' (loc_node loc) = ?h (loc_node loc)" using old(2) by (rule frame)
    then have "fst (order_of (pool_look p') (loc_node loc)) = i" using m(3) by (simp add: order_of_def)
    moreover have "(l, q) \<in> set (zip (side_levels (loc_side loc) ?ob) (?Q (loc_side loc)))"
    proof (cases "loc_side loc = s")
      case True
      have "(l, q) \<notin> set (zip L QL)" using m(2) old(2) by (auto dest: set_zip_rightD)
      with lq True lv len lenB show ?thesis by auto
    qed (use lq in simp)
    ultimately show ?thesis using i m unfolding located_def by auto
  next
    case new
    then have "(l, q) \<in> set (zip (side_levels (loc_side loc) ?ob) (?Q (loc_side loc)))" using len by simp
    with new show ?thesis unfolding located_def by auto
  qed
qed

lemma book_rep_splice:
  assumes rep: "book_rep ob Q"
    and lv: "side_levels s ob = A @ L @ B" "Q s = QA @ QL @ QB"
    and len: "length QA = length A" "length QL = length L"
    and inv': "pool_inv p'"
    and frame: "\<And>j. j \<in> pool_live (pool ob) \<Longrightarrow> j \<notin> nodes_in QL \<Longrightarrow> pool_look p' j = pool_look (pool ob) j"
    and live': "pool_live p' = (pool_live (pool ob) - nodes_in QL) \<union> nodes_in QL'"
    and fresh: "distinct (concat QL')" "nodes_in QL' \<inter> (pool_live (pool ob) - nodes_in QL) = {}"
    and L': "list_all2 (level_rep (pool_look p')) L' QL'"
    and sorted': "sorted_wrt (before s) (map lv_price (A @ L' @ B))"
    and idx: "\<And>i loc. idx i = Some loc \<Longrightarrow>
      (index ob i = Some loc \<and> loc_node loc \<notin> nodes_in QL) \<or>
      (i \<noteq> kAnonymous \<and> loc_side loc = s \<and> (\<exists>(l, q) \<in> set (zip L' QL'). lv_price l = loc_price loc \<and>
         loc_node loc \<in> set q \<and> fst (order_of (pool_look p') (loc_node loc)) = i))"
  shows "book_rep (set_side_levels s (A @ L' @ B) (ob\<lparr>pool := p', index := idx\<rparr>))
      (Q(s := QA @ QL' @ QB))" (is "book_rep ?ob ?Q")
    and "abs_book (set_side_levels s (A @ L' @ B) (ob\<lparr>pool := p', index := idx\<rparr>)) =
      (abs_book ob)(s := abs_levels (pool_look (pool ob)) A QA @ abs_levels (pool_look p') L' QL' @
        abs_levels (pool_look (pool ob)) B QB)"
proof -
  let ?h = "pool_look (pool ob)" and ?o = "opposed s"
  note D = book_repD [OF rep]
  have l2: "list_all2 (level_rep ?h) (A @ L @ B) (QA @ QL @ QB)" using D(2) [of s] lv by simp
  then have l2A: "list_all2 (level_rep ?h) A QA" and l2B: "list_all2 (level_rep ?h) B QB"
    using len by (auto simp: list_all2_append)
  have lenB: "length QB = length B" using l2B by (simp add: list_all2_lengthD)
  have lenL': "length L' = length QL'" using L' by (simp add: list_all2_lengthD)
  have dist: "distinct (concat (QA @ QL @ QB))" using D(4) [of s] lv by simp
  have live: "pool_live (pool ob) = nodes_in (QA @ QL @ QB) \<union> nodes_in (Q ?o)"
    using D(6) [of s] lv by simp
  have disj: "nodes_in (QA @ QL @ QB) \<inter> nodes_in (Q ?o) = {}" using D(5) [of s] lv by simp
  have fA: "pool_look p' j = ?h j" if "j \<in> nodes_in QA" for j
    using that live dist by (intro frame) (auto simp: distinct_concat_append)
  have fB: "pool_look p' j = ?h j" if "j \<in> nodes_in QB" for j
    using that live dist by (intro frame) (auto simp: distinct_concat_append)
  have fO: "pool_look p' j = ?h j" if "j \<in> nodes_in (Q ?o)" for j
    using that live disj by (intro frame) auto
  have rest: "pool_live (pool ob) - nodes_in QL = nodes_in QA \<union> nodes_in QB \<union> nodes_in (Q ?o)"
    using live dist disj unfolding distinct_concat_append by (auto 0 3)
  have l2O: "list_all2 (level_rep (pool_look p')) (side_levels ?o ob) (Q ?o)"
    by (rule list_all2_rep_cong [OF D(2) fO])
  have l2S: "list_all2 (level_rep (pool_look p')) (A @ L' @ B) (QA @ QL' @ QB)"
    using list_all2_rep_cong [OF l2A fA] list_all2_rep_cong [OF l2B fB] L'
    by (intro list_all2_appendI)
  show rep': "book_rep ?ob ?Q"
  proof (rule book_repI [where t = s])
    show "pool_inv (pool ?ob)" using inv' by simp
    show "list_all2 (level_rep (pool_look (pool ?ob))) (side_levels t ?ob) (?Q t)" for t
      using l2O l2S side_cases_opposed [of t s] by auto
    show "sorted_wrt (before t) (map lv_price (side_levels t ?ob))" for t
      using sorted' D(3) [of ?o] side_cases_opposed [of t s] by auto
    show "distinct (concat (?Q t))" for t
    proof (cases "t = s")
      case True
      have "nodes_in QA \<inter> nodes_in QL' = {} \<and> nodes_in QB \<inter> nodes_in QL' = {}"
        using fresh(2) rest by blast
      then have "distinct (concat (QA @ QL' @ QB))"
        using dist fresh(1) unfolding distinct_concat_append by blast
      with True show ?thesis by simp
    next
      case False
      with D(4) show ?thesis by simp
    qed
    show "nodes_in (?Q s) \<inter> nodes_in (?Q ?o) = {}"
    proof -
      have "nodes_in QL' \<inter> nodes_in (Q ?o) = {}" using fresh(2) rest by blast
      moreover have "nodes_in (QA @ QB) \<inter> nodes_in (Q ?o) = {}" using disj by auto
      ultimately show ?thesis by auto
    qed
    show "pool_live (pool ?ob) = nodes_in (?Q s) \<union> nodes_in (?Q ?o)"
      using live' rest by auto
    show "located ?ob ?Q i loc" if "index ?ob i = Some loc" for i loc
      using that by (intro located_splice [OF rep lv len lenL' frame idx]) simp_all
  qed
  have absA: "abs_levels (pool_look p') A QA = abs_levels ?h A QA"
    by (rule abs_levels_cong) (rule fA)
  have absB: "abs_levels (pool_look p') B QB = abs_levels ?h B QB"
    by (rule abs_levels_cong) (rule fB)
  have absO: "abs_levels (pool_look p') (side_levels ?o ob) (Q ?o) = abs_levels ?h (side_levels ?o ob) (Q ?o)"
    by (rule abs_levels_cong) (rule fO)
  show "abs_book ?ob = (abs_book ob)(s := abs_levels ?h A QA @ abs_levels (pool_look p') L' QL' @
      abs_levels ?h B QB)" (is "_ = ?ab")
  proof
    fix t
    show "abs_book ?ob t = ?ab t"
      unfolding abs_book_eq [OF rep', of t] using side_cases_opposed [of t s]
      by (auto simp: absA absB absO len lenL' abs_book_eq [OF rep])
  qed
qed

section \<open>Finding a level\<close>

text \<open>The contract of the level search, and what its users get from it.\<close>

locale level_search = price_order lt for lt :: "'k \<Rightarrow> 'k \<Rightarrow> bool" +
  fixes key :: "'l \<Rightarrow> 'k" and search :: "'l list \<Rightarrow> 'k \<Rightarrow> nat run"
  assumes search_first: "sorted_wrt lt (map key xs) \<Longrightarrow>
    search xs p = ok (length (takeWhile (\<lambda>x. lt (key x) p) xs))"
begin

lemma search_cases [consumes 1, case_names found absent]:
  assumes "sorted_wrt lt (map key xs)"
  obtains A l B where "xs = A @ l # B" "key l = p" "search xs p = ok (length A)"
      "\<forall>a \<in> set A. lt (key a) p" "\<forall>b \<in> set B. lt p (key b)"
    | A B where "xs = A @ B" "search xs p = ok (length A)"
      "\<forall>a \<in> set A. lt (key a) p" "\<forall>b \<in> set B. lt p (key b)"
proof -
  obtain A L B where s: "xs = A @ L @ B" "length L \<le> 1" "\<forall>a \<in> set A. lt (key a) p"
    "\<forall>l \<in> set L. key l = p" "\<forall>b \<in> set B. lt p (key b)"
    using sorted_split [OF assms, of p] by blast
  have k: "search xs p = ok (length A)"
    using search_first [OF assms, of p] unfolding s(1) takeWhile_before [OF s(3-5)] .
  show thesis
  proof (cases L)
    case Nil
    with s k that(2) show thesis by simp
  next
    case (Cons l L')
    with s(2,4) have "L = [l]" "key l = p" by auto
    with s k that(1) [of A l B] show thesis by simp
  qed
qed

end

lemma lower_bound_sorted:
  assumes "price_order lt" "sorted_wrt lt (map key xs)"
  shows "branchless_lower_bound lt key xs p = ok (length (takeWhile (\<lambda>x. lt (key x) p) xs))"
proof -
  have "partitioned lt key xs p"
    unfolding partitioned_def
  proof (rule sorted_wrt_mono_rel [OF _ assms(2) [unfolded sorted_wrt_map]])
    show "lt (key y) p \<longrightarrow> lt (key x) p" if "lt (key x) (key y)" for x y
      using price_order.po_trans [OF assms(1) that] by blast
  qed
  then show ?thesis by (simp add: branchless_lower_bound_eq lower_bound_def)
qed

lemma find_level_before: "find_level ls s p = branchless_lower_bound (before s) lv_price ls p"
proof (cases s)
  case BID
  then have "before s = (\<lambda>x y. x > y)" by (intro ext) simp
  with BID show ?thesis by (simp add: find_level_def)
next
  case ASK
  then have "before s = (\<lambda>x y. x < y)" by (intro ext) simp
  with ASK show ?thesis by (simp add: find_level_def)
qed

interpretation levels: level_search "before s" lv_price "\<lambda>ls p. find_level ls s p" for s
  by unfold_locales
    (simp add: find_level_before lower_bound_sorted [OF side_order.price_order_axioms])

text \<open>Finding a level of a book, with the node lists split along.\<close>

lemma book_level_cases [consumes 1, case_names found absent]:
  assumes rep: "book_rep ob Q"
  obtains A l B QA q QB where "side_levels s ob = A @ l # B" "Q s = QA @ q # QB"
      "length QA = length A" "length QB = length B" "lv_price l = p"
      "level_rep (pool_look (pool ob)) l q"
      "find_level (side_levels s ob) s p = ok (length A)"
      "\<forall>a \<in> set A. before s (lv_price a) p" "\<forall>b \<in> set B. before s p (lv_price b)"
    | A B QA QB where "side_levels s ob = A @ B" "Q s = QA @ QB"
      "length QA = length A" "length QB = length B"
      "find_level (side_levels s ob) s p = ok (length A)"
      "\<forall>a \<in> set A. before s (lv_price a) p" "\<forall>b \<in> set B. before s p (lv_price b)"
  using book_repD(3) [OF rep, of s]
proof (cases rule: levels.search_cases [where p = p])
  case (found A l B)
  with book_repD(2) [OF rep, of s] obtain QA q QB where
    "Q s = QA @ q # QB" "list_all2 (level_rep (pool_look (pool ob))) A QA"
    "level_rep (pool_look (pool ob)) l q" "list_all2 (level_rep (pool_look (pool ob))) B QB"
    by (auto simp: list_all2_append1 list_all2_Cons1)
  with found that(1) [of A l B QA q QB] show thesis by (simp add: list_all2_lengthD)
next
  case (absent A B)
  with book_repD(2) [OF rep, of s] obtain QA QB where
    "Q s = QA @ QB" "list_all2 (level_rep (pool_look (pool ob))) A QA"
    "list_all2 (level_rep (pool_look (pool ob))) B QB"
    by (auto simp: list_all2_append1)
  with absent that(2) [of A B QA QB] show thesis by (simp add: list_all2_lengthD)
qed

lemma level_exists_found [simp]: "lv_price l = p \<Longrightarrow> level_exists (A @ l # B) (length A) p"
  by (simp add: level_exists_def)

lemma level_exists_absent:
  "\<forall>b \<in> set B. before s p (lv_price b) \<Longrightarrow> \<not> level_exists (A @ B) (length A) p"
  using side_order.po_irrefl by (cases B) (auto simp: level_exists_def)

end
