(* ===== verification/Book_Steps.thy ===== *)
theory Book_Steps
  imports Book_Invariant
begin

text \<open>
  The steps that work on one level: popping the head, unlinking a node, taking volume from the
  head, and the loops over these. Each lemma says that the step returns, what becomes of the
  level, and (\<open>book_frame\<close>) what it leaves alone.
\<close>

section \<open>Frames\<close>

text \<open>
  \<open>ob'\<close> differs from \<open>ob\<close> only in that the slots \<open>D\<close> were returned to the pool, nodes in \<open>M\<close> were
  written, and the ids \<open>I\<close> were dropped from the index.
\<close>

definition book_frame :: "order_book \<Rightarrow> order_book \<Rightarrow> int set \<Rightarrow> int set \<Rightarrow> order_id set \<Rightarrow> bool" where
  "book_frame ob ob' D M I \<longleftrightarrow> pool_inv (pool ob') \<and> capacity (pool ob') = capacity (pool ob) \<and>
     pool_live (pool ob') = pool_live (pool ob) - D \<and>
     (\<forall>j. j \<notin> M \<longrightarrow> pool_look (pool ob') j = pool_look (pool ob) j) \<and>
     (\<forall>s. side_levels s ob' = side_levels s ob) \<and> index ob' = index ob |` (- I)"

lemma restrict_map_UNIV: "m |` UNIV = m"
  by (simp add: restrict_map_def)

lemma book_frame_refl: "pool_inv (pool ob) \<Longrightarrow> book_frame ob ob {} M {}"
  by (simp add: book_frame_def restrict_map_UNIV)

lemma book_frame_trans:
  assumes ab: "book_frame a b D M I" and bc: "book_frame b c D' M' I'" and "M \<subseteq> N" "M' \<subseteq> N"
  shows "book_frame a c (D \<union> D') N (I \<union> I')"
proof -
  have "pool_look (pool c) j = pool_look (pool a) j" if "j \<notin> N" for j
    using that assms unfolding book_frame_def by (metis subsetD)
  moreover have "index c = index a |` (- (I \<union> I'))"
    using ab bc by (simp add: book_frame_def)
  ultimately show ?thesis using ab bc by (auto simp: book_frame_def)
qed

lemma book_eqI:
  assumes "\<And>s. side_levels s ob' = side_levels s ob"
  shows "ob' = ob\<lparr>pool := pool ob', index := index ob'\<rparr>"
  using assms [of BID] assms [of ASK] by (simp add: side_levels_def)

lemma book_frame_eq: "book_frame ob ob' D M I \<Longrightarrow> ob' = ob\<lparr>pool := pool ob', index := index ob'\<rparr>"
  by (rule book_eqI) (simp add: book_frame_def)

lemma restrict_one: "m |` (- {x}) = m(x := None)"
  by (simp add: restrict_map_def fun_eq_iff)

section \<open>Popping and unlinking\<close>

text \<open>A level whose cached aggregate is right; its queue may be empty in the middle of a loop.\<close>

definition level_part :: "heap \<Rightarrow> level \<Rightarrow> int list \<Rightarrow> bool" where
  "level_part h lvl q \<longleftrightarrow> linked h lvl q \<and> volumes_ok (orders h q) \<and>
     total_volume lvl = wrap64 (volumes (orders h q))"

lemma level_rep_part: "level_rep h lvl q \<longleftrightarrow> q \<noteq> [] \<and> level_part h lvl q"
  by (auto simp: level_rep_def level_part_def)

lemma level_part_cong:
  "(\<And>i. i \<in> set q \<Longrightarrow> h' i = h i) \<Longrightarrow> level_part h' lvl q \<longleftrightarrow> level_part h lvl q"
  by (simp add: level_part_def linked_cong [of q h' h] orders_cong [of q h' h])

lemma order_of_value_eq:
  "map_option nval (h' i) = map_option nval (h i) \<Longrightarrow> order_of h' i = order_of h i"
  by (auto simp: order_of_def split: option.splits)

text \<open>Writing links does not change what a node holds.\<close>

lemma orders_link_upd:
  assumes "h i = Some nd" "nval nd' = nval nd"
  shows "orders (h(i \<mapsto> nd')) q = orders h q"
  using assms by (auto simp: orders_def order_of_def)

lemma pop_front_spec:
  assumes lk: "linked (pool_look (pool ob)) lvl (i # q)" and inv: "pool_inv (pool ob)"
    and live: "set (i # q) \<subseteq> pool_live (pool ob)" and anon: "index ob kAnonymous = None"
  shows "\<exists>lvl' ob'. pop_front lvl ob = ok (lvl', ob') \<and>
    linked (pool_look (pool ob')) lvl' q \<and> lv_price lvl' = lv_price lvl \<and>
    total_volume lvl' = total_volume lvl \<and>
    orders (pool_look (pool ob')) q = orders (pool_look (pool ob)) q \<and>
    book_frame ob ob' {i} (set q) {fst (order_of (pool_look (pool ob)) i)}"
proof -
  let ?h = "pool_look (pool ob)"
  from lk have dst: "distinct (i # q)" and seg: "dseg ?h kNull (i # q) kNull"
    and hd: "head lvl = i" and tl: "tail lvl = last (i # q)" by (auto simp: linked_def)
  from linked_node [OF lk] obtain nd where nd: "?h i = Some nd" by auto
  let ?a = "r_id (nval nd)"
  let ?idx = "(index ob)(?a := None)"
  have a: "fst (order_of ?h i) = ?a" using nd by (simp add: order_of_def)
  have idx: "(if ?a \<noteq> kAnonymous then ob\<lparr>index := ?idx\<rparr> else ob) = ob\<lparr>index := ?idx\<rparr>"
    using anon by (auto simp: fun_upd_idem)
  have nx: "nnext nd = hd (q @ [kNull])" using seg nd by simp
  have segq: "dseg ?h i q kNull" using seg by simp
  have null: "hd (q @ [kNull]) = kNull \<longleftrightarrow> q = []" using dseg_hd_null [OF segq] .
  show ?thesis
  proof (cases "q = []")
    case True
    let ?ob' = "ob\<lparr>index := ?idx, pool := pool_deallocate i (pool ob)\<rparr>"
    have "pop_front lvl ob = ok (lvl\<lparr>head := kNull, tail := kNull\<rparr>, ?ob')"
      using hd nd idx nx True by (simp add: pop_front_def pool_get_eq Let_def)
    moreover have "book_frame ob ?ob' {i} (set q) {?a}"
      using pool_deallocate_ok [OF inv, of i] live by (simp add: book_frame_def restrict_one)
    ultimately show ?thesis using True a by (auto simp: linked_def)
  next
    case False
    let ?n = "hd q"
    from False have "?n \<in> set q" by simp
    with dseg_node [OF segq] obtain nn where nn: "?h ?n = Some nn" by blast
    from pool.modify_ok [OF inv nn, of "nprev_update (\<lambda>_. kNull)"] obtain p1 where
      p1: "pool_modify ?n (nprev_update (\<lambda>_. kNull)) (pool ob) = ok p1" "pool_inv p1"
      "capacity p1 = capacity (pool ob)" "pool_live p1 = pool_live (pool ob)"
      "pool_look p1 = ?h(?n \<mapsto> nn\<lparr>nprev := kNull\<rparr>)" by auto
    let ?ob' = "ob\<lparr>index := ?idx, pool := pool_deallocate i p1\<rparr>"
    have d: "pool_inv (pool_deallocate i p1) \<and> capacity (pool_deallocate i p1) = capacity p1 \<and>
        pool_live (pool_deallocate i p1) = pool_live p1 - {i} \<and>
        pool_look (pool_deallocate i p1) = pool_look p1"
      using p1(2,4) live by (intro pool_deallocate_ok) auto
    have "nnext nd = ?n" "?n \<noteq> kNull" using nx null False by auto
    then have "pop_front lvl ob = ok (lvl\<lparr>head := ?n\<rparr>, ?ob')"
      using hd nd idx p1(1) by (simp add: pop_front_def pool_get_eq Let_def)
    moreover have "dseg (pool_look (pool ?ob')) kNull q kNull"
      using dseg_unlink_prev [OF seg dst False nn, of kNull] d p1(5) by simp
    then have "linked (pool_look (pool ?ob')) (lvl\<lparr>head := ?n\<rparr>) q"
      using dst tl False by (simp add: linked_def)
    moreover have "orders (pool_look (pool ?ob')) q = orders ?h q"
      using d p1(5) orders_link_upd [of ?h ?n nn "nn\<lparr>nprev := kNull\<rparr>"] nn by simp
    moreover have "book_frame ob ?ob' {i} (set q) {?a}"
      using d p1 False by (auto simp: book_frame_def restrict_one)
    ultimately show ?thesis
      using a by (intro exI [of _ "lvl\<lparr>head := ?n\<rparr>"] exI [of _ ?ob'] conjI) auto
  qed
qed

text \<open>The link of the neighbour before a node, or \<open>head\<close>; the link of the neighbour behind it, or \<open>tail\<close>.\<close>

lemma unlink_before:
  fixes p :: "resting_order object_pool"
  assumes inv: "pool_inv p" and seg: "dseg (pool_look p) kNull (a @ [i]) nx" and dst: "distinct (a @ [i])"
  obtains p1 where "(if last (kNull # a) \<noteq> kNull then
        chain (pool_modify (last (kNull # a)) (nnext_update (\<lambda>_. nx)) p) (\<lambda>p. ok (lvl, p))
      else ok (lvl\<lparr>head := nx\<rparr>, p)) = ok (if a = [] then lvl\<lparr>head := nx\<rparr> else lvl, p1)"
    "pool_inv p1" "capacity p1 = capacity p" "pool_live p1 = pool_live p"
    "dseg (pool_look p1) kNull a nx" "\<And>j. j \<notin> set a \<Longrightarrow> pool_look p1 j = pool_look p j"
    "\<And>q. orders (pool_look p1) q = orders (pool_look p) q"
proof (cases "a = []")
  case True
  with inv that [of p] show ?thesis by simp
next
  case False
  have segA: "dseg (pool_look p) kNull a i" using seg by (simp add: dseg_append)
  have l: "last a \<in> set a" using False by simp
  with dseg_node [OF segA] obtain na where na: "pool_look p (last a) = Some na" by blast
  from pool.modify_ok [OF inv na, of "nnext_update (\<lambda>_. nx)"] obtain p1 where
    p1: "pool_modify (last a) (nnext_update (\<lambda>_. nx)) p = ok p1" "pool_inv p1" "capacity p1 = capacity p"
    "pool_live p1 = pool_live p" "pool_look p1 = (pool_look p)(last a \<mapsto> na\<lparr>nnext := nx\<rparr>)" by auto
  show ?thesis
  proof (rule that [OF _ p1(2-4)])
    show "dseg (pool_look p1) kNull a nx" using dseg_unlink_next [OF seg _ False na] dst p1(5) by simp
    show "orders (pool_look p1) q = orders (pool_look p) q" for q using p1(5) na by (simp add: orders_link_upd)
    show "pool_look p1 j = pool_look p j" if "j \<notin> set a" for j using that l p1(5) by auto
  qed (use p1(1) dseg_last_null [OF segA] False in simp)
qed

lemma unlink_behind:
  fixes p :: "resting_order object_pool"
  assumes inv: "pool_inv p" and seg: "dseg (pool_look p) pv (i # b) kNull" and dst: "distinct (i # b)"
  obtains p1 where "(if hd (b @ [kNull]) \<noteq> kNull then
        chain (pool_modify (hd (b @ [kNull])) (nprev_update (\<lambda>_. pv)) p) (\<lambda>p. ok (lvl, p))
      else ok (lvl\<lparr>tail := pv\<rparr>, p)) = ok (if b = [] then lvl\<lparr>tail := pv\<rparr> else lvl, p1)"
    "pool_inv p1" "capacity p1 = capacity p" "pool_live p1 = pool_live p"
    "dseg (pool_look p1) pv b kNull" "\<And>j. j \<notin> set b \<Longrightarrow> pool_look p1 j = pool_look p j"
    "\<And>q. orders (pool_look p1) q = orders (pool_look p) q"
proof (cases "b = []")
  case True
  with inv that [of p] show ?thesis by simp
next
  case False
  have segB: "dseg (pool_look p) i b kNull" using seg by auto
  have h: "hd b \<in> set b" using False by simp
  with dseg_node [OF seg] obtain nb where nb: "pool_look p (hd b) = Some nb" by auto
  from pool.modify_ok [OF inv nb, of "nprev_update (\<lambda>_. pv)"] obtain p1 where
    p1: "pool_modify (hd b) (nprev_update (\<lambda>_. pv)) p = ok p1" "pool_inv p1" "capacity p1 = capacity p"
    "pool_live p1 = pool_live p" "pool_look p1 = (pool_look p)(hd b \<mapsto> nb\<lparr>nprev := pv\<rparr>)" by auto
  show ?thesis
  proof (rule that [OF _ p1(2-4)])
    show "dseg (pool_look p1) pv b kNull" using dseg_unlink_prev [OF seg _ False nb] dst p1(5) by simp
    show "orders (pool_look p1) q = orders (pool_look p) q" for q using p1(5) nb by (simp add: orders_link_upd)
    show "pool_look p1 j = pool_look p j" if "j \<notin> set b" for j using that h p1(5) by auto
  qed (use p1(1) dseg_hd_null [OF segB] False in simp)
qed

lemma unlink_spec:
  assumes lk: "linked (pool_look (pool ob)) lvl (a @ i # b)" and inv: "pool_inv (pool ob)"
  shows "\<exists>lvl' ob'. unlink lvl i ob = ok (lvl', ob') \<and>
    linked (pool_look (pool ob')) lvl' (a @ b) \<and> lv_price lvl' = lv_price lvl \<and>
    total_volume lvl' = total_volume lvl \<and>
    orders (pool_look (pool ob')) (a @ b) = orders (pool_look (pool ob)) (a @ b) \<and>
    book_frame ob ob' {} (set (a @ b)) {}"
proof -
  let ?h = "pool_look (pool ob)"
  from lk have dst: "distinct (a @ i # b)" and seg: "dseg ?h kNull (a @ i # b) kNull"
    and hd: "head lvl = hd (a @ i # b @ [kNull])" and tl: "tail lvl = last (kNull # a @ i # b)"
    by (auto simp: linked_def)
  let ?pv = "last (kNull # a)" and ?nx = "hd (b @ [kNull])"
  from seg have segA: "dseg ?h kNull a i" and segI: "dseg ?h ?pv (i # b) kNull"
    by (auto simp: dseg_append)
  then obtain nd where nd: "?h i = Some nd" "nprev nd = ?pv" "nnext nd = ?nx" "0 \<le> i" by auto
  have segAI: "dseg ?h kNull (a @ [i]) ?nx" using segA nd by (simp add: dseg_append)
  have segB: "dseg ?h i b kNull" using segI by simp
  let ?l1 = "if a = [] then lvl\<lparr>head := ?nx\<rparr> else lvl"
  obtain p1 where p1: "(if ?pv \<noteq> kNull then chain (pool_modify ?pv (nnext_update (\<lambda>_. ?nx)) (pool ob))
        (\<lambda>p. ok (lvl, p)) else ok (lvl\<lparr>head := ?nx\<rparr>, pool ob)) = ok (?l1, p1)"
    "pool_inv p1" "capacity p1 = capacity (pool ob)" "pool_live p1 = pool_live (pool ob)"
    and h1: "dseg (pool_look p1) kNull a ?nx" "\<And>j. j \<notin> set a \<Longrightarrow> pool_look p1 j = ?h j"
    "\<And>q. orders (pool_look p1) q = orders ?h q"
    by (rule unlink_before [OF inv segAI, where lvl = lvl]) (use dst in simp_all)
  have h1b: "pool_look p1 j = ?h j" if "j \<in> set (i # b)" for j
    using h1(2) that dst by auto
  have segI1: "dseg (pool_look p1) ?pv (i # b) kNull"
    using segI dseg_cong [of "i # b" "pool_look p1" ?h] h1b by blast
  let ?l2 = "if b = [] then ?l1\<lparr>tail := ?pv\<rparr> else ?l1"
  obtain p2 where p2: "(if ?nx \<noteq> kNull then chain (pool_modify ?nx (nprev_update (\<lambda>_. ?pv)) p1)
        (\<lambda>p. ok (?l1, p)) else ok (?l1\<lparr>tail := ?pv\<rparr>, p1)) = ok (?l2, p2)"
    "pool_inv p2" "capacity p2 = capacity p1" "pool_live p2 = pool_live p1"
    and h2: "dseg (pool_look p2) ?pv b kNull" "\<And>j. j \<notin> set b \<Longrightarrow> pool_look p2 j = pool_look p1 j"
    "\<And>q. orders (pool_look p2) q = orders (pool_look p1) q"
    by (rule unlink_behind [OF p1(2) segI1, where lvl = ?l1]) (use dst in simp_all)
  let ?ob' = "ob\<lparr>pool := p2\<rparr>"
  have "unlink lvl i ob = ok (?l2, ?ob')"
    by (simp only: unlink_def pool_get_eq [OF nd(1)] chain.simps Let_def nd(2,3) p1(1) p2(1)
        prod.case)
  moreover have "pool_look p2 j = pool_look p1 j" if "j \<in> set a" for j
    using h2(2) dst that by auto
  then have "dseg (pool_look p2) kNull a ?nx"
    using h1(1) dseg_cong [of a "pool_look p2" "pool_look p1"] by blast
  then have "dseg (pool_look p2) kNull (a @ b) kNull" using h2(1) by (simp add: dseg_append)
  then have "linked (pool_look p2) ?l2 (a @ b)"
    using dst hd tl by (cases a; cases b) (auto simp: linked_def)
  moreover have "book_frame ob ?ob' {} (set (a @ b)) {}"
    using p1 p2 h1(2) h2(2) by (auto simp: book_frame_def)
  ultimately show ?thesis
    using h1(3) h2(3) by (intro exI [of _ ?l2] exI [of _ ?ob'] conjI) auto
qed

section \<open>Taking volume from the head\<close>

lemma pool_modify_cong:
  "pool_look p i = Some nd \<Longrightarrow> f nd = g nd \<Longrightarrow> pool_modify i f p = pool_modify i g p"
  by (simp add: pool_modify_look)

lemma linked_value_upd:
  assumes "h i = Some nd" "nprev nd' = nprev nd" "nnext nd' = nnext nd"
  shows "linked (h(i \<mapsto> nd')) lvl q \<longleftrightarrow> linked h lvl q"
  using dseg_set_value [of h i nd nd', OF assms] by (simp add: linked_def)

lemma take_head_spec:
  assumes lp: "level_part (pool_look (pool ob)) lvl (i # q)" and inv: "pool_inv (pool ob)"
    and live: "set (i # q) \<subseteq> pool_live (pool ob)" and anon: "index ob kAnonymous = None"
    and v: "0 < v" "v < 2 ^ 63" and aw: "order_of (pool_look (pool ob)) i = (a, w)"
  shows "\<exists>lvl' ob'. take_head v lvl ob = ok (v - min v w, lvl', ob') \<and>
    level_part (pool_look (pool ob')) lvl' (if w \<le> v then q else i # q) \<and>
    orders (pool_look (pool ob')) (if w \<le> v then q else i # q) =
      (if w \<le> v then orders (pool_look (pool ob)) q
       else (a, w - v) # orders (pool_look (pool ob)) q) \<and>
    lv_price lvl' = lv_price lvl \<and>
    book_frame ob ob' (if w \<le> v then {i} else {}) (set (i # q)) (if w \<le> v then {a} else {})"
proof -
  let ?h = "pool_look (pool ob)"
  from lp have lk: "linked ?h lvl (i # q)" and vol: "volumes_ok (orders ?h (i # q))"
    and tot: "total_volume lvl = wrap64 (volumes (orders ?h (i # q)))"
    by (auto simp: level_part_def)
  from linked_node [OF lk] obtain nd where nd: "?h i = Some nd" by auto
  have hd: "head lvl = i" and dst: "distinct (i # q)" using lk by (auto simp: linked_def)
  have aw': "r_id (nval nd) = a" "r_volume (nval nd) = w" using aw nd by (auto simp: order_of_def)
  have w: "0 < w" "w < 2 ^ 63" using vol aw by auto
  let ?t = "min v w"
  let ?nd = "nval_update (r_volume_update (\<lambda>_. w - ?t)) nd"
  have wr: "wrap64 (w - ?t) = w - ?t" "wrap64 (v - ?t) = v - ?t"
    using v w by (auto intro!: wrap64_id)
  from pool.modify_ok [OF inv nd, of "nval_update (r_volume_update (\<lambda>_. w - ?t))"] obtain p1 where
    p1: "pool_modify i (nval_update (r_volume_update (\<lambda>_. w - ?t))) (pool ob) = ok p1" "pool_inv p1"
    "capacity p1 = capacity (pool ob)" "pool_live p1 = pool_live (pool ob)"
    "pool_look p1 = ?h(i \<mapsto> ?nd)" by auto
  let ?l1 = "lvl\<lparr>total_volume := wrap64 (total_volume lvl - ?t)\<rparr>" and ?o1 = "ob\<lparr>pool := p1\<rparr>"
  have th: "take_head v lvl ob =
      chain (if w - ?t = 0 then pop_front ?l1 ?o1 else ok (?l1, ?o1))
        (\<lambda>(lvl2, ob2). ok (v - ?t, lvl2, ob2))"
    using p1(1)
    by (simp only: take_head_def hd pool_get_eq [OF nd] chain.simps Let_def aw'(2) wr)
  have lk1: "linked (pool_look p1) ?l1 (i # q)"
    using lk linked_value_upd [of ?h i nd ?nd lvl "i # q"] nd p1(5) by (simp add: linked_def)
  have oq: "orders (pool_look p1) q = orders ?h q"
    using p1(5) dst by (intro orders_cong) auto
  have oi: "order_of (pool_look p1) i = (a, w - ?t)"
    using p1(5) aw' by (simp add: order_of_def)
  have tot1: "total_volume ?l1 = wrap64 (w - ?t + volumes (orders ?h q))"
    using tot aw by (simp add: algebra_simps)
  have fr1: "book_frame ob ?o1 {} (set (i # q)) {}"
    using p1 by (simp add: book_frame_def restrict_map_UNIV)
  show ?thesis
  proof (cases "w \<le> v")
    case True
    then have z: "w - ?t = 0" by simp
    obtain lvl' ob' where pf: "pop_front ?l1 ?o1 = ok (lvl', ob')"
      "linked (pool_look (pool ob')) lvl' q" "lv_price lvl' = lv_price ?l1"
      "total_volume lvl' = total_volume ?l1"
      "orders (pool_look (pool ob')) q = orders (pool_look p1) q"
      "book_frame ?o1 ob' {i} (set q) {a}"
      using pop_front_spec [of ?o1 ?l1 i q] lk1 p1(2,4) live anon oi by auto
    have "book_frame ob ob' {i} (set (i # q)) {a}"
      using book_frame_trans [OF fr1 pf(6), of "set (i # q)"] by auto
    then show ?thesis
      using True th z pf oq vol tot1 by (simp add: level_part_def)
  next
    case False
    then have "w - ?t \<noteq> 0" "?t = v" by simp_all
    moreover have "level_part (pool_look p1) ?l1 (i # q)"
      using lk1 False vol v oi oq tot1 w \<open>?t = v\<close> by (simp add: level_part_def)
    ultimately show ?thesis
      using False th fr1 oi oq by simp
  qed
qed

text \<open>One turn of the matching loop is one turn of the reducing loop that also records a trade.\<close>

lemma fill_head_take_head:
  assumes "level_part (pool_look (pool ob)) lvl (i # q)"
    and "order_of (pool_look (pool ob)) i = (a, w)"
  shows "fill_head b v lvl ob ts = chain (take_head v lvl ob) (\<lambda>(v', lvl', ob').
    ok (v', lvl', ob', ts @ [\<lparr>aggressor = b, resting = a, tprice = lv_price lvl, tvolume = min v w\<rparr>]))"
proof -
  let ?h = "pool_look (pool ob)"
  from assms(1) have lk: "linked ?h lvl (i # q)" by (simp add: level_part_def)
  from linked_node [OF lk] obtain nd where nd: "?h i = Some nd" by auto
  have hd: "head lvl = i" using lk by (auto simp: linked_def)
  have aw: "r_id (nval nd) = a" "r_volume (nval nd) = w" using assms(2) nd by (auto simp: order_of_def)
  let ?c = "wrap64 (w - min v w)"
  have m: "pool_modify i (nval_update (\<lambda>_. (nval nd)\<lparr>r_volume := ?c\<rparr>)) (pool ob) =
      pool_modify i (nval_update (r_volume_update (\<lambda>_. ?c))) (pool ob)"
    by (rule pool_modify_cong [OF nd]) simp
  have sel: "r_volume ((nval nd)\<lparr>r_volume := ?c\<rparr>) = ?c" by simp
  show ?thesis
    unfolding fill_head_def take_head_def hd pool_get_eq [OF nd] chain.simps Let_def aw m sel
      chain_assoc
    by (simp add: split_def)
qed

section \<open>The loops over one level\<close>

abbreviation ids :: "aorder list \<Rightarrow> order_id list" where
  "ids q \<equiv> map fst q"

lemma orders_part:
  assumes "orders h' q = orders h q"
  shows "orders h' (drop k q) = orders h (drop k q)" "orders h' (take k q) = orders h (take k q)"
  using assms by (metis orders_def drop_map, metis orders_def take_map)

text \<open>After the head of a queue is gone the rest of the loop has what it needs, and its effect composes.\<close>

lemma head_gone:
  assumes "level_part (pool_look (pool ob)) lvl (i # q)" "pool_inv (pool ob)"
    and "set (i # q) \<subseteq> pool_live (pool ob)" "index ob kAnonymous = None" "v < 2 ^ 63"
    and aw: "order_of (pool_look (pool ob)) i = (a, w)"
    and fr: "book_frame ob ob1 {i} (set (i # q)) {a}"
    and oq: "orders (pool_look (pool ob1)) q = orders (pool_look (pool ob)) q"
  shows "pool_inv (pool ob1)" "set q \<subseteq> pool_live (pool ob1)" "index ob1 kAnonymous = None" "v - w < 2 ^ 63"
    "orders (pool_look (pool ob1)) (drop k q) = orders (pool_look (pool ob)) (drop k q)"
    "orders (pool_look (pool ob1)) (take k q) = orders (pool_look (pool ob)) (take k q)"
    "book_frame ob1 ob' (set (take k q)) (set q) (set (ids (orders (pool_look (pool ob1)) (take k q)))) \<Longrightarrow>
      book_frame ob ob' (set (take (Suc k) (i # q))) (set (i # q))
        (set (ids (orders (pool_look (pool ob)) (take (Suc k) (i # q)))))"
proof -
  have "distinct (i # q)" using assms(1) by (simp add: level_part_def linked_def)
  then show "pool_inv (pool ob1)" "set q \<subseteq> pool_live (pool ob1)" "index ob1 kAnonymous = None"
    using fr assms(3,4) by (auto simp: book_frame_def restrict_map_def)
  show "v - w < 2 ^ 63" using assms(1,5) aw by (auto simp: level_part_def)
  show o: "orders (pool_look (pool ob1)) (drop k q) = orders (pool_look (pool ob)) (drop k q)"
    "orders (pool_look (pool ob1)) (take k q) = orders (pool_look (pool ob)) (take k q)" for k
    using orders_part [OF oq] by simp_all
  show "book_frame ob ob' (set (take (Suc k) (i # q))) (set (i # q))
      (set (ids (orders (pool_look (pool ob)) (take (Suc k) (i # q)))))"
    if "book_frame ob1 ob' (set (take k q)) (set q) (set (ids (orders (pool_look (pool ob1)) (take k q))))"
    using book_frame_trans [OF fr that, of "set (i # q)"] o [of k] aw by auto
qed

text \<open>
  The two loops that take volume: they return, they leave the queue the abstract functions leave,
  and they release exactly the nodes of the orders that were used up (the first \<open>k\<close>).
\<close>

lemma delete_loop_spec:
  assumes "level_part (pool_look (pool ob)) lvl q" "pool_inv (pool ob)"
    and "set q \<subseteq> pool_live (pool ob)" "index ob kAnonymous = None" "v < 2 ^ 63"
  shows "\<exists>lvl' ob' k. delete_loop v lvl ob = ok (lvl', ob') \<and> k \<le> length q \<and>
    orders (pool_look (pool ob')) (drop k q) = drain v (orders (pool_look (pool ob)) q) \<and>
    ids (orders (pool_look (pool ob')) (drop k q)) = ids (orders (pool_look (pool ob)) (drop k q)) \<and>
    level_part (pool_look (pool ob')) lvl' (drop k q) \<and> lv_price lvl' = lv_price lvl \<and>
    book_frame ob ob' (set (take k q)) (set q) (set (ids (orders (pool_look (pool ob)) (take k q))))"
  using assms
proof (induction q arbitrary: lvl ob v)
  case Nil
  then have "head lvl = kNull" by (simp add: level_part_def linked_def)
  then have "delete_loop v lvl ob = ok (lvl, ob)" by (simp add: delete_loop.simps)
  with Nil show ?case by (simp add: book_frame_refl)
next
  case (Cons i q)
  let ?h = "pool_look (pool ob)"
  show ?case
  proof (cases "0 < v")
    case False
    then have "delete_loop v lvl ob = ok (lvl, ob)" by (simp add: delete_loop.simps)
    moreover have "drain v (orders ?h (i # q)) = orders ?h (i # q)"
      using False by (cases "order_of ?h i") simp
    ultimately show ?thesis
      using Cons.prems by (intro exI [of _ lvl] exI [of _ ob] exI [of _ 0]) (simp add: book_frame_refl)
  next
    case True
    obtain a w where aw: "order_of ?h i = (a, w)" by (cases "order_of ?h i")
    have hd: "head lvl \<noteq> kNull"
      using Cons.prems(1) linked_head_null by (auto simp: level_part_def)
    obtain lvl1 ob1 where st: "take_head v lvl ob = ok (v - min v w, lvl1, ob1)"
      "level_part (pool_look (pool ob1)) lvl1 (if w \<le> v then q else i # q)"
      "orders (pool_look (pool ob1)) (if w \<le> v then q else i # q) =
        (if w \<le> v then orders ?h q else (a, w - v) # orders ?h q)"
      "lv_price lvl1 = lv_price lvl"
      "book_frame ob ob1 (if w \<le> v then {i} else {}) (set (i # q)) (if w \<le> v then {a} else {})"
      using take_head_spec [OF Cons.prems(1-4) True Cons.prems(5) aw] by blast
    have unf: "delete_loop v lvl ob = delete_loop (v - min v w) lvl1 ob1"
      using True hd st(1) by (simp add: delete_loop.simps [of v lvl ob])
    show ?thesis
    proof (cases "w \<le> v")
      case w: True
      have fr: "book_frame ob ob1 {i} (set (i # q)) {a}" and oq: "orders (pool_look (pool ob1)) q = orders ?h q"
        and part: "level_part (pool_look (pool ob1)) lvl1 q" using st(2,3,5) w by simp_all
      note gone = head_gone [OF Cons.prems aw fr oq]
      obtain lvl' ob' k where r: "delete_loop (v - w) lvl1 ob1 = ok (lvl', ob')" "k \<le> length q"
        "orders (pool_look (pool ob')) (drop k q) = drain (v - w) (orders (pool_look (pool ob1)) q)"
        "ids (orders (pool_look (pool ob')) (drop k q)) = ids (orders (pool_look (pool ob1)) (drop k q))"
        "level_part (pool_look (pool ob')) lvl' (drop k q)" "lv_price lvl' = lv_price lvl1"
        "book_frame ob1 ob' (set (take k q)) (set q) (set (ids (orders (pool_look (pool ob1)) (take k q))))"
        using Cons.IH [OF part gone(1-4)] by blast
      from gone(7) [OF r(7)]
      show ?thesis
        using r st(4) unf w True oq gone(5,6) aw
        by (intro exI [of _ lvl'] exI [of _ ob'] exI [of _ "Suc k"]) simp
    next
      case w: False
      have "delete_loop (v - min v w) lvl1 ob1 = ok (lvl1, ob1)"
        using w by (simp add: delete_loop.simps)
      then show ?thesis
        using st unf w True aw
        by (intro exI [of _ lvl1] exI [of _ ob1] exI [of _ 0]) simp
    qed
  qed
qed

lemma match_level_spec:
  assumes "level_part (pool_look (pool ob)) lvl q" "pool_inv (pool ob)"
    and "set q \<subseteq> pool_live (pool ob)" "index ob kAnonymous = None" "v < 2 ^ 63"
  shows "\<exists>v' lvl' ob' k tr. match_level b v lvl ob ts = ok (v', lvl', ob', ts @ tr) \<and>
    k \<le> length q \<and>
    fill_queue b (lv_price lvl) v (orders (pool_look (pool ob)) q) =
      (v', orders (pool_look (pool ob')) (drop k q), tr) \<and>
    ids (orders (pool_look (pool ob')) (drop k q)) = ids (orders (pool_look (pool ob)) (drop k q)) \<and>
    level_part (pool_look (pool ob')) lvl' (drop k q) \<and> lv_price lvl' = lv_price lvl \<and>
    book_frame ob ob' (set (take k q)) (set q) (set (ids (orders (pool_look (pool ob)) (take k q))))"
  using assms
proof (induction q arbitrary: lvl ob v ts)
  case Nil
  then have "head lvl = kNull" by (simp add: level_part_def linked_def)
  then have "match_level b v lvl ob ts = ok (v, lvl, ob, ts @ [])" by (simp add: match_level.simps)
  with Nil show ?case by (simp add: book_frame_refl)
next
  case (Cons i q)
  let ?h = "pool_look (pool ob)"
  show ?case
  proof (cases "0 < v")
    case False
    then have "match_level b v lvl ob ts = ok (v, lvl, ob, ts @ [])" by (simp add: match_level.simps)
    moreover have "fill_queue b (lv_price lvl) v (orders ?h (i # q)) = (v, orders ?h (i # q), [])"
      using False by (cases "order_of ?h i") (simp add: fill_queue_step)
    ultimately show ?thesis
      using Cons.prems
      by (intro exI [of _ v] exI [of _ lvl] exI [of _ ob] exI [of _ 0] exI [of _ "[]"])
        (simp add: book_frame_refl)
  next
    case True
    obtain a w where aw: "order_of ?h i = (a, w)" by (cases "order_of ?h i")
    have hd: "head lvl \<noteq> kNull"
      using Cons.prems(1) linked_head_null by (auto simp: level_part_def)
    obtain lvl1 ob1 where st: "take_head v lvl ob = ok (v - min v w, lvl1, ob1)"
      "level_part (pool_look (pool ob1)) lvl1 (if w \<le> v then q else i # q)"
      "orders (pool_look (pool ob1)) (if w \<le> v then q else i # q) =
        (if w \<le> v then orders ?h q else (a, w - v) # orders ?h q)"
      "lv_price lvl1 = lv_price lvl"
      "book_frame ob ob1 (if w \<le> v then {i} else {}) (set (i # q)) (if w \<le> v then {a} else {})"
      using take_head_spec [OF Cons.prems(1-4) True Cons.prems(5) aw] by blast
    let ?t = "\<lparr>aggressor = b, resting = a, tprice = lv_price lvl, tvolume = min v w\<rparr>"
    have unf: "match_level b v lvl ob ts = match_level b (v - min v w) lvl1 ob1 (ts @ [?t])"
      using True hd st(1) fill_head_take_head [OF Cons.prems(1) aw, of b v ts]
      by (simp add: match_level.simps [of b v lvl ob ts])
    show ?thesis
    proof (cases "w \<le> v")
      case w: True
      have fr: "book_frame ob ob1 {i} (set (i # q)) {a}" and oq: "orders (pool_look (pool ob1)) q = orders ?h q"
        and part: "level_part (pool_look (pool ob1)) lvl1 q" using st(2,3,5) w by simp_all
      note gone = head_gone [OF Cons.prems aw fr oq]
      obtain v' lvl' ob' k tr where
        r: "match_level b (v - w) lvl1 ob1 (ts @ [?t]) = ok (v', lvl', ob', (ts @ [?t]) @ tr)"
        "k \<le> length q"
        "fill_queue b (lv_price lvl1) (v - w) (orders (pool_look (pool ob1)) q) =
          (v', orders (pool_look (pool ob')) (drop k q), tr)"
        "ids (orders (pool_look (pool ob')) (drop k q)) = ids (orders (pool_look (pool ob1)) (drop k q))"
        "level_part (pool_look (pool ob')) lvl' (drop k q)" "lv_price lvl' = lv_price lvl1"
        "book_frame ob1 ob' (set (take k q)) (set q) (set (ids (orders (pool_look (pool ob1)) (take k q))))"
        using Cons.IH [OF part gone(1-4), of "ts @ [?t]"] by blast
      from gone(7) [OF r(7)]
      show ?thesis
        using r st(4) unf w True oq gone(5,6) aw
        by (intro exI [of _ v'] exI [of _ lvl'] exI [of _ ob'] exI [of _ "Suc k"] exI [of _ "?t # tr"])
          (simp add: fill_queue_step)
    next
      case w: False
      have "match_level b (v - min v w) lvl1 ob1 (ts @ [?t]) = ok (v - min v w, lvl1, ob1, ts @ [?t])"
        using w by (simp add: match_level.simps)
      then show ?thesis
        using st unf w True aw
        by (intro exI [of _ "v - min v w"] exI [of _ lvl1] exI [of _ ob1] exI [of _ 0] exI [of _ "[?t]"])
          (simp add: fill_queue_step)
    qed
  qed
qed

lemma clear_level_spec:
  assumes "linked (pool_look (pool ob)) lvl q" "pool_inv (pool ob)"
    and "set q \<subseteq> pool_live (pool ob)" "index ob kAnonymous = None"
  shows "\<exists>lvl' ob'. clear_level lvl ob = ok (lvl', ob') \<and>
    book_frame ob ob' (set q) (set q) (set (ids (orders (pool_look (pool ob)) q)))"
  using assms
proof (induction q arbitrary: lvl ob)
  case Nil
  then have "head lvl = kNull" by (simp add: linked_def)
  then have "clear_level lvl ob = ok (lvl, ob)" by (simp add: clear_level.simps)
  with Nil show ?case by (simp add: book_frame_refl)
next
  case (Cons i q)
  have hd: "head lvl \<noteq> kNull" using Cons.prems(1) linked_head_null by blast
  have dst: "distinct (i # q)" using Cons.prems(1) by (simp add: linked_def)
  obtain lvl1 ob1 where st: "pop_front lvl ob = ok (lvl1, ob1)" "linked (pool_look (pool ob1)) lvl1 q"
    "orders (pool_look (pool ob1)) q = orders (pool_look (pool ob)) q"
    "book_frame ob ob1 {i} (set q) {fst (order_of (pool_look (pool ob)) i)}"
    using pop_front_spec [OF Cons.prems] by blast
  have "set q \<subseteq> pool_live (pool ob1)"
    using st(4) Cons.prems(3) dst by (auto simp: book_frame_def)
  moreover have "pool_inv (pool ob1)" "index ob1 kAnonymous = None"
    using st(4) Cons.prems(4) by (auto simp: book_frame_def restrict_map_def)
  ultimately obtain lvl' ob' where "clear_level lvl1 ob1 = ok (lvl', ob')"
    "book_frame ob1 ob' (set q) (set q) (set (ids (orders (pool_look (pool ob1)) q)))"
    using Cons.IH [OF st(2)] by blast
  moreover have "clear_level lvl ob = clear_level lvl1 ob1"
    using hd st(1) by (simp add: clear_level.simps [of lvl ob])
  ultimately show ?case
    using book_frame_trans [OF st(4), of ob' "set q" "set q" _ "set (i # q)"] st(3) by auto
qed

lemma free_chain_spec:
  assumes "dseg (pool_look p) pr q kNull" "distinct q" "set q \<subseteq> pool_live p" "pool_inv p"
  shows "free_chain (hd (q @ [kNull])) p = ok (fold pool_deallocate q p)"
  using assms
proof (induction q arbitrary: pr p)
  case Nil
  then show ?case by (simp add: free_chain.simps)
next
  case (Cons i q)
  from Cons.prems(1) obtain nd where nd: "pool_look p i = Some nd" "nnext nd = hd (q @ [kNull])"
    "0 \<le> i" "dseg (pool_look p) i q kNull" by auto
  have d: "pool_inv (pool_deallocate i p)" "pool_live (pool_deallocate i p) = pool_live p - {i}"
    "pool_look (pool_deallocate i p) = pool_look p"
    using pool_deallocate_ok [of p i] Cons.prems by auto
  have "free_chain (hd (q @ [kNull])) (pool_deallocate i p) = ok (fold pool_deallocate q (pool_deallocate i p))"
    using Cons.prems d nd by (intro Cons.IH) auto
  then show ?case using nd by (simp add: free_chain.simps [of i p] pool_get_eq)
qed

end
