(* ===== verification/Book_Matching.thy ===== *)
theory Book_Matching
  imports Book_Steps
begin

text \<open>
  The code refines the abstract book: resting an order, matching and \<open>place_order\<close>. A lemma about
  an operation gives that it returns, that the representation holds again, and which abstract
  operation it is.
\<close>

section \<open>Changing one existing level\<close>

text \<open>An index entry whose node lies in a level's queue points to that level.\<close>

lemma zip_middle_unique:
  fixes q :: "int list"
  assumes "distinct (concat (QA @ q # QB))" "x \<in> set q" "length QA = length A"
    and "(l, r) \<in> set (zip (A @ l0 # B) (QA @ q # QB))" "x \<in> set r"
  shows "l = l0 \<and> r = q"
proof -
  have "x \<notin> nodes_in QA" "x \<notin> nodes_in QB"
    using assms(1,2) by auto
  then have "(l, r) \<notin> set (zip A QA)" "(l, r) \<notin> set (zip B QB)"
    using assms(5) by (auto dest: set_zip_rightD)
  with assms(3,4) show ?thesis by auto
qed

lemma located_in_level:
  assumes rep: "book_rep ob Q" and loc: "located ob Q i loc"
    and lv: "side_levels s ob = A @ l # B" "Q s = QA @ q # QB" "length QA = length A"
    and n: "loc_node loc \<in> set q"
  shows "loc_side loc = s" "loc_price loc = lv_price l" "i \<noteq> kAnonymous"
    "fst (order_of (pool_look (pool ob)) (loc_node loc)) = i"
proof -
  from loc obtain l' r where i: "i \<noteq> kAnonymous"
    and lr: "(l', r) \<in> set (zip (side_levels (loc_side loc) ob) (Q (loc_side loc)))"
    and m: "lv_price l' = loc_price loc" "loc_node loc \<in> set r"
    and f: "fst (order_of (pool_look (pool ob)) (loc_node loc)) = i"
    unfolding located_def by auto
  have "loc_node loc \<in> nodes_in (Q (loc_side loc))" using m(2) lr by (auto dest: set_zip_rightD)
  moreover have "loc_node loc \<in> nodes_in (Q s)" using n lv(2) by simp
  ultimately show s: "loc_side loc = s"
    using book_repD(5) [OF rep, of s] side_cases_opposed [of "loc_side loc" s]
    by (metis disjoint_iff)
  have "distinct (concat (QA @ q # QB))" using book_repD(4) [OF rep, of s] lv(2) by simp
  from zip_middle_unique [OF this n lv(3) _ m(2), of l' l B] lr s lv(1,2) have "l' = l" by simp
  with m show "loc_price loc = lv_price l" by simp
  show "i \<noteq> kAnonymous" "fst (order_of (pool_look (pool ob)) (loc_node loc)) = i" by fact+
qed

lemma sorted_before_middle:
  assumes "sorted_wrt (before s) (map lv_price (A @ l # B))"
  shows "\<forall>a \<in> set A. before s (lv_price a) (lv_price l)"
    "\<forall>b \<in> set B. before s (lv_price l) (lv_price b)"
  using assms by (auto simp: sorted_wrt_append)

text \<open>
  The common shape of matching, reducing, cancelling and setting a level: the queue \<open>q\<close> of one
  level becomes \<open>q'\<close>, some of its nodes are returned to the pool, everything else stays.
\<close>

lemma book_rep_shrink:
  assumes rep: "book_rep ob Q"
    and lv: "side_levels s ob = A @ l # B" "Q s = QA @ q # QB" "length QA = length A"
    and sides: "\<And>t. side_levels t ob' = side_levels t ob"
    and inv: "pool_inv (pool ob')"
    and frame: "\<And>j. j \<notin> set q \<Longrightarrow> pool_look (pool ob') j = pool_look (pool ob) j"
    and live: "pool_live (pool ob') = pool_live (pool ob) - (set q - set q')"
    and q': "set q' \<subseteq> set q" "level_part (pool_look (pool ob')) l' q'" "lv_price l' = lv_price l"
    and idq: "\<And>n. n \<in> set q' \<Longrightarrow> fst (order_of (pool_look (pool ob')) n) =
        fst (order_of (pool_look (pool ob)) n)"
    and idx: "\<And>i loc. index ob' i = Some loc \<Longrightarrow>
        index ob i = Some loc \<and> loc_node loc \<notin> set q - set q'"
    and f: "f (orders (pool_look (pool ob)) q) = orders (pool_look (pool ob')) q'"
  defines "L' \<equiv> if q' = [] then [] else [l']"
  shows "book_rep (set_side_levels s (A @ L' @ B) ob') (Q(s := QA @ (if q' = [] then [] else [q']) @ QB))"
    and "abs_book (set_side_levels s (A @ L' @ B) ob') =
      (abs_book ob)(s := upd_level (before s) (lv_price l) f (abs_book ob s))"
proof -
  let ?h = "pool_look (pool ob)" and ?h' = "pool_look (pool ob')"
  let ?QL' = "if q' = [] then [] else [q']"
  have obeq: "ob' = ob\<lparr>pool := pool ob', index := index ob'\<rparr>" by (rule book_eqI [OF sides])
  have dq': "distinct q'" using q'(2) by (simp add: level_part_def linked_def)
  have qlive: "set q \<subseteq> pool_live (pool ob)" using book_rep_nodes_live [OF rep, of q s] lv(2) by simp
  have nodes': "nodes_in ?QL' = set q'" by simp
  have l2: "list_all2 (level_rep ?h) (A @ l # B) (QA @ q # QB)"
    using book_repD(2) [OF rep, of s] lv by simp
  then have lenB: "length B = length QB" using lv(3) by (auto dest: list_all2_lengthD)
  have sorted: "sorted_wrt (before s) (map lv_price (A @ l # B))"
    using book_repD(3) [OF rep, of s] lv(1) by simp
  note sp = book_rep_splice [where ob = ob and Q = Q and s = s and A = A and L = "[l]" and B = B
      and QA = QA and QL = "[q]" and QB = QB and p' = "pool ob'" and L' = L' and QL' = ?QL'
      and idx = "index ob'"]
  have prem: "list_all2 (level_rep ?h') L' ?QL'"
    using q'(2) by (simp add: L'_def level_rep_part)
  have prem_sorted: "sorted_wrt (before s) (map lv_price (A @ L' @ B))"
    using sorted q'(3) by (auto simp: L'_def sorted_wrt_append)
  have prem_idx: "(index ob i = Some loc \<and> loc_node loc \<notin> nodes_in [q]) \<or>
      (i \<noteq> kAnonymous \<and> loc_side loc = s \<and> (\<exists>(l, q) \<in> set (zip L' ?QL'). lv_price l = loc_price loc \<and>
         loc_node loc \<in> set q \<and> fst (order_of ?h' (loc_node loc)) = i))"
    if "index ob' i = Some loc" for i loc
  proof (cases "loc_node loc \<in> set q")
    case True
    from idx [OF that] True have o: "index ob i = Some loc" "loc_node loc \<in> set q'" by auto
    note li = located_in_level [OF rep book_repD(7) [OF rep o(1)] lv True]
    from o(2) have "q' \<noteq> []" by auto
    then show ?thesis using li o(2) idq [OF o(2)] q'(3) by (simp add: L'_def)
  qed (use idx [OF that] in simp)
  have spl: "book_rep (set_side_levels s (A @ L' @ B) (ob\<lparr>pool := pool ob', index := index ob'\<rparr>))
        (Q(s := QA @ ?QL' @ QB))"
    "abs_book (set_side_levels s (A @ L' @ B) (ob\<lparr>pool := pool ob', index := index ob'\<rparr>)) =
      (abs_book ob)(s := abs_levels ?h A QA @ abs_levels ?h' L' ?QL' @ abs_levels ?h B QB)"
    using rep lv inv frame live qlive q'(1) dq' prem prem_sorted prem_idx nodes'
    by (intro sp; auto)+
  show "book_rep (set_side_levels s (A @ L' @ B) ob') (Q(s := QA @ ?QL' @ QB))"
    using spl(1) obeq by metis
  have a: "abs_book ob s = abs_levels ?h A QA @ (lv_price l, orders ?h q) # abs_levels ?h B QB"
    using abs_book_eq [OF rep, of s] lv by simp
  have bef: "\<forall>x \<in> set (abs_levels ?h A QA). before s (fst x) (lv_price l)"
    using sorted_before_middle(1) [OF sorted] by (auto simp: abs_levels_def dest: set_zip_leftD)
  have "upd_level (before s) (lv_price l) f (abs_book ob s) =
      abs_levels ?h A QA @ abs_levels ?h' L' ?QL' @ abs_levels ?h B QB"
    unfolding a using side_order.upd_level_hit [OF bef, of f] f q'(3) by (simp add: L'_def)
  then show "abs_book (set_side_levels s (A @ L' @ B) ob') =
      (abs_book ob)(s := upd_level (before s) (lv_price l) f (abs_book ob s))"
    using spl(2) obeq by metis
qed

section \<open>Matching\<close>

definition level_ids :: "alevel list \<Rightarrow> order_id list" where
  "level_ids ls = concat (map (ids \<circ> snd) ls)"

lemma level_ids_simps [simp]:
  "level_ids [] = []" "level_ids ((p, q) # ls) = ids q @ level_ids ls"
  "level_ids (ls @ ms) = level_ids ls @ level_ids ms"
  by (simp_all add: level_ids_def)

lemma crosses_acceptable: "crosses s p b \<longleftrightarrow> acceptable s p b"
  by (cases s) (auto simp: crosses_def acceptable_def)

lemma index_anonymous: "book_rep ob Q \<Longrightarrow> index ob kAnonymous = None"
  using book_repD(7) [of ob Q kAnonymous] by (cases "index ob kAnonymous") (auto simp: located_def)

lemma fst_order_of_eqI:
  assumes "ids (orders h' q) = ids (orders h q)" "n \<in> set q"
  shows "fst (order_of h' n) = fst (order_of h n)"
  using assms by (auto simp: orders_def)

lemma distinct_take_drop: "distinct q \<Longrightarrow> set q - set (drop k q) = set (take k q)"
  using set_take_disj_set_drop_if_distinct [of q k k] by (auto dest: in_set_takeD in_set_dropD)
    (metis UnE append_take_drop_id set_append)

lemma match_front_level:
  assumes rep: "book_rep ob Q" and v: "v < 2 ^ 63"
    and lv: "side_levels t ob = lvl # ls" "Q t = q # qs"
  shows "\<exists>v' lvl' ob1 k tr. match_level b v lvl ob ts = ok (v', lvl', ob1, ts @ tr) \<and>
    fill_queue b (lv_price lvl) v (orders (pool_look (pool ob)) q) =
      (v', orders (pool_look (pool ob1)) (drop k q), tr) \<and>
    (head lvl' = kNull \<longleftrightarrow> drop k q = []) \<and>
    book_rep (set_side_levels t (if head lvl' = kNull then ls else lvl' # ls) ob1)
      (Q(t := (if drop k q = [] then qs else drop k q # qs))) \<and>
    abs_book (set_side_levels t (if head lvl' = kNull then ls else lvl' # ls) ob1) =
      (abs_book ob)(t := (if drop k q = [] then tl (abs_book ob t)
         else (lv_price lvl, orders (pool_look (pool ob1)) (drop k q)) # tl (abs_book ob t))) \<and>
    index ob1 = index ob |` (- set (ids (orders (pool_look (pool ob)) (take k q)))) \<and>
    ids (orders (pool_look (pool ob1)) (drop k q)) = ids (orders (pool_look (pool ob)) (drop k q)) \<and>
    capacity (pool ob1) = capacity (pool ob) \<and> pool_live (pool ob1) \<subseteq> pool_live (pool ob)"
proof -
  let ?h = "pool_look (pool ob)"
  have l2: "list_all2 (level_rep ?h) (lvl # ls) (q # qs)" using book_repD(2) [OF rep, of t] lv by simp
  then have lr: "level_rep ?h lvl q" by simp
  then have lp: "level_part ?h lvl q" and qne: "q \<noteq> []" by (simp_all add: level_rep_part)
  have qlive: "set q \<subseteq> pool_live (pool ob)" using book_rep_nodes_live [OF rep, of q t] lv by simp
  have dst: "distinct q" using lp by (simp add: level_part_def linked_def)
  obtain v' lvl' ob1 k tr where m: "match_level b v lvl ob ts = ok (v', lvl', ob1, ts @ tr)"
    "k \<le> length q"
    "fill_queue b (lv_price lvl) v (orders ?h q) = (v', orders (pool_look (pool ob1)) (drop k q), tr)"
    "ids (orders (pool_look (pool ob1)) (drop k q)) = ids (orders ?h (drop k q))"
    "level_part (pool_look (pool ob1)) lvl' (drop k q)" "lv_price lvl' = lv_price lvl"
    and fr: "book_frame ob ob1 (set (take k q)) (set q) (set (ids (orders ?h (take k q))))"
    using match_level_spec [OF lp book_repD(1) [OF rep] qlive index_anonymous [OF rep] v, of b ts]
    by blast
  note td = distinct_take_drop [OF dst, of k]
  have hdn: "head lvl' = kNull \<longleftrightarrow> drop k q = []"
    using m(5) linked_head_null by (auto simp: level_part_def)
  have idx: "index ob i = Some loc \<and> loc_node loc \<notin> set q - set (drop k q)"
    if "index ob1 i = Some loc" for i loc
  proof -
    from that fr have o: "index ob i = Some loc" "i \<notin> set (ids (orders ?h (take k q)))"
      by (auto simp: book_frame_def restrict_map_def split: if_splits)
    have "loc_node loc \<notin> set (take k q)"
    proof
      assume n: "loc_node loc \<in> set (take k q)"
      then have "loc_node loc \<in> set q" by (rule in_set_takeD)
      from located_in_level(4) [OF rep book_repD(7) [OF rep o(1)], of t "[]" lvl ls "[]" q qs] lv this
      have "fst (order_of ?h (loc_node loc)) = i" by simp
      with n o(2) show False by (auto simp: orders_def)
    qed
    with o(1) td show ?thesis by simp
  qed
  note sh = book_rep_shrink [where ob = ob and Q = Q and s = t and A = "[]" and l = lvl and B = ls
      and QA = "[]" and q = q and QB = qs and ob' = ob1 and q' = "drop k q" and l' = lvl'
      and f = "\<lambda>_. orders (pool_look (pool ob1)) (drop k q)", simplified append_Nil]
  have rep1: "book_rep (set_side_levels t ((if drop k q = [] then [] else [lvl']) @ ls) ob1)
        (Q(t := (if drop k q = [] then [] else [drop k q]) @ qs))"
    and abs1: "abs_book (set_side_levels t ((if drop k q = [] then [] else [lvl']) @ ls) ob1) =
      (abs_book ob)(t := upd_level (before t) (lv_price lvl)
        (\<lambda>_. orders (pool_look (pool ob1)) (drop k q)) (abs_book ob t))"
    using rep lv fr idx m(5,6) fst_order_of_eqI [OF m(4)] td
    by (intro sh; auto simp: book_frame_def dest: in_set_dropD)+
  have ab: "abs_book ob t = (lv_price lvl, orders ?h q) # tl (abs_book ob t)"
    using abs_book_eq [OF rep, of t] lv by simp
  have "upd_level (before t) (lv_price lvl) g (abs_book ob t) =
      (if g (orders ?h q) = [] then tl (abs_book ob t) else (lv_price lvl, g (orders ?h q)) # tl (abs_book ob t))" for g
    by (subst ab) (simp add: side_order.po_irrefl)
  then show ?thesis
    using m rep1 abs1 hdn fr by (intro exI [of _ v'] exI [of _ lvl'] exI [of _ ob1] exI [of _ k] exI [of _ tr])
      (auto simp: book_frame_def)
qed

lemma match_spec:
  assumes "book_rep ob Q" "v < 2 ^ 63"
  shows "\<exists>v' ob' Q' tr P. match b s p v ob ts = ok (v', ob', ts @ tr) \<and> book_rep ob' Q' \<and>
    sweep (acceptable s p) b v (abs_book ob (opposed s)) = (v', abs_book ob' (opposed s), tr) \<and>
    abs_book ob' s = abs_book ob s \<and> capacity (pool ob') = capacity (pool ob) \<and>
    pool_live (pool ob') \<subseteq> pool_live (pool ob) \<and>
    level_ids (abs_book ob (opposed s)) = P @ level_ids (abs_book ob' (opposed s)) \<and>
    index ob' = index ob |` (- set P)"
  using assms
proof (induction "side_levels (opposed s) ob" arbitrary: ob Q v ts)
  case Nil
  then have "match b s p v ob ts = ok (v, ob, ts @ [])" by (simp add: match.simps [of b s p v ob])
  moreover have "abs_book ob (opposed s) = []" using Nil(1) by (simp add: abs_book_def)
  ultimately show ?case
    using Nil.prems
    by (intro exI [of _ v] exI [of _ ob] exI [of _ Q] exI [of _ "[]"] exI [of _ "[]"])
      (simp add: restrict_map_UNIV)
next
  case (Cons lvl ls)
  let ?t = "opposed s" and ?h = "pool_look (pool ob)"
  note sl = Cons.hyps(2) [symmetric]
  obtain q qs where Q: "Q ?t = q # qs" and lr: "level_rep ?h lvl q"
    using book_repD(2) [OF Cons.prems(1), of ?t] sl by (auto simp: list_all2_Cons1)
  have ab: "abs_book ob ?t = (lv_price lvl, orders ?h q) # tl (abs_book ob ?t)"
    using abs_book_eq [OF Cons.prems(1), of ?t] sl Q by simp
  show ?case
  proof (cases "0 < v \<and> crosses s p (lv_price lvl)")
    case False
    then have "match b s p v ob ts = ok (v, ob, ts @ [])" by (auto simp: match.simps [of b s p v ob] sl)
    moreover have "sweep (acceptable s p) b v (abs_book ob ?t) = (v, abs_book ob ?t, [])"
      by (subst (1 2) ab) (use False in \<open>auto simp: crosses_acceptable\<close>)
    ultimately show ?thesis
      using Cons.prems
      by (intro exI [of _ v] exI [of _ ob] exI [of _ Q] exI [of _ "[]"] exI [of _ "[]"])
        (simp add: restrict_map_UNIV)
  next
    case True
    obtain v1 lvl1 ob1 k tr where m: "match_level b v lvl ob ts = ok (v1, lvl1, ob1, ts @ tr)"
      "fill_queue b (lv_price lvl) v (orders ?h q) = (v1, orders (pool_look (pool ob1)) (drop k q), tr)"
      "head lvl1 = kNull \<longleftrightarrow> drop k q = []"
      and rep1: "book_rep (set_side_levels ?t (if head lvl1 = kNull then ls else lvl1 # ls) ob1)
        (Q(?t := (if drop k q = [] then qs else drop k q # qs)))"
      and abs1: "abs_book (set_side_levels ?t (if head lvl1 = kNull then ls else lvl1 # ls) ob1) =
        (abs_book ob)(?t := (if drop k q = [] then tl (abs_book ob ?t)
         else (lv_price lvl, orders (pool_look (pool ob1)) (drop k q)) # tl (abs_book ob ?t)))"
      and idx1: "index ob1 = index ob |` (- set (ids (orders ?h (take k q))))"
      and idq: "ids (orders (pool_look (pool ob1)) (drop k q)) = ids (orders ?h (drop k q))"
      and cap1: "capacity (pool ob1) = capacity (pool ob)" "pool_live (pool ob1) \<subseteq> pool_live (pool ob)"
      using match_front_level [OF Cons.prems sl Q, of b ts] by blast
    let ?ob1 = "set_side_levels ?t (if head lvl1 = kNull then ls else lvl1 # ls) ob1"
    have unf: "match b s p v ob ts = match b s p v1 ?ob1 (ts @ tr)"
      using True sl m(1) by (simp add: match.simps [of b s p v ob])
    have pos: "\<forall>x \<in> set (orders ?h q). 0 < snd x" using lr by (simp add: level_rep_def)
    note left = fill_queue_left [OF m(2) pos]
    have ids_ob: "level_ids (abs_book ob ?t) = ids (orders ?h (take k q)) @ level_ids (abs_book ?ob1 ?t)"
    proof -
      have "orders ?h q = orders ?h (take k q) @ orders ?h (drop k q)"
        by (metis append_take_drop_id orders_simps(3))
      then show ?thesis
        by (subst ab) (use idq in \<open>auto simp: abs1\<close>)
    qed
    show ?thesis
    proof (cases "drop k q = []")
      case dr: True
      have "ls = side_levels ?t ?ob1" using m(3) dr by simp
      moreover have "v1 < 2 ^ 63" using left True Cons.prems(2) volumes_nonneg [OF pos] by linarith
      ultimately obtain v' ob' Q' tr2 P where
        IH: "match b s p v1 ?ob1 (ts @ tr) = ok (v', ob', (ts @ tr) @ tr2)" "book_rep ob' Q'"
        "sweep (acceptable s p) b v1 (abs_book ?ob1 ?t) = (v', abs_book ob' ?t, tr2)"
        "abs_book ob' s = abs_book ?ob1 s" "capacity (pool ob') = capacity (pool ?ob1)"
        "pool_live (pool ob') \<subseteq> pool_live (pool ?ob1)"
        "level_ids (abs_book ?ob1 ?t) = P @ level_ids (abs_book ob' ?t)"
        "index ob' = index ?ob1 |` (- set P)"
        using Cons.hyps(1) [of ?ob1 _ v1 "ts @ tr"] rep1 by blast
      have "sweep (acceptable s p) b v (abs_book ob ?t) = (v', abs_book ob' ?t, tr @ tr2)"
        by (subst ab) (use True IH(3) m(2) dr in \<open>simp add: crosses_acceptable abs1\<close>)
      moreover have "index ob' = index ob |` (- set (ids (orders ?h (take k q)) @ P))"
        using IH(8) idx1 by (simp add: Int_commute)
      ultimately show ?thesis
        using IH unf ids_ob cap1 abs1
        by (intro exI [of _ v'] exI [of _ ob'] exI [of _ Q'] exI [of _ "tr @ tr2"]
            exI [of _ "ids (orders ?h (take k q)) @ P"]) auto
    next
      case dr: False
      then have "v1 = 0" using left True by simp
      then have "match b s p v1 ?ob1 (ts @ tr) = ok (v1, ?ob1, ts @ tr)"
        by (subst match.simps) (simp split: list.split)
      moreover have "sweep (acceptable s p) b v (abs_book ob ?t) = (v1, abs_book ?ob1 ?t, tr)"
        by (subst ab) (use True m(2) dr in \<open>simp add: crosses_acceptable abs1\<close>)
      ultimately show ?thesis
        using rep1 unf ids_ob cap1 abs1 idx1
        by (intro exI [of _ v1] exI [of _ ?ob1] exI conjI) auto
    qed
  qed
qed

section \<open>Resting\<close>

lemma insert_level_sorted:
  assumes "sorted_wrt (before s) (map lv_price (A @ B))"
    and "\<forall>a \<in> set A. before s (lv_price a) p" "\<forall>b \<in> set B. before s p (lv_price b)"
    and "lv_price l = p"
  shows "sorted_wrt (before s) (map lv_price (A @ [l] @ B))"
  using assms by (auto simp: sorted_wrt_append)

lemma abs_before:
  "\<forall>a \<in> set A. before s (lv_price a) p \<Longrightarrow> \<forall>x \<in> set (abs_levels h A qs). before s (fst x) p"
  "\<forall>b \<in> set A. before s p (lv_price b) \<Longrightarrow> \<forall>x \<in> set (abs_levels h A qs). before s p (fst x)"
  by (auto simp: abs_levels_def dest: set_zip_leftD)

text \<open>The queue of a level after a new node was linked behind it.\<close>

lemma level_rep_push:
  assumes lr: "level_rep h l (q @ [t])" and fr: "n \<notin> set (q @ [t])"
    and seg: "dseg h' kNull (q @ [t, n]) kNull"
    and ord: "orders h' (q @ [t]) = orders h (q @ [t])" "order_of h' n = (i, v)"
    and v: "0 < v" "v < 2 ^ 63"
  shows "level_rep h' (l\<lparr>tail := n, total_volume := wrap64 (total_volume l + v)\<rparr>) (q @ [t, n])"
  using assms by (auto simp: level_rep_def linked_def hd_append algebra_simps)

text \<open>What \<open>rest\<close> owes its callers: the new order \<open>i\<close> of volume \<open>v\<close>, in a slot of its own.\<close>

definition rested :: "order_id \<Rightarrow> side \<Rightarrow> price \<Rightarrow> int \<Rightarrow> order_book \<Rightarrow> order_book \<Rightarrow> bool" where
  "rested i s p v ob ob' \<longleftrightarrow> (\<exists>Q'. book_rep ob' Q') \<and> abs_book ob' = spec_rest s p i v (abs_book ob) \<and>
     capacity (pool ob') = capacity (pool ob) \<and>
     (\<exists>n. n \<notin> pool_live (pool ob) \<and> pool_live (pool ob') = insert n (pool_live (pool ob)) \<and>
       index ob' = (if i = kAnonymous then index ob
         else (index ob)(i \<mapsto> \<lparr>loc_side = s, loc_price = p, loc_node = n\<rparr>)))"

lemma rest_behind:
  assumes rep: "book_rep ob Q" and v: "0 < v" "v < 2 ^ 63"
    and al: "pool_allocate \<lparr>r_id = i, r_volume = v\<rparr> (pool ob) = ok (n, p1)"
      "pool_inv p1" "capacity p1 = capacity (pool ob)" "0 \<le> n" "n \<notin> pool_live (pool ob)"
      "pool_live p1 = insert n (pool_live (pool ob))"
      "pool_look p1 = (pool_look (pool ob))(n \<mapsto> fresh_node \<lparr>r_id = i, r_volume = v\<rparr>)"
    and found: "side_levels s ob = A @ l # B" "Q s = QA @ q # QB" "length QA = length A" "length QB = length B"
      "lv_price l = p" "level_rep (pool_look (pool ob)) l q" "find_level (side_levels s ob) s p = ok (length A)"
      "\<forall>a \<in> set A. before s (lv_price a) p" "\<forall>b \<in> set B. before s p (lv_price b)"
  shows "\<exists>ob'. rest i s p v ob = ok ob' \<and> rested i s p v ob ob'"
proof -
  let ?h = "pool_look (pool ob)"
  let ?loc = "\<lparr>loc_side = s, loc_price = p, loc_node = n\<rparr>"
  let ?idx = "if i \<noteq> kAnonymous then (index ob)(i \<mapsto> ?loc) else index ob"
  have ord_n: "order_of (pool_look p1) n = (i, v)" using al(7) by (simp add: order_of_def fresh_node_def)
  have lr: "level_rep ?h l q" by (rule found(6))
  have qlive: "set q \<subseteq> pool_live (pool ob)"
    using book_rep_nodes_live [OF rep, of q s] found(2) by simp
  with al(5) have nq: "n \<notin> set q" by blast
  have qne: "q \<noteq> []" using lr by (simp add: level_rep_def)
  define q0 t where "q0 = butlast q" and "t = last q"
  have q: "q = q0 @ [t]" using qne by (simp add: q0_def t_def)
  have lk: "linked ?h l (q0 @ [t])" using lr q by (simp add: level_rep_def)
  then have tl: "tail l = t" "tail l \<noteq> kNull" using linked_tail_null [OF lk] by (auto simp: linked_def)
  have seg1: "dseg (pool_look p1) kNull (q0 @ [t]) kNull"
    using lk nq q dseg_upd_other [of n "q0 @ [t]" ?h] al(7) by (simp add: linked_def)
  have dst: "distinct (q0 @ [t])" using lk by (simp add: linked_def)
  from pool.hook_behind [OF al(2) seg1 dst, of n "fresh_node \<lparr>r_id = i, r_volume = v\<rparr>"]
  obtain p2 where hk: "chain (pool_modify t (nnext_update (\<lambda>_. n)) p1)
      (\<lambda>s1. pool_modify n (nprev_update (\<lambda>_. t)) s1) = ok p2" "pool_inv p2"
    "capacity p2 = capacity p1" "pool_live p2 = pool_live p1"
    "dseg (pool_look p2) kNull (q0 @ [t, n]) kNull"
    "\<And>j. j \<noteq> t \<Longrightarrow> j \<noteq> n \<Longrightarrow> pool_look p2 j = pool_look p1 j"
    "\<And>j. map_option nval (pool_look p2 j) = map_option nval (pool_look p1 j)"
    using al(4,7) nq q by (auto simp: fresh_node_def)
  have o2: "order_of (pool_look p2) j = order_of (pool_look p1) j" for j
    using hk(7) by (rule order_of_value_eq)
  have oq: "order_of (pool_look p2) j = order_of ?h j" if "j \<in> set q" for j
    using o2 [of j] al(7) nq that by (auto simp: order_of_def)
  let ?l2 = "l\<lparr>tail := n, total_volume := wrap64 (total_volume l + v)\<rparr>"
  let ?ob' = "set_side_levels s (A @ [?l2] @ B) (ob\<lparr>pool := p2, index := ?idx\<rparr>)"
  have mods: "chain (pool_modify t (nnext_update (\<lambda>_. n)) p1)
      (\<lambda>p2. chain (pool_modify n (nprev_update (\<lambda>_. t)) p2) (\<lambda>p3. ok (l\<lparr>tail := n\<rparr>, p3))) =
      ok (l\<lparr>tail := n\<rparr>, p2)"
    using hk(1) by (simp add: chain_assoc [symmetric])
  have run: "rest i s p v ob = ok ?ob'"
    using found(1,5,7) al(1) tl mods
    by (simp add: rest_def element_at_def Let_def list_update_append)
  have lr2: "level_rep (pool_look p2) ?l2 (q0 @ [t, n])"
    using lr q nq hk(5) oq ord_n o2 v
    by (intro level_rep_push [where h = ?h and i = i]) (auto simp: orders_def)
  have idx: "(index ob j = Some loc \<and> loc_node loc \<notin> nodes_in [q]) \<or>
      (j \<noteq> kAnonymous \<and> loc_side loc = s \<and> (\<exists>(l', r) \<in> set (zip [?l2] [q0 @ [t, n]]).
        lv_price l' = loc_price loc \<and> loc_node loc \<in> set r \<and>
        fst (order_of (pool_look p2) (loc_node loc)) = j))"
    if a: "?idx j = Some loc" for j loc
  proof (cases "j = i \<and> i \<noteq> kAnonymous")
    case True
    with a found(5) o2 ord_n show ?thesis by auto
  next
    case False
    with a have o: "index ob j = Some loc" by (auto split: if_splits)
    show ?thesis
    proof (cases "loc_node loc \<in> set q")
      case True
      from located_in_level [OF rep book_repD(7) [OF rep o] found(1,2,3) True] oq [OF True] True q
      show ?thesis by auto
    qed (use o in simp)
  qed
  have sp: "book_rep ?ob' (Q(s := QA @ [q0 @ [t, n]] @ QB))"
    "abs_book ?ob' = (abs_book ob)(s := abs_levels ?h A QA @
      abs_levels (pool_look p2) [?l2] [q0 @ [t, n]] @ abs_levels ?h B QB)"
    using found(1-3) hk al q qlive nq dst lr2 idx book_repD(3) [OF rep, of s]
    by (intro book_rep_splice [OF rep, where L = "[l]" and QL = "[q]"]; auto)+
  have ord: "orders (pool_look p2) (q0 @ [t, n]) = orders ?h q @ [(i, v)]"
    using oq q o2 [of n] ord_n by (auto simp: orders_def)
  have "abs_book ob s = abs_levels ?h A QA @ (p, orders ?h q) # abs_levels ?h B QB"
    using abs_book_eq [OF rep, of s] found(1-5) by simp
  then have "abs_book ?ob' = spec_rest s p i v (abs_book ob)"
    using sp(2) side_order.upd_level_hit [OF abs_before(1) [OF found(8)], of "\<lambda>r. r @ [(i, v)]"]
      found(5) ord
    by (simp add: spec_rest_def del: orders_simps)
  then show ?thesis using run sp(1) hk al by (auto simp: rested_def)
qed

lemma rest_new_level:
  assumes rep: "book_rep ob Q" and v: "0 < v" "v < 2 ^ 63"
    and al: "pool_allocate \<lparr>r_id = i, r_volume = v\<rparr> (pool ob) = ok (n, p1)"
      "pool_inv p1" "capacity p1 = capacity (pool ob)" "0 \<le> n" "n \<notin> pool_live (pool ob)"
      "pool_live p1 = insert n (pool_live (pool ob))"
      "pool_look p1 = (pool_look (pool ob))(n \<mapsto> fresh_node \<lparr>r_id = i, r_volume = v\<rparr>)"
    and absent: "side_levels s ob = A @ B" "Q s = QA @ QB" "length QA = length A" "length QB = length B"
      "find_level (side_levels s ob) s p = ok (length A)"
      "\<forall>a \<in> set A. before s (lv_price a) p" "\<forall>b \<in> set B. before s p (lv_price b)"
  shows "\<exists>ob'. rest i s p v ob = ok ob' \<and> rested i s p v ob ob'"
proof -
  let ?h = "pool_look (pool ob)"
  let ?loc = "\<lparr>loc_side = s, loc_price = p, loc_node = n\<rparr>"
  let ?idx = "if i \<noteq> kAnonymous then (index ob)(i \<mapsto> ?loc) else index ob"
  have ord_n: "order_of (pool_look p1) n = (i, v)" using al(7) by (simp add: order_of_def fresh_node_def)
  let ?l2 = "\<lparr>lv_price = p, total_volume = wrap64 v, head = n, tail = n\<rparr>"
  let ?ob' = "set_side_levels s (A @ [?l2] @ B) (ob\<lparr>pool := p1, index := ?idx\<rparr>)"
  have run: "rest i s p v ob = ok ?ob'"
    using absent(1,5) al(1) level_exists_absent [OF absent(7), of A]
    by (simp add: rest_def element_at_def Let_def nth_append list_update_append new_level_def)
  have lr2: "level_rep (pool_look p1) ?l2 [n]"
    using al(4,7) v by (auto simp: level_rep_def linked_def order_of_def fresh_node_def)
  have idx: "(index ob j = Some loc \<and> loc_node loc \<notin> nodes_in []) \<or>
      (j \<noteq> kAnonymous \<and> loc_side loc = s \<and> (\<exists>(l', r) \<in> set (zip [?l2] [[n]]).
        lv_price l' = loc_price loc \<and> loc_node loc \<in> set r \<and>
        fst (order_of (pool_look p1) (loc_node loc)) = j))"
    if a: "?idx j = Some loc" for j loc
    using a ord_n by (auto split: if_splits)
  have srt: "sorted_wrt (before s) (map lv_price (A @ [?l2] @ B))"
    using book_repD(3) [OF rep, of s] absent(1,6,7) by (intro insert_level_sorted [where p = p]) auto
  have sp: "book_rep ?ob' (Q(s := QA @ [[n]] @ QB))"
    "abs_book ?ob' = (abs_book ob)(s := abs_levels ?h A QA @
      abs_levels (pool_look p1) [?l2] [[n]] @ abs_levels ?h B QB)"
    using absent(1-3) al lr2 idx srt
    by (intro book_rep_splice [OF rep, where L = "[]" and QL = "[]"]; auto)+
  have "abs_book ob s = abs_levels ?h A QA @ abs_levels ?h B QB"
    using abs_book_eq [OF rep, of s] absent(1-4) by simp
  then have "abs_book ?ob' = spec_rest s p i v (abs_book ob)"
    using sp(2) side_order.upd_level_miss [OF abs_before(1) [OF absent(6)] abs_before(2) [OF absent(7)],
        of "\<lambda>r. r @ [(i, v)]"] ord_n
    by (simp add: spec_rest_def)
  then show ?thesis using run sp(1) al by (auto simp: rested_def)
qed

lemma rest_rested:
  assumes rep: "book_rep ob Q" and room: "card (pool_live (pool ob)) < capacity (pool ob)"
    and v: "0 < v" "v < 2 ^ 63"
  shows "\<exists>ob'. rest i s p v ob = ok ob' \<and> rested i s p v ob ob'"
proof -
  from pool.alloc_ok [OF book_repD(1) [OF rep] room] obtain n p1 where
    al: "pool_allocate \<lparr>r_id = i, r_volume = v\<rparr> (pool ob) = ok (n, p1)"
      "pool_inv p1" "capacity p1 = capacity (pool ob)" "0 \<le> n" "n \<notin> pool_live (pool ob)"
      "pool_live p1 = insert n (pool_live (pool ob))"
      "pool_look p1 = (pool_look (pool ob))(n \<mapsto> fresh_node \<lparr>r_id = i, r_volume = v\<rparr>)" by blast
  from rep show ?thesis
  proof (cases rule: book_level_cases [of ob Q s p])
    case (found A l B QA q QB)
    from rest_behind [OF rep v al found] show ?thesis .
  next
    case (absent A B QA QB)
    from rest_new_level [OF rep v al absent] show ?thesis .
  qed
qed

lemma rest_spec:
  assumes rep: "book_rep ob Q" and room: "card (pool_live (pool ob)) < capacity (pool ob)"
    and v: "0 < v" "v < 2 ^ 63"
  shows "\<exists>ob' Q'. rest i s p v ob = ok ob' \<and> book_rep ob' Q' \<and>
    abs_book ob' = spec_rest s p i v (abs_book ob) \<and> capacity (pool ob') = capacity (pool ob) \<and>
    (\<exists>n. n \<notin> pool_live (pool ob) \<and> pool_live (pool ob') = insert n (pool_live (pool ob)) \<and>
      index ob' = (if i = kAnonymous then index ob
        else (index ob)(i \<mapsto> \<lparr>loc_side = s, loc_price = p, loc_node = n\<rparr>)))"
  using rest_rested [OF assms] unfolding rested_def by blast

lemma rest_full:
  assumes rep: "book_rep ob Q" and full: "\<not> card (pool_live (pool ob)) < capacity (pool ob)"
  shows "rest i s p v ob = abort Pool_Exhausted"
proof -
  obtain k where "find_level (side_levels s ob) s p = ok k"
    using levels.search_first [OF book_repD(3) [OF rep]] by blast
  then show ?thesis
    using pool.alloc_full [OF book_repD(1) [OF rep] full] by (simp add: rest_def Let_def)
qed

end
