(* ===== verification/Book_Place.thy ===== *)
theory Book_Place
  imports Book_Matching "HOL-Library.Multiset"
begin

text \<open>
  \<open>place_order\<close> implements the reference \<open>spec_place\<close>, and keeps every identified resting order
  in the index exactly once. The fill-or-kill test adds up cached aggregates, so its lemma asks
  that the opposite side's volume fits \<open>Volume\<close>.
\<close>

section \<open>The fill-or-kill test\<close>

lemma resting_volume_nonneg: "positive_book ls \<Longrightarrow> 0 \<le> resting_volume ls"
  by (induction ls) (auto simp: resting_volume_def intro!: add_nonneg_nonneg volumes_nonneg)

lemma rep_positive_book:
  "list_all2 (level_rep h) ls qs \<Longrightarrow> positive_book (abs_levels h ls qs)"
  by (induction ls qs rule: list_all2_induct) (auto simp: level_rep_def)

lemma book_positive: "book_rep ob Q \<Longrightarrow> positive_book (abs_book ob s)"
  using rep_positive_book [OF book_repD(2)] abs_book_eq by metis

lemma book_sorted: "book_rep ob Q \<Longrightarrow> sorted_wrt (before s) (map fst (abs_book ob s))"
  using book_repD(3) [of ob Q s] by (simp add: abs_book_def abs_level_def comp_def)

lemma fill_scan_spec:
  assumes "list_all2 (level_rep h) ls qs" "0 \<le> a" "a < v"
    and "a + resting_volume (abs_levels h ls qs) < 2 ^ 63"
  shows "fill_scan ls s p v a \<longleftrightarrow> v \<le> a + liquidity (acceptable s p) (abs_levels h ls qs)"
  using assms
proof (induction ls qs arbitrary: a rule: list_all2_induct)
  case (Cons l ls q qs)
  have pos: "0 \<le> volumes (orders h q)" using Cons.hyps(1) by (auto simp: level_rep_def intro: volumes_nonneg)
  have rv: "0 \<le> resting_volume (abs_levels h ls qs)"
    using rep_positive_book [OF Cons.hyps(2)] by (rule resting_volume_nonneg)
  have lq: "0 \<le> liquidity c (abs_levels h ls qs)" for c
    using rep_positive_book [OF Cons.hyps(2)] by (rule liquidity_nonneg)
  have w: "wrap64 (a + total_volume l) = a + volumes (orders h q)"
    using Cons.hyps(1) Cons.prems pos rv by (auto simp: level_rep_def intro!: wrap64_id)
  show ?case
  proof (cases "acceptable s p (lv_price l)")
    case acc: True
    show ?thesis
    proof (cases "v \<le> a + volumes (orders h q)")
      case True
      with acc w lq [of "acceptable s p"] show ?thesis by (simp add: crosses_acceptable Let_def)
    next
      case False
      have "fill_scan ls s p v (a + volumes (orders h q)) \<longleftrightarrow>
          v \<le> a + volumes (orders h q) + liquidity (acceptable s p) (abs_levels h ls qs)"
        using False pos Cons.prems by (intro Cons.IH) auto
      with acc w False show ?thesis by (simp add: crosses_acceptable Let_def add.assoc)
    qed
  next
    case False
    with Cons.prems show ?thesis by (simp add: crosses_acceptable)
  qed
qed simp

lemma can_fully_fill_spec:
  assumes rep: "book_rep ob Q" and "0 < v" "resting_volume (abs_book ob t) < 2 ^ 63"
  shows "can_fully_fill (side_levels t ob) s p v \<longleftrightarrow> v \<le> liquidity (acceptable s p) (abs_book ob t)"
  using fill_scan_spec [OF book_repD(2) [OF rep, of t], of 0 v s p] assms abs_book_eq [OF rep, of t]
  by (simp add: can_fully_fill_def)

section \<open>Identified orders\<close>

definition abs_ids :: "abook \<Rightarrow> order_id multiset" where
  "abs_ids ab = mset (level_ids (ab BID)) + mset (level_ids (ab ASK))"

lemma abs_ids_side: "abs_ids ab = mset (level_ids (ab s)) + mset (level_ids (ab (opposed s)))"
  by (cases s) (simp_all add: abs_ids_def)

text \<open>Every identified order that rests is in the index, and only once in the book.\<close>

definition ids_ok :: "order_book \<Rightarrow> bool" where
  "ids_ok ob \<longleftrightarrow> (\<forall>i. i \<noteq> kAnonymous \<longrightarrow>
     count (abs_ids (abs_book ob)) i = (if index ob i = None then 0 else 1))"

lemma ids_okI:
  "(\<And>i. i \<noteq> kAnonymous \<Longrightarrow> count (abs_ids (abs_book ob)) i = (if index ob i = None then 0 else 1)) \<Longrightarrow>
     ids_ok ob"
  by (simp add: ids_ok_def)

lemma ids_okD:
  "ids_ok ob \<Longrightarrow> i \<noteq> kAnonymous \<Longrightarrow>
     count (abs_ids (abs_book ob)) i = (if index ob i = None then 0 else 1)"
  by (simp add: ids_ok_def)

lemma mset_level_ids_upd:
  assumes "sorted_wrt (before s) (map fst ls)"
  shows "mset (level_ids (upd_level (before s) p f ls)) + mset (ids (queue_at p ls)) =
    mset (level_ids ls) + mset (ids (f (queue_at p ls)))"
  using assms
proof (cases rule: side_order.level_cases [where p = p])
  case (hit A q B)
  then show ?thesis by (simp add: side_order.upd_level_hit side_order.queue_at_hit)
next
  case (miss A B)
  have "p \<notin> fst ` set ls" using miss side_order.po_irrefl by fastforce
  then have "queue_at p ls = []" by (rule side_order.queue_at_miss)
  with miss show ?thesis by (simp add: side_order.upd_level_miss)
qed

lemma mset_level_ids_push:
  assumes "sorted_wrt (before s) (map fst ls)"
  shows "mset (level_ids (upd_level (before s) p (\<lambda>q. q @ [(i, v)]) ls)) = add_mset i (mset (level_ids ls))"
  using mset_level_ids_upd [OF assms, of p "\<lambda>q. q @ [(i, v)]"] by simp

text \<open>The slots of the pool in use are exactly the resting orders: nothing leaks.\<close>

lemma length_level_ids: "length (level_ids (abs_levels h ls qs)) = length (concat qs)"
  if "length ls = length qs"
  using that by (induction ls qs rule: list_induct2) (auto simp: orders_def)

lemma live_count:
  assumes rep: "book_rep ob Q"
  shows "card (pool_live (pool ob)) = size (abs_ids (abs_book ob))"
proof -
  note D = book_repD [OF rep]
  have len: "length (level_ids (abs_book ob s)) = card (nodes_in (Q s))" for s
    using length_level_ids [OF list_all2_lengthD [OF D(2) [of s]]] abs_book_eq [OF rep, of s]
      distinct_card [OF D(4) [of s]] by simp
  have "card (pool_live (pool ob)) = card (nodes_in (Q BID)) + card (nodes_in (Q ASK))"
    using D(6) [of BID] D(5) [of BID] by (simp add: card_Un_disjoint)
  then show ?thesis using len by (simp add: abs_ids_def)
qed

section \<open>place_order\<close>

text \<open>The two ways \<open>place_order\<close> answers without matching, and what it does otherwise.\<close>

definition rejected :: "order \<Rightarrow> order_book \<Rightarrow> bool" where
  "rejected od ob \<longleftrightarrow> ovolume od \<le> 0 \<or> (otype od = FILL_OR_KILL \<and>
     \<not> can_fully_fill (side_levels (opposed (oside od)) ob) (oside od) (oprice od) (ovolume od))"

lemma place_order_rejected: "rejected od ob \<Longrightarrow> place_order od ob = ok ([], ob)"
  by (auto simp: rejected_def place_order_def Let_def)

lemma place_order_matched:
  assumes "\<not> rejected od ob" "match (oid od) (oside od) (oprice od) (ovolume od) ob [] = ok (v, ob1, ts)"
  shows "place_order od ob =
    (if 0 < v \<and> otype od = GOOD_TILL_CANCELED
     then chain (rest (oid od) (oside od) (oprice od) v ob1) (\<lambda>ob2. ok (ts, ob2)) else ok (ts, ob1))"
  using assms by (cases "otype od") (auto simp: rejected_def place_order_def Let_def)

lemma rejected_spec:
  assumes rep: "book_rep ob Q"
    and fok: "otype od = FILL_OR_KILL \<Longrightarrow> resting_volume (abs_book ob (opposed (oside od))) < 2 ^ 63"
  shows "rejected od ob \<longleftrightarrow> ovolume od \<le> 0 \<or> (otype od = FILL_OR_KILL \<and>
    liquidity (acceptable (oside od) (oprice od)) (abs_book ob (opposed (oside od))) < ovolume od)"
  using can_fully_fill_spec [OF rep, of "ovolume od"] fok
  by (cases "0 < ovolume od") (auto simp: rejected_def not_le)

text \<open>Matching and resting keep the index in step with the resting orders.\<close>

lemma match_keeps_ids:
  assumes ids: "ids_ok ob" and same: "abs_book ob1 s = abs_book ob s"
    and lid: "level_ids (abs_book ob (opposed s)) = P @ level_ids (abs_book ob1 (opposed s))"
    and idx: "index ob1 = index ob |` (- set P)"
  shows "ids_ok ob1"
proof (rule ids_okI)
  fix i :: order_id
  assume i: "i \<noteq> kAnonymous"
  have c: "count (abs_ids (abs_book ob)) i = count (mset P) i + count (abs_ids (abs_book ob1)) i"
    unfolding abs_ids_side [of _ s] using same lid by simp
  show "count (abs_ids (abs_book ob1)) i = (if index ob1 i = None then 0 else 1)"
  proof (cases "i \<in> set P")
    case True
    then obtain n where "count (mset P) i = Suc n" by (metis count_mset_0_iff not0_implies_Suc)
    with True c ids_okD [OF ids i] idx show ?thesis by (simp split: if_splits)
  next
    case False
    then have "count (mset P) i = 0" by simp
    with False c ids_okD [OF ids i] idx show ?thesis by simp
  qed
qed

lemma rest_keeps_ids:
  assumes rep: "book_rep ob Q" and ids: "ids_ok ob"
    and ab: "abs_book ob2 = spec_rest s p k v (abs_book ob)"
    and idx: "index ob2 = (if k = kAnonymous then index ob else (index ob)(k \<mapsto> loc))"
    and new: "index ob k = None"
  shows "ids_ok ob2"
proof (rule ids_okI)
  fix i :: order_id
  assume i: "i \<noteq> kAnonymous"
  have "count (abs_ids (abs_book ob2)) i = count (abs_ids (abs_book ob)) i + count {#k#} i"
    using ab mset_level_ids_push [OF book_sorted [OF rep, of s]] by (simp add: abs_ids_side [of _ s] spec_rest_def)
  with ids_okD [OF ids i] idx i new show "count (abs_ids (abs_book ob2)) i = (if index ob2 i = None then 0 else 1)"
    by (auto split: if_splits)
qed

text \<open>
  A call either returns, with the representation restored, or stops because no slot of the pool
  is free for the remainder.
\<close>

lemma place_order_run:
  assumes rep: "book_rep ob Q" and v: "ovolume od < 2 ^ 63"
  shows "(\<exists>ts ob' Q'. place_order od ob = ok (ts, ob') \<and> book_rep ob' Q' \<and>
      capacity (pool ob') = capacity (pool ob) \<and>
      (\<not> rejected od ob \<longrightarrow> (let s = oside od in
        case sweep (acceptable s (oprice od)) (oid od) (ovolume od) (abs_book ob (opposed s)) of
          (v', ls, tr) \<Rightarrow> ts = tr \<and> abs_book ob' =
            (if 0 < v' \<and> otype od = GOOD_TILL_CANCELED
             then spec_rest s (oprice od) (oid od) v' ((abs_book ob)(opposed s := ls))
             else (abs_book ob)(opposed s := ls)))) \<and>
      (ids_ok ob \<longrightarrow> index ob (oid od) = None \<longrightarrow> ids_ok ob')) \<or>
    place_order od ob = abort Pool_Exhausted \<and> \<not> card (pool_live (pool ob)) < capacity (pool ob)"
proof (cases "rejected od ob")
  case True
  with rep show ?thesis by (auto simp: place_order_rejected)
next
  case False
  let ?s = "oside od" and ?t = "opposed (oside od)"
  have v0: "0 < ovolume od" using False by (simp add: rejected_def)
  obtain v' ob1 Q1 tr P where
    m: "match (oid od) ?s (oprice od) (ovolume od) ob [] = ok (v', ob1, tr)" and rep1: "book_rep ob1 Q1"
    and sw: "sweep (acceptable ?s (oprice od)) (oid od) (ovolume od) (abs_book ob ?t) = (v', abs_book ob1 ?t, tr)"
    and same: "abs_book ob1 ?s = abs_book ob ?s" and cap: "capacity (pool ob1) = capacity (pool ob)"
    and sub: "pool_live (pool ob1) \<subseteq> pool_live (pool ob)"
    and lid: "level_ids (abs_book ob ?t) = P @ level_ids (abs_book ob1 ?t)"
    and idx: "index ob1 = index ob |` (- set P)"
    using match_spec [OF rep v, of "oid od" ?s "oprice od" "[]"] by auto
  have ab1: "abs_book ob1 = (abs_book ob)(?t := abs_book ob1 ?t)"
  proof
    show "abs_book ob1 u = ((abs_book ob)(?t := abs_book ob1 ?t)) u" for u
      using side_cases_opposed [of u ?s] same by auto
  qed
  have sr: "v' = max 0 (ovolume od - liquidity (acceptable ?s (oprice od)) (abs_book ob ?t))"
    using sweep_result [OF sw book_positive [OF rep]] v0 by simp
  have v': "v' < 2 ^ 63"
    using sr v v0 liquidity_nonneg [OF book_positive [OF rep, of ?t], of "acceptable ?s (oprice od)"]
    by linarith
  have ids1: "ids_ok ob1" if "ids_ok ob" by (rule match_keeps_ids [OF that same lid idx])
  show ?thesis
  proof (cases "0 < v' \<and> otype od = GOOD_TILL_CANCELED")
    case False
    then have "place_order od ob = ok (tr, ob1)"
      using place_order_matched [OF \<open>\<not> rejected od ob\<close> m] by auto
    with rep1 cap sw False ab1 ids1 show ?thesis by (auto simp: Let_def)
  next
    case True
    show ?thesis
    proof (cases "card (pool_live (pool ob1)) < capacity (pool ob1)")
      case room: True
      obtain ob2 Q2 n where r: "rest (oid od) ?s (oprice od) v' ob1 = ok ob2" "book_rep ob2 Q2"
        "abs_book ob2 = spec_rest ?s (oprice od) (oid od) v' (abs_book ob1)"
        "capacity (pool ob2) = capacity (pool ob1)"
        "index ob2 = (if oid od = kAnonymous then index ob1
          else (index ob1)(oid od \<mapsto> \<lparr>loc_side = ?s, loc_price = oprice od, loc_node = n\<rparr>))"
        using rest_spec [OF rep1 room conjunct1 [OF True] v'] by blast
      have run: "place_order od ob = ok (tr, ob2)"
        using place_order_matched [OF \<open>\<not> rejected od ob\<close> m] True r(1) by simp
      have ids2: "ids_ok ob2" if "ids_ok ob" "index ob (oid od) = None"
        using rest_keeps_ids [OF rep1 ids1 [OF that(1)] r(3,5)] that(2) idx by (simp add: restrict_map_def)
      from run r cap sw True ab1 ids2 show ?thesis by (auto simp: Let_def)
    next
      case full: False
      have "place_order od ob = abort Pool_Exhausted"
        using place_order_matched [OF \<open>\<not> rejected od ob\<close> m] True rest_full [OF rep1 full] by simp
      moreover have "card (pool_live (pool ob1)) \<le> card (pool_live (pool ob))"
        using sub by (intro card_mono) simp_all
      ultimately show ?thesis using full cap by auto
    qed
  qed
qed

lemma place_order_refines:
  assumes rep: "book_rep ob Q" and v: "ovolume od < 2 ^ 63"
    and room: "card (pool_live (pool ob)) < capacity (pool ob)"
    and fok: "otype od = FILL_OR_KILL \<Longrightarrow> resting_volume (abs_book ob (opposed (oside od))) < 2 ^ 63"
  shows "\<exists>ts ob' Q'. place_order od ob = ok (ts, ob') \<and> book_rep ob' Q' \<and>
    (ts, abs_book ob') = spec_place od (abs_book ob)"
proof -
  from place_order_run [OF rep v] room obtain ts ob' Q' where
    r: "place_order od ob = ok (ts, ob')" "book_rep ob' Q'" and
    m: "\<not> rejected od ob \<longrightarrow> (let s = oside od in
        case sweep (acceptable s (oprice od)) (oid od) (ovolume od) (abs_book ob (opposed s)) of
          (v', ls, tr) \<Rightarrow> ts = tr \<and> abs_book ob' =
            (if 0 < v' \<and> otype od = GOOD_TILL_CANCELED
             then spec_rest s (oprice od) (oid od) v' ((abs_book ob)(opposed s := ls))
             else (abs_book ob)(opposed s := ls)))"
    by blast
  have "(ts, abs_book ob') = spec_place od (abs_book ob)"
  proof (cases "rejected od ob")
    case True
    with r place_order_rejected [OF True] rejected_spec [OF rep fok] show ?thesis
      by (auto simp: spec_place_def Let_def)
  next
    case False
    with m rejected_spec [OF rep fok] show ?thesis
      by (auto simp: spec_place_def Let_def split: prod.splits)
  qed
  with r show ?thesis by blast
qed

end
