(* ===== verification/Book_Updates.thy ===== *)
theory Book_Updates
  imports Book_Place
begin

text \<open>
  Cancelling, reducing and setting a level implement \<open>spec_cancel\<close>, \<open>spec_delete\<close> and
  \<open>spec_set_level\<close>; the queries read the abstract book.
\<close>

section \<open>The queue at a price\<close>

lemma found_queue:
  assumes rep: "book_rep ob Q" and "side_levels s ob = A @ l # B" "Q s = QA @ q # QB"
    and "length QA = length A" "lv_price l = p" "\<forall>a \<in> set A. before s (lv_price a) p"
  shows "queue_at p (abs_book ob s) = orders (pool_look (pool ob)) q"
  using side_order.queue_at_hit [OF abs_before(1) [OF assms(6)]] abs_book_eq [OF rep, of s] assms(2-5)
  by simp

lemma absent_queue:
  assumes rep: "book_rep ob Q" and lv: "side_levels s ob = A @ B" "Q s = QA @ QB"
    and len: "length QA = length A" "length QB = length B"
    and "\<forall>a \<in> set A. before s (lv_price a) p" "\<forall>b \<in> set B. before s p (lv_price b)"
  shows "queue_at p (abs_book ob s) = []"
    and "f [] = [] \<Longrightarrow> (abs_book ob)(s := upd_level (before s) p f (abs_book ob s)) = abs_book ob"
proof -
  let ?h = "pool_look (pool ob)"
  have ab: "abs_book ob s = abs_levels ?h A QA @ abs_levels ?h B QB"
    using abs_book_eq [OF rep, of s] lv len by simp
  note ba = abs_before(1) [OF assms(6), of ?h QA] and bb = abs_before(2) [OF assms(7), of ?h QB]
  have "p \<notin> fst ` set (abs_book ob s)" using ab ba bb side_order.po_irrefl by fastforce
  then show "queue_at p (abs_book ob s) = []" by (rule side_order.queue_at_miss)
  show "(abs_book ob)(s := upd_level (before s) p f (abs_book ob s)) = abs_book ob" if "f [] = []"
    using ab side_order.upd_level_miss [OF ba bb, of f] that by (simp add: fun_upd_idem)
qed

section \<open>cancel_order\<close>

text \<open>The level an index entry names, split at the entry's node.\<close>

lemma located_split:
  assumes rep: "book_rep ob Q" and loc: "located ob Q i loc"
  obtains A l B QA a b QB where
    "side_levels (loc_side loc) ob = A @ l # B" "Q (loc_side loc) = QA @ (a @ loc_node loc # b) # QB"
    "length QA = length A" "lv_price l = loc_price loc"
    "level_rep (pool_look (pool ob)) l (a @ loc_node loc # b)"
    "find_level (side_levels (loc_side loc) ob) (loc_side loc) (loc_price loc) = ok (length A)"
    "fst (order_of (pool_look (pool ob)) (loc_node loc)) = i"
proof -
  let ?s = "loc_side loc"
  from loc obtain l q where lq: "(l, q) \<in> set (zip (side_levels ?s ob) (Q ?s))"
    and l: "lv_price l = loc_price loc" "loc_node loc \<in> set q"
    and i: "fst (order_of (pool_look (pool ob)) (loc_node loc)) = i"
    unfolding located_def by auto
  from lq obtain k where k: "k < length (side_levels ?s ob)" "k < length (Q ?s)"
    "side_levels ?s ob ! k = l" "Q ?s ! k = q" by (auto simp: in_set_zip)
  from l(2) obtain a b where q: "q = a @ loc_node loc # b" by (meson split_list)
  let ?A = "take k (side_levels ?s ob)" and ?B = "drop (Suc k) (side_levels ?s ob)"
  have s1: "side_levels ?s ob = ?A @ l # ?B" using id_take_nth_drop [OF k(1)] k(3) by simp
  have s2: "Q ?s = take k (Q ?s) @ q # drop (Suc k) (Q ?s)" using id_take_nth_drop [OF k(2)] k(4) by simp
  have srt: "sorted_wrt (before ?s) (map lv_price (?A @ l # ?B))"
    using book_repD(3) [OF rep, of ?s] s1 by simp
  note m = sorted_before_middle [OF srt]
  have "takeWhile (\<lambda>x. before ?s (lv_price x) (lv_price l)) (?A @ [l] @ ?B) = ?A"
    using m by (intro side_order.takeWhile_before) auto
  then have "find_level (side_levels ?s ob) ?s (loc_price loc) = ok (length ?A)"
    using levels.search_first [OF book_repD(3) [OF rep, of ?s], of "loc_price loc"] s1 l(1)
    by (metis append_Cons append_Nil)
  moreover have "level_rep (pool_look (pool ob)) l q"
    using book_repD(2) [OF rep, of ?s] k by (auto simp: list_all2_conv_all_nth)
  ultimately show thesis using that [OF s1 s2 [unfolded q]] l(1) i k q by simp
qed

lemma cancel_order_spec:
  assumes rep: "book_rep ob Q" and loc: "index ob i = Some loc"
  shows "\<exists>ob' Q' qa v qb. cancel_order i ob = ok ob' \<and> book_rep ob' Q' \<and>
    queue_at (loc_price loc) (abs_book ob (loc_side loc)) = qa @ (i, v) # qb \<and>
    abs_book ob' = (abs_book ob)(loc_side loc :=
      upd_level (before (loc_side loc)) (loc_price loc) (\<lambda>_. qa @ qb) (abs_book ob (loc_side loc))) \<and>
    index ob' = (index ob)(i := None) \<and> capacity (pool ob') = capacity (pool ob) \<and>
    pool_live (pool ob') = pool_live (pool ob) - {loc_node loc}"
proof -
  let ?s = "loc_side loc" and ?n = "loc_node loc" and ?h = "pool_look (pool ob)"
  obtain A l B QA a b QB where sl: "side_levels ?s ob = A @ l # B" "Q ?s = QA @ (a @ ?n # b) # QB"
    "length QA = length A" and lp: "lv_price l = loc_price loc" and lr: "level_rep ?h l (a @ ?n # b)"
    and fl: "find_level (side_levels ?s ob) ?s (loc_price loc) = ok (length A)"
    and ni: "fst (order_of ?h ?n) = i"
    using located_split [OF rep book_repD(7) [OF rep loc]] by blast
  let ?q = "a @ ?n # b"
  have lk: "linked ?h l ?q" and dst: "distinct ?q" using lr by (auto simp: level_rep_def linked_def)
  have qlive: "set ?q \<subseteq> pool_live (pool ob)" using book_rep_nodes_live [OF rep, of ?q ?s] sl(2) by simp
  obtain nd where nd: "?h ?n = Some nd" using linked_node [OF lk] by auto
  obtain lvl ob1 where un: "unlink l ?n ob = ok (lvl, ob1)" "linked (pool_look (pool ob1)) lvl (a @ b)"
    "lv_price lvl = lv_price l" "total_volume lvl = total_volume l"
    "orders (pool_look (pool ob1)) (a @ b) = orders ?h (a @ b)"
    and fr: "book_frame ob ob1 {} (set (a @ b)) {}"
    using unlink_spec [OF lk book_repD(1) [OF rep]] by blast
  let ?w = "r_volume (nval nd)"
  have on: "order_of ?h ?n = (i, ?w)" using nd ni by (simp add: order_of_def)
  let ?l' = "lvl\<lparr>total_volume := wrap64 (total_volume lvl - ?w)\<rparr>"
  let ?ob1 = "ob1\<lparr>pool := pool_deallocate ?n (pool ob1), index := (index ob1)(i := None)\<rparr>"
  have live1: "pool_live (pool ob1) = pool_live (pool ob)" "pool_inv (pool ob1)"
    "index ob1 = index ob" "\<And>t. side_levels t ob1 = side_levels t ob"
    using fr by (auto simp: book_frame_def restrict_map_UNIV)
  have da: "pool_inv (pool ?ob1) \<and> capacity (pool ?ob1) = capacity (pool ob1) \<and>
      pool_live (pool ?ob1) = pool_live (pool ob1) - {?n} \<and> pool_look (pool ?ob1) = pool_look (pool ob1)"
    using pool_deallocate_ok [of "pool ob1" ?n] live1 qlive by simp
  have part: "level_part (pool_look (pool ?ob1)) ?l' (a @ b)"
    using un lr on da by (auto simp: level_part_def level_rep_def linked_def algebra_simps)
  have hn: "head ?l' = kNull \<longleftrightarrow> a @ b = []"
    using linked_head_null [OF un(2)] by simp
  have idq: "fst (order_of (pool_look (pool ?ob1)) n) = fst (order_of ?h n)" if "n \<in> set (a @ b)" for n
    using fst_order_of_eqI [OF arg_cong [OF un(5), of ids] that] da by simp
  have idx: "index ob j = Some lc \<and> loc_node lc \<notin> set ?q - set (a @ b)"
    if "index ?ob1 j = Some lc" for j lc
  proof -
    from that live1 have o: "index ob j = Some lc" "j \<noteq> i" by (auto split: if_splits)
    have "loc_node lc \<noteq> ?n"
    proof
      assume n: "loc_node lc = ?n"
      then have "loc_node lc \<in> set ?q" by simp
      from located_in_level(4) [OF rep book_repD(7) [OF rep o(1)] sl this] n ni o(2) show False by simp
    qed
    with o show ?thesis by auto
  qed
  note sh = book_rep_shrink [where ob = ob and Q = Q and s = ?s and A = A and l = l and B = B
      and QA = QA and q = ?q and QB = QB and ob' = ?ob1 and q' = "a @ b" and l' = ?l'
      and f = "\<lambda>_. orders ?h (a @ b)"]
  have setq: "set ?q - set (a @ b) = {?n}" using dst by auto
  let ?L = "if a @ b = [] then [] else [?l']"
  have res: "book_rep (set_side_levels ?s (A @ ?L @ B) ?ob1) (Q(?s := QA @ (if a @ b = [] then [] else [a @ b]) @ QB))"
    "abs_book (set_side_levels ?s (A @ ?L @ B) ?ob1) = (abs_book ob)(?s :=
      upd_level (before ?s) (lv_price l) (\<lambda>_. orders ?h (a @ b)) (abs_book ob ?s))"
    using rep sl live1 da fr part idq idx un(3,5) setq
    by (intro sh; force simp: book_frame_def)+
  have run: "cancel_order i ob = ok (set_side_levels ?s (A @ ?L @ B) ?ob1)"
    using loc fl sl(1) lp nd un(1) hn
    by (auto simp: cancel_order_def Let_def pool_get_eq list_update_append)
  have bef: "\<forall>x \<in> set (abs_levels ?h A QA). before ?s (fst x) (loc_price loc)"
    using sorted_before_middle(1) [of ?s A l B] book_repD(3) [OF rep, of ?s] sl(1) lp
    by (intro abs_before) auto
  have "queue_at (loc_price loc) (abs_book ob ?s) = orders ?h a @ (i, ?w) # orders ?h b"
    using side_order.queue_at_hit [OF bef] abs_book_eq [OF rep, of ?s] sl lp on by simp
  with run res lp da fr live1 show ?thesis
    by (intro exI [of _ "set_side_levels ?s (A @ ?L @ B) ?ob1"] exI
        [of _ "Q(?s := QA @ (if a @ b = [] then [] else [a @ b]) @ QB)"] exI [of _ "orders ?h a"]
        exI [of _ ?w] exI [of _ "orders ?h b"]) (auto simp: book_frame_def)
qed

section \<open>delete_order\<close>

text \<open>An index entry that survived the drop of popped ids does not point to a popped node.\<close>

lemma surviving_entry:
  assumes rep: "book_rep ob Q" and lv: "side_levels s ob = A @ l # B" "Q s = QA @ q # QB" "length QA = length A"
    and idx: "index ob1 = index ob |` (- set (ids (orders (pool_look (pool ob)) (take k q))))"
    and e: "index ob1 i = Some loc"
  shows "index ob i = Some loc" "loc_node loc \<notin> set (take k q)"
proof -
  from e idx show o: "index ob i = Some loc" by (auto simp: restrict_map_def split: if_splits)
  have ni: "i \<notin> set (ids (orders (pool_look (pool ob)) (take k q)))"
    using e idx by (auto simp: restrict_map_def split: if_splits)
  show "loc_node loc \<notin> set (take k q)"
  proof
    assume n: "loc_node loc \<in> set (take k q)"
    then have "loc_node loc \<in> set q" by (rule in_set_takeD)
    from located_in_level(4) [OF rep book_repD(7) [OF rep o] lv this] n ni show False
      by (auto simp: orders_def)
  qed
qed

lemma delete_order_spec:
  assumes rep: "book_rep ob Q" and v: "v < 2 ^ 63"
  shows "\<exists>ob' Q' P. delete_order s p v ob = ok ob' \<and> book_rep ob' Q' \<and>
    abs_book ob' = spec_delete s p v (abs_book ob) \<and> capacity (pool ob') = capacity (pool ob) \<and>
    pool_live (pool ob') \<subseteq> pool_live (pool ob) \<and> index ob' = index ob |` (- set P) \<and>
    ids (queue_at p (abs_book ob s)) = P @ ids (drain v (queue_at p (abs_book ob s)))"
  using rep
proof (cases rule: book_level_cases [of ob Q s p])
  case (found A l B QA q QB)
  let ?h = "pool_look (pool ob)"
  have lp: "level_part ?h l q" and qne: "q \<noteq> []" using found(6) by (simp_all add: level_rep_part)
  have qlive: "set q \<subseteq> pool_live (pool ob)" using book_rep_nodes_live [OF rep, of q s] found(2) by simp
  have dst: "distinct q" using lp by (simp add: level_part_def linked_def)
  obtain lvl ob1 k where d: "delete_loop v l ob = ok (lvl, ob1)" "k \<le> length q"
    "orders (pool_look (pool ob1)) (drop k q) = drain v (orders ?h q)"
    "ids (orders (pool_look (pool ob1)) (drop k q)) = ids (orders ?h (drop k q))"
    "level_part (pool_look (pool ob1)) lvl (drop k q)" "lv_price lvl = lv_price l"
    and fr: "book_frame ob ob1 (set (take k q)) (set q) (set (ids (orders ?h (take k q))))"
    using delete_loop_spec [OF lp book_repD(1) [OF rep] qlive index_anonymous [OF rep] v] by blast
  note td = distinct_take_drop [OF dst, of k]
  let ?L = "if drop k q = [] then [] else [lvl]"
  have hn: "head lvl = kNull \<longleftrightarrow> drop k q = []"
    using linked_head_null [of "pool_look (pool ob1)" lvl "drop k q"] d(5) by (simp add: level_part_def)
  have idx: "index ob1 = index ob |` (- set (ids (orders ?h (take k q))))" using fr by (simp add: book_frame_def)
  note sh = book_rep_shrink [where ob = ob and Q = Q and s = s and A = A and l = l and B = B
      and QA = QA and q = q and QB = QB and ob' = ob1 and q' = "drop k q" and l' = lvl and f = "drain v"]
  have res: "book_rep (set_side_levels s (A @ ?L @ B) ob1) (Q(s := QA @ (if drop k q = [] then [] else [drop k q]) @ QB))"
    "abs_book (set_side_levels s (A @ ?L @ B) ob1) =
      (abs_book ob)(s := upd_level (before s) (lv_price l) (drain v) (abs_book ob s))"
    using rep found(1-3) fr td d(3,5,6) fst_order_of_eqI [OF d(4)]
      surviving_entry [OF rep found(1-3) idx]
    by (intro sh; auto simp: book_frame_def dest: in_set_dropD)+
  have run: "delete_order s p v ob = ok (set_side_levels s (A @ ?L @ B) ob1)"
    using found(1,5,7) d(1) hn by (simp add: delete_order_def Let_def list_update_append)
  have at: "queue_at p (abs_book ob s) = orders ?h q"
    by (rule found_queue [OF rep found(1-3,5,8)])
  have "ids (orders ?h q) = ids (orders ?h (take k q)) @ ids (drain v (orders ?h q))"
    using d(3,4) by (metis append_take_drop_id map_append orders_simps(3))
  with run res found(5) fr at idx show ?thesis
    by (intro exI [of _ "set_side_levels s (A @ ?L @ B) ob1"] exI
        [of _ "Q(s := QA @ (if drop k q = [] then [] else [drop k q]) @ QB)"]
        exI [of _ "ids (orders ?h (take k q))"]) (auto simp: book_frame_def spec_delete_def)
next
  case (absent A B QA QB)
  have run: "delete_order s p v ob = ok ob"
    using absent(1,5) level_exists_absent [OF absent(7), of A] by (simp add: delete_order_def Let_def)
  note aq = absent_queue [OF rep absent(1-4,6,7)]
  have "abs_book ob = spec_delete s p v (abs_book ob)" using aq(2) [of "drain v"] by (simp add: spec_delete_def)
  with aq(1) show ?thesis using run rep
    by (intro exI [of _ ob] exI [of _ Q] exI [of _ "[]"]) (simp add: restrict_map_UNIV)
qed

section \<open>set_level\<close>

text \<open>On a missing price, a positive size is rested like anonymous liquidity.\<close>

lemma set_level_absent:
  assumes "0 < v" "v < 2 ^ 63" "side_levels s ob = A @ B"
    and "find_level (side_levels s ob) s p = ok (length A)" "\<forall>b \<in> set B. before s p (lv_price b)"
  shows "set_level s p v ob = rest kAnonymous s p v ob"
proof -
  have e: "r\<lparr>pool := q, index := m\<rparr> = r\<lparr>pool := q\<rparr>" if "m = index r" for r :: order_book and q m
    using that by simp
  show ?thesis
    using assms level_exists_absent [OF assms(5), of A]
      run_cases [of "pool_allocate \<lparr>r_id = kAnonymous, r_volume = v\<rparr> (pool ob)"]
    by (auto simp: set_level_def rest_def Let_def element_at_def nth_append list_update_append
        new_level_def wrap64_id e)
qed

text \<open>Returning several slots.\<close>

lemma fold_deallocate:
  assumes "pool_inv p" "set q \<subseteq> pool_live p" "distinct q"
  shows "pool_inv (fold pool_deallocate q p) \<and> capacity (fold pool_deallocate q p) = capacity p \<and>
    pool_live (fold pool_deallocate q p) = pool_live p - set q \<and>
    pool_look (fold pool_deallocate q p) = pool_look p"
  using pool.release_all assms by blast

lemma set_level_remove:
  assumes rep: "book_rep ob Q" and v: "v \<le> 0"
  shows "\<exists>ob' Q' P. set_level s p v ob = ok ob' \<and> book_rep ob' Q' \<and>
    abs_book ob' = spec_set_level s p v (abs_book ob) \<and> capacity (pool ob') = capacity (pool ob) \<and>
    pool_live (pool ob') \<subseteq> pool_live (pool ob) \<and> index ob' = index ob |` (- set P) \<and>
    ids (queue_at p (abs_book ob s)) = P"
  using rep
proof (cases rule: book_level_cases [of ob Q s p])
  case (found A l B QA q QB)
  let ?h = "pool_look (pool ob)"
  have lk: "linked ?h l q" using found(6) by (simp add: level_rep_def)
  have qlive: "set q \<subseteq> pool_live (pool ob)" using book_rep_nodes_live [OF rep, of q s] found(2) by simp
  obtain lvl ob1 where c: "clear_level l ob = ok (lvl, ob1)"
    and fr: "book_frame ob ob1 (set q) (set q) (set (ids (orders ?h q)))"
    using clear_level_spec [OF lk book_repD(1) [OF rep] qlive index_anonymous [OF rep]] by blast
  have idx: "index ob1 = index ob |` (- set (ids (orders ?h (take (length q) q))))"
    using fr by (simp add: book_frame_def)
  let ?l0 = "l\<lparr>total_volume := 0, head := kNull, tail := kNull\<rparr>"
  have part: "level_part h ?l0 []" for h
    by (simp add: level_part_def linked_def wrap64_id)
  note sh = book_rep_shrink [where ob = ob and Q = Q and s = s and A = A and l = l and B = B
      and QA = QA and q = q and QB = QB and ob' = ob1 and q' = "[]" and l' = ?l0 and f = "collapse v"]
  have res: "book_rep (set_side_levels s (A @ [] @ B) ob1) (Q(s := QA @ [] @ QB))"
    "abs_book (set_side_levels s (A @ [] @ B) ob1) =
      (abs_book ob)(s := upd_level (before s) (lv_price l) (collapse v) (abs_book ob s))"
    using sh rep found(1-3) fr part v surviving_entry [OF rep found(1-3) idx]
    by (auto simp: book_frame_def collapse_def)
  have run: "set_level s p v ob = ok (set_side_levels s (A @ [] @ B) ob1)"
    using found(1,5,7) c v by (simp add: set_level_def Let_def)
  show ?thesis
    using run res found(5) fr found_queue [OF rep found(1-3,5,8)]
    by (intro exI [of _ "set_side_levels s (A @ [] @ B) ob1"] exI [of _ "Q(s := QA @ [] @ QB)"]
        exI [of _ "ids (orders ?h q)"]) (auto simp: book_frame_def spec_set_level_def)
next
  case (absent A B QA QB)
  have run: "set_level s p v ob = ok ob"
    using absent(1,5) v level_exists_absent [OF absent(7), of A] by (simp add: set_level_def Let_def)
  note aq = absent_queue [OF rep absent(1-4,6,7)]
  have "abs_book ob = spec_set_level s p v (abs_book ob)"
    using aq(2) [of "collapse v"] v by (simp add: spec_set_level_def collapse_def)
  with aq(1) show ?thesis using run rep
    by (intro exI [of _ ob] exI [of _ Q] exI [of _ "[]"]) (simp add: restrict_map_UNIV)
qed

text \<open>
  Collapsing a level frees the nodes behind the head without looking at the index, so it is only
  sound when none of them belongs to an identified order.
\<close>

lemma set_level_collapse:
  assumes rep: "book_rep ob Q" and v: "0 < v" "v < 2 ^ 63"
    and sl: "side_levels s ob = A @ l # B" "Q s = QA @ (n # q) # QB" "length QA = length A"
    and fl: "find_level (side_levels s ob) s p = ok (length A)" "lv_price l = p"
    and bef: "\<forall>a \<in> set A. before s (lv_price a) p"
    and lr: "level_rep (pool_look (pool ob)) l (n # q)"
    and anon: "\<forall>x \<in> set (tl (queue_at p (abs_book ob s))). fst x = kAnonymous"
  shows "\<exists>ob' Q'. set_level s p v ob = ok ob' \<and> book_rep ob' Q' \<and>
    abs_book ob' = spec_set_level s p v (abs_book ob) \<and> capacity (pool ob') = capacity (pool ob) \<and>
    pool_live (pool ob') \<subseteq> pool_live (pool ob) \<and> index ob' = index ob"
proof -
  let ?h = "pool_look (pool ob)"
  have lk: "linked ?h l (n # q)" using lr by (simp add: level_rep_def)
  then have dst: "distinct (n # q)" and seg: "dseg ?h n q kNull" and hd: "head l = n"
    by (auto simp: linked_def)
  obtain nd where nd: "?h n = Some nd" "nnext nd = hd (q @ [kNull])" "nprev nd = kNull" "0 \<le> n"
    using lk by (auto simp: linked_def)
  have qlive: "set (n # q) \<subseteq> pool_live (pool ob)"
    using book_rep_nodes_live [OF rep, of "n # q" s] sl(2) by simp
  let ?p1 = "fold pool_deallocate q (pool ob)"
  have p1: "pool_inv ?p1" "capacity ?p1 = capacity (pool ob)"
    "pool_live ?p1 = pool_live (pool ob) - set q" "pool_look ?p1 = ?h"
    using fold_deallocate [OF book_repD(1) [OF rep], of q] qlive dst by auto
  have fc: "free_chain (nnext nd) (pool ob) = ok ?p1"
    using free_chain_spec [OF seg _ _ book_repD(1) [OF rep]] qlive dst nd(2) by simp
  obtain p2 where p2: "pool_modify n (nnext_update (\<lambda>_. kNull)) ?p1 = ok p2" "pool_inv p2"
    "capacity p2 = capacity ?p1" "pool_live p2 = pool_live ?p1"
    "pool_look p2 = (pool_look ?p1)(n \<mapsto> nnext_update (\<lambda>_. kNull) nd)"
    using pool_modify_ok [OF p1(1), of n nd "nnext_update (\<lambda>_. kNull)"] p1(4) nd(1) by auto
  obtain p3 where p3: "pool_modify n (nval_update (r_volume_update (\<lambda>_. v))) p2 = ok p3" "pool_inv p3"
    "capacity p3 = capacity p2" "pool_live p3 = pool_live p2"
    "pool_look p3 = (pool_look p2)(n \<mapsto> nval_update (r_volume_update (\<lambda>_. v)) (nnext_update (\<lambda>_. kNull) nd))"
    using pool_modify_ok [OF p2(2), of n _ "nval_update (r_volume_update (\<lambda>_. v))"] p2(5) by auto
  let ?l' = "l\<lparr>tail := head l, total_volume := v\<rparr>" and ?ob1 = "ob\<lparr>pool := p3\<rparr>"
  have run: "set_level s p v ob = ok (set_side_levels s (A @ [?l'] @ B) ?ob1)"
    using v fl sl(1) hd nd(1) fc p2(1) p3(1)
    by (simp add: set_level_def Let_def pool_get_eq list_update_append)
  have on: "order_of ?h n = (r_id (nval nd), r_volume (nval nd))"
    "order_of (pool_look p3) n = (r_id (nval nd), v)"
    using nd(1) p3(5) by (simp_all add: order_of_def)
  have part: "level_part (pool_look p3) ?l' [n]"
    using v on(2) hd nd p3(5) by (simp add: level_part_def linked_def wrap64_id)
  have at: "queue_at p (abs_book ob s) = orders ?h (n # q)"
    by (rule found_queue [OF rep sl fl(2) bef])
  have idx: "loc_node lc \<notin> set (n # q) - set [n]" if e: "index ob j = Some lc" for j lc
  proof
    assume "loc_node lc \<in> set (n # q) - set [n]"
    then have m: "loc_node lc \<in> set (n # q)" "loc_node lc \<in> set q" by auto
    note li = located_in_level(3,4) [OF rep book_repD(7) [OF rep e] sl m(1)]
    have "order_of ?h (loc_node lc) \<in> set (orders ?h q)" using m(2) by (simp add: orders_def)
    with anon at li show False by fastforce
  qed
  note sh = book_rep_shrink [where ob = ob and Q = Q and s = s and A = A and l = l and B = B
      and QA = QA and q = "n # q" and QB = QB and ob' = ?ob1 and q' = "[n]" and l' = ?l'
      and f = "collapse v"]
  have f: "collapse v (orders (pool_look (pool ob)) (n # q)) = orders (pool_look (pool ?ob1)) [n]"
    using v on by (simp add: collapse_def)
  have fr: "pool_look p3 j = ?h j" if "j \<notin> set (n # q)" for j using that p1(4) p2(5) p3(5) by simp
  have lv: "pool_live p3 = pool_live (pool ob) - (set (n # q) - set [n])" using p1(3) p2(4) p3(4) dst by auto
  have res: "book_rep (set_side_levels s (A @ (if [n] = [] then [] else [?l']) @ B) ?ob1)
      (Q(s := QA @ (if [n] = [] then [] else [[n]]) @ QB))"
    "abs_book (set_side_levels s (A @ (if [n] = [] then [] else [?l']) @ B) ?ob1) =
      (abs_book ob)(s := upd_level (before s) (lv_price l) (collapse v) (abs_book ob s))"
    using rep sl p3(2) fr lv part idx on by (intro sh f; simp)+
  with run fl(2) p1 p2 p3 show ?thesis
    by (intro exI [of _ "set_side_levels s (A @ [?l'] @ B) ?ob1"] exI [of _ "Q(s := QA @ [[n]] @ QB)"])
      (auto simp: spec_set_level_def)
qed

text \<open>The four ways \<open>set_level\<close> can go, in one statement.\<close>

lemma set_level_run:
  assumes rep: "book_rep ob Q" and v: "v < 2 ^ 63"
    and anon: "0 < v \<Longrightarrow> \<forall>x \<in> set (tl (queue_at p (abs_book ob s))). fst x = kAnonymous"
  shows "(\<exists>ob' Q' P. set_level s p v ob = ok ob' \<and> book_rep ob' Q' \<and>
      abs_book ob' = spec_set_level s p v (abs_book ob) \<and> capacity (pool ob') = capacity (pool ob) \<and>
      index ob' = index ob |` (- set P) \<and> (0 < v \<longrightarrow> P = []) \<and>
      (v \<le> 0 \<longrightarrow> P = ids (queue_at p (abs_book ob s)))) \<or>
    set_level s p v ob = abort Pool_Exhausted \<and> 0 < v \<and> queue_at p (abs_book ob s) = [] \<and>
      \<not> card (pool_live (pool ob)) < capacity (pool ob)"
proof (cases "0 < v")
  case False
  then show ?thesis using set_level_remove [OF rep, of v s p] by fastforce
next
  case True
  from rep show ?thesis
  proof (cases rule: book_level_cases [of ob Q s p])
    case (found A l B QA q QB)
    have "q \<noteq> []" using found(6) by (simp add: level_rep_def)
    then obtain n q1 where q: "q = n # q1" by (cases q) auto
    obtain ob' Q' where "set_level s p v ob = ok ob'" "book_rep ob' Q'"
      "abs_book ob' = spec_set_level s p v (abs_book ob)" "capacity (pool ob') = capacity (pool ob)"
      "index ob' = index ob"
      using set_level_collapse [OF rep True v found(1,2,3) [unfolded q] found(7,5,8,6) [unfolded q] anon [OF True]]
      by blast
    with True show ?thesis by (auto simp: restrict_map_UNIV)
  next
    case (absent A B QA QB)
    have eq: "set_level s p v ob = rest kAnonymous s p v ob"
      using set_level_absent [OF True v absent(1,5,7)] .
    note at = absent_queue(1) [OF rep absent(1-4,6,7)]
    show ?thesis
    proof (cases "card (pool_live (pool ob)) < capacity (pool ob)")
      case room: True
      obtain ob' Q' where r: "rest kAnonymous s p v ob = ok ob'" "book_rep ob' Q'"
        "abs_book ob' = spec_rest s p kAnonymous v (abs_book ob)"
        "capacity (pool ob') = capacity (pool ob)" "index ob' = index ob"
        using rest_spec [OF rep room True v, of kAnonymous s p] by auto
      have "spec_rest s p kAnonymous v (abs_book ob) = spec_set_level s p v (abs_book ob)"
        using side_order.upd_level_cong [OF book_sorted [OF rep, of s], of "\<lambda>q. q @ [(kAnonymous, v)]" p "collapse v"]
          at True by (simp add: spec_rest_def spec_set_level_def collapse_def kAnonymous_def)
      with True r eq show ?thesis by (auto simp: restrict_map_UNIV)
    next
      case False
      with rest_full [OF rep False] eq at True show ?thesis by simp
    qed
  qed
qed

end
