(* ===== verification/Simulation.thy ===== *)
theory Simulation
  imports Prelude
begin

text \<open>
  The shape of every refinement in this development: a component's operations are commands, a
  concrete step runs one on the component's state, a specification step says what it should do on
  an abstract state, and an abstraction function relates the two. The locale lifts the law for one
  command to whole sessions.
\<close>

section \<open>Sessions\<close>

fun run_all :: "('c \<Rightarrow> 's \<Rightarrow> ('r \<times> 's) run) \<Rightarrow> 'c list \<Rightarrow> 's \<Rightarrow> ('r list \<times> 's) run" where
  "run_all step [] s = ok ([], s)"
| "run_all step (c # cs) s =
     chain (step c s) (\<lambda>(r, s1). chain (run_all step cs s1) (\<lambda>(rs, s2). ok (r # rs, s2)))"

fun spec_all :: "('c \<Rightarrow> 'a \<Rightarrow> 'r \<times> 'a) \<Rightarrow> 'c list \<Rightarrow> 'a \<Rightarrow> 'r list \<times> 'a" where
  "spec_all spec [] a = ([], a)"
| "spec_all spec (c # cs) a =
     (case spec c a of (r, a1) \<Rightarrow> case spec_all spec cs a1 of (rs, a2) \<Rightarrow> (r # rs, a2))"

text \<open>Every command of a session is allowed where the specification runs it.\<close>

fun allowed_all :: "('c \<Rightarrow> 'a \<Rightarrow> bool) \<Rightarrow> ('c \<Rightarrow> 'a \<Rightarrow> 'r \<times> 'a) \<Rightarrow> 'c list \<Rightarrow> 'a \<Rightarrow> bool" where
  "allowed_all ok_cmd spec [] a = True"
| "allowed_all ok_cmd spec (c # cs) a =
     (ok_cmd c a \<and> allowed_all ok_cmd spec cs (snd (spec c a)))"

lemma run_all_append:
  "run_all step (cs @ ds) st =
     chain (run_all step cs st) (\<lambda>(rs, s1). chain (run_all step ds s1) (\<lambda>(rs', s2). ok (rs @ rs', s2)))"
proof (induction cs arbitrary: st)
  case Nil
  show ?case using run_cases [of "run_all step ds st"] by auto
next
  case (Cons c cs)
  show ?case
  proof (cases "\<exists>r s1. step c st = ok (r, s1)")
    case True
    then obtain r s1 where "step c st = ok (r, s1)" by blast
    with Cons [of s1] run_cases [of "run_all step cs s1"] show ?thesis
      by (auto simp: chain_assoc case_prod_unfold)
  next
    case False
    with run_cases [of "step c st"] show ?thesis by auto
  qed
qed

lemma spec_all_append:
  "spec_all spec (cs @ ds) a =
     (case spec_all spec cs a of (rs, b) \<Rightarrow> case spec_all spec ds b of (rs', d) \<Rightarrow> (rs @ rs', d))"
  by (induction cs arbitrary: a) (auto split: prod.splits)

lemma allowed_all_append:
  "allowed_all ok_cmd spec (cs @ ds) a \<longleftrightarrow>
     allowed_all ok_cmd spec cs a \<and> allowed_all ok_cmd spec ds (snd (spec_all spec cs a))"
  by (induction cs arbitrary: a) (auto split: prod.splits)

section \<open>The contract\<close>

locale simulation =
  fixes step :: "'c \<Rightarrow> 's \<Rightarrow> ('r \<times> 's) run"
    and spec :: "'c \<Rightarrow> 'a \<Rightarrow> 'r \<times> 'a"
    and inv :: "'s \<Rightarrow> bool"
    and abs :: "'s \<Rightarrow> 'a"
    and ok_cmd :: "'s \<Rightarrow> 'c \<Rightarrow> 'a \<Rightarrow> bool"
  assumes step_sim: "inv s \<Longrightarrow> ok_cmd s c (abs s) \<Longrightarrow>
      \<exists>r s'. step c s = ok (r, s') \<and> inv s' \<and> spec c (abs s) = (r, abs s') \<and> ok_cmd s' = ok_cmd s"
begin

text \<open>A session of allowed commands returns, with the results and the state the specification has.\<close>

lemma run_sim:
  assumes "inv s" "allowed_all (ok_cmd s) spec cs (abs s)"
  shows "\<exists>rs s'. run_all step cs s = ok (rs, s') \<and> inv s' \<and> ok_cmd s' = ok_cmd s \<and>
    spec_all spec cs (abs s) = (rs, abs s')"
  using assms
proof (induction cs arbitrary: s)
  case (Cons c cs)
  obtain r s1 where st: "step c s = ok (r, s1)" "inv s1" "spec c (abs s) = (r, abs s1)"
    "ok_cmd s1 = ok_cmd s" using step_sim [of s c] Cons.prems by auto
  with Cons.prems obtain rs s' where "run_all step cs s1 = ok (rs, s')" "inv s'"
    "ok_cmd s' = ok_cmd s1" "spec_all spec cs (abs s1) = (rs, abs s')"
    using Cons.IH [of s1] by auto
  with st show ?case by simp
qed simp

text \<open>What every specification step keeps holds after the code has run.\<close>

lemma spec_invariant:
  assumes "inv s" "allowed_all (ok_cmd s) spec cs (abs s)" "P (abs s)"
    and "\<And>c a. P a \<Longrightarrow> ok_cmd s c a \<Longrightarrow> P (snd (spec c a))"
    and "run_all step cs s = ok (rs, s')"
  shows "P (abs s')"
proof -
  have "P (snd (spec_all spec cs a))" if "P a" "allowed_all (ok_cmd s) spec cs a" for a
    using that
  proof (induction cs arbitrary: a)
    case (Cons c cs)
    have "P (snd (spec_all spec cs (snd (spec c a))))"
      using Cons.prems assms(4) by (intro Cons.IH) auto
    then show ?case by (simp add: case_prod_unfold)
  qed simp
  then show ?thesis using run_sim [OF assms(1,2)] assms(1-3,5) by fastforce
qed

end

end
