(* ===== verification/Book_Commands.thy ===== *)
theory Book_Commands
  imports Book_Updates Simulation
begin

text \<open>
  The book as a whole: the public operations as commands, the specification of a session, and the
  simulation of the one by the other. Identified orders stay in step with the index
  (\<open>ids_ok\<close>), so cancelling by id is an operation of the abstract book.
\<close>

section \<open>Identified orders stay indexed\<close>

lemma ids_ok_drop:
  assumes "ids_ok ob" "index ob' = index ob |` (- set P)"
    and "\<And>i. i \<noteq> kAnonymous \<Longrightarrow>
      count (abs_ids (abs_book ob)) i = count (abs_ids (abs_book ob')) i + count (mset P) i"
  shows "ids_ok ob'"
proof (rule ids_okI)
  fix i :: order_id
  assume i: "i \<noteq> kAnonymous"
  note c = ids_okD [OF assms(1) i] assms(3) [OF i]
  show "count (abs_ids (abs_book ob')) i = (if index ob' i = None then 0 else 1)"
  proof (cases "i \<in> set P")
    case True
    then obtain n where "count (mset P) i = Suc n" by (metis count_mset_0_iff not0_implies_Suc)
    with True c assms(2) show ?thesis by (simp split: if_splits)
  next
    case False
    then have "count (mset P) i = 0" by simp
    with False c assms(2) show ?thesis by simp
  qed
qed

text \<open>Changing the queue at one price changes the ids of the book by the ids of that queue.\<close>

lemma abs_ids_upd:
  assumes "sorted_wrt (before s) (map fst (ab s))"
  shows "abs_ids (ab(s := upd_level (before s) p f (ab s))) + mset (ids (queue_at p (ab s))) =
    abs_ids ab + mset (ids (f (queue_at p (ab s))))"
  using mset_level_ids_upd [OF assms, of p f] by (simp add: abs_ids_side [of _ s] ac_simps)

lemma ids_ok_upd:
  assumes rep: "book_rep ob Q" and ok: "ids_ok ob"
    and ab: "abs_book ob' = (abs_book ob)(s := upd_level (before s) p f (abs_book ob s))"
    and idx: "index ob' = index ob |` (- set P)"
    and q: "\<And>i. i \<noteq> kAnonymous \<Longrightarrow> count (mset (ids (queue_at p (abs_book ob s)))) i =
      count (mset P) i + count (mset (ids (f (queue_at p (abs_book ob s))))) i"
  shows "ids_ok ob'"
proof (rule ids_ok_drop [OF ok idx])
  fix i :: order_id
  assume i: "i \<noteq> kAnonymous"
  show "count (abs_ids (abs_book ob)) i = count (abs_ids (abs_book ob')) i + count (mset P) i"
    using arg_cong [OF abs_ids_upd [of s "abs_book ob" p f, OF book_sorted [OF rep]], of "\<lambda>M. count M i"]
      q [OF i] ab by simp
qed

lemma queue_ids_subset:
  assumes "sorted_wrt (before s) (map fst ls)"
  shows "count (mset (ids (queue_at p ls))) i \<le> count (mset (level_ids ls)) i"
  using assms
proof (cases rule: side_order.level_cases [where p = p])
  case (hit A q B)
  then show ?thesis by (simp add: side_order.queue_at_hit)
next
  case (miss A B)
  have "p \<notin> fst ` set ls" using miss side_order.po_irrefl by fastforce
  then show ?thesis by (simp add: side_order.queue_at_miss)
qed

section \<open>Cancelling by id\<close>

text \<open>\<open>spec_remove\<close> takes the orders with one id out of the book, and the levels this empties.\<close>

definition spec_remove :: "order_id \<Rightarrow> abook \<Rightarrow> abook" where
  "spec_remove i ab = (\<lambda>s. filter (\<lambda>l. snd l \<noteq> [])
     (map (\<lambda>(p, q). (p, filter (\<lambda>x. fst x \<noteq> i) q)) (ab s)))"

definition no_empty_level :: "alevel list \<Rightarrow> bool" where
  "no_empty_level ls \<longleftrightarrow> (\<forall>l \<in> set ls. snd l \<noteq> [])"

lemma remove_unused:
  assumes "i \<notin> set (level_ids ls)" "no_empty_level ls"
  shows "filter (\<lambda>l. snd l \<noteq> []) (map (\<lambda>(p, q). (p, filter (\<lambda>x. fst x \<noteq> i) q)) ls) = ls"
  using assms
proof (induction ls)
  case (Cons l ls)
  obtain p q where l: "l = (p, q)" by (cases l)
  with Cons.prems have "filter (\<lambda>x. fst x \<noteq> i) q = q" by (auto intro!: filter_True)
  with Cons l show ?case by (simp add: no_empty_level_def)
qed simp

lemma remove_at:
  assumes srt: "sorted_wrt (before s) (map fst ls)" and ne: "no_empty_level ls"
    and q: "queue_at p ls = qa @ (i, v) # qb" and one: "count (mset (level_ids ls)) i = 1"
  shows "filter (\<lambda>l. snd l \<noteq> []) (map (\<lambda>(p, q). (p, filter (\<lambda>x. fst x \<noteq> i) q)) ls) =
      upd_level (before s) p (\<lambda>_. qa @ qb) ls"
  using srt
proof (cases rule: side_order.level_cases [where p = p])
  case (hit A r B)
  with q have r: "r = qa @ (i, v) # qb" by (simp add: side_order.queue_at_hit)
  have "count (mset (level_ids A @ ids qa @ ids qb @ level_ids B)) i = 0" using one hit(1) r by simp
  then have "i \<notin> set (level_ids A @ ids qa @ ids qb @ level_ids B)" by (simp only: count_mset_0_iff simp_thms)
  then have i: "i \<notin> set (level_ids A)" "i \<notin> set (level_ids B)" "i \<notin> set (ids qa)" "i \<notin> set (ids qb)" by auto
  then have f: "filter (\<lambda>x. fst x \<noteq> i) qa = qa" "filter (\<lambda>x. fst x \<noteq> i) qb = qb"
    by (auto intro!: filter_True)
  have n: "no_empty_level A" "no_empty_level B" using ne hit(1) by (auto simp: no_empty_level_def)
  show ?thesis
    using remove_unused [OF i(1) n(1)] remove_unused [OF i(2) n(2)] hit r f
    by (simp add: side_order.upd_level_hit)
next
  case (miss A B)
  have "p \<notin> fst ` set ls" using miss side_order.po_irrefl by fastforce
  with q show ?thesis by (simp add: side_order.queue_at_miss)
qed

lemma book_no_empty: "book_rep ob Q \<Longrightarrow> no_empty_level (abs_book ob s)"
  using book_repD(2) [of ob Q s] abs_book_eq [of ob Q s]
  by (auto simp: no_empty_level_def abs_levels_def list_all2_iff level_rep_def)

lemma spec_remove_unknown:
  assumes rep: "book_rep ob Q" and i: "count (abs_ids (abs_book ob)) i = 0"
  shows "spec_remove i (abs_book ob) = abs_book ob"
proof
  fix s
  have "count (mset (level_ids (abs_book ob s))) i = 0" using i by (simp add: abs_ids_side [of _ s])
  then have "i \<notin> set (level_ids (abs_book ob s))" by (simp only: count_mset_0_iff simp_thms)
  then show "spec_remove i (abs_book ob) s = abs_book ob s"
    unfolding spec_remove_def using book_no_empty [OF rep] by (rule remove_unused)
qed

lemma cancel_order_refines:
  assumes rep: "book_rep ob Q" and ok: "ids_ok ob"
  shows "\<exists>ob' Q'. cancel_order i ob = ok ob' \<and> book_rep ob' Q' \<and> ids_ok ob' \<and>
    capacity (pool ob') = capacity (pool ob) \<and>
    abs_book ob' = (if i = kAnonymous then abs_book ob else spec_remove i (abs_book ob))"
proof (cases "index ob i")
  case None
  then have run: "cancel_order i ob = ok ob" by (simp add: cancel_order_def)
  have "abs_book ob = (if i = kAnonymous then abs_book ob else spec_remove i (abs_book ob))"
    using spec_remove_unknown [OF rep, of i] ids_okD [OF ok, of i] None by simp
  with run rep ok show ?thesis by blast
next
  case (Some loc)
  let ?s = "loc_side loc" and ?p = "loc_price loc"
  have i: "i \<noteq> kAnonymous" using index_anonymous [OF rep] Some by auto
  obtain ob' Q' qa v qb where c: "cancel_order i ob = ok ob'" "book_rep ob' Q'"
    "queue_at ?p (abs_book ob ?s) = qa @ (i, v) # qb"
    "abs_book ob' = (abs_book ob)(?s := upd_level (before ?s) ?p (\<lambda>_. qa @ qb) (abs_book ob ?s))"
    "index ob' = (index ob)(i := None)" "capacity (pool ob') = capacity (pool ob)"
    using cancel_order_spec [OF rep Some] by blast
  have tot: "count (abs_ids (abs_book ob)) i = 1" using ids_okD [OF ok i] Some by simp
  have q1: "1 \<le> count (mset (level_ids (abs_book ob ?s))) i"
    by (rule order_trans [OF _ queue_ids_subset [where p = ?p, OF book_sorted [OF rep]]]) (simp add: c(3))
  have "count (mset (level_ids (abs_book ob ?s))) i +
      count (mset (level_ids (abs_book ob (opposed ?s)))) i = 1"
    using tot by (simp add: abs_ids_side [of _ ?s])
  with q1 have one: "count (mset (level_ids (abs_book ob ?s))) i = 1"
    and none: "count (mset (level_ids (abs_book ob (opposed ?s)))) i = 0"
    by linarith+
  from none have "i \<notin> set (level_ids (abs_book ob (opposed ?s)))" by (simp only: count_mset_0_iff simp_thms)
  note other = remove_unused [OF this book_no_empty [OF rep]]
  note this_side = remove_at [OF book_sorted [OF rep] book_no_empty [OF rep] c(3) one]
  have "abs_book ob' = spec_remove i (abs_book ob)"
  proof
    fix t
    show "abs_book ob' t = spec_remove i (abs_book ob) t"
      using side_cases_opposed [of t ?s] other this_side c(4) by (auto simp: spec_remove_def)
  qed
  moreover have "ids_ok ob'"
    by (rule ids_ok_upd [OF rep ok c(4), where P = "[i]"]) (simp_all add: c(3,5) restrict_one)
  ultimately show ?thesis using c i by auto
qed

lemma delete_order_refines:
  assumes rep: "book_rep ob Q" and ok: "ids_ok ob" and v: "v < 2 ^ 63"
  shows "\<exists>ob' Q'. delete_order s p v ob = ok ob' \<and> book_rep ob' Q' \<and> ids_ok ob' \<and>
    capacity (pool ob') = capacity (pool ob) \<and> abs_book ob' = spec_delete s p v (abs_book ob)"
proof -
  obtain ob' Q' P where d: "delete_order s p v ob = ok ob'" "book_rep ob' Q'"
    "abs_book ob' = spec_delete s p v (abs_book ob)" "capacity (pool ob') = capacity (pool ob)"
    "index ob' = index ob |` (- set P)"
    "ids (queue_at p (abs_book ob s)) = P @ ids (drain v (queue_at p (abs_book ob s)))"
    using delete_order_spec [OF rep v, of s p] by blast
  have "ids_ok ob'"
    using ids_ok_upd [OF rep ok d(3) [unfolded spec_delete_def] d(5)] d(6) by simp
  with d show ?thesis by blast
qed

lemma ids_collapse:
  assumes "i \<noteq> kAnonymous" "0 < v" "\<forall>x \<in> set (tl q). fst x = kAnonymous"
  shows "count (mset (ids (collapse v q))) i = count (mset (ids q)) i"
proof (cases q)
  case Nil
  with assms show ?thesis by (simp add: collapse_def kAnonymous_def)
next
  case (Cons x r)
  then have "i \<notin> set (ids r)" using assms(1,3) by auto
  then have "count (mset (ids r)) i = 0" by (simp only: count_mset_0_iff simp_thms)
  with Cons assms(2) show ?thesis by (cases x) (simp add: collapse_def)
qed

lemma set_level_refines:
  assumes rep: "book_rep ob Q" and ok: "ids_ok ob" and v: "v < 2 ^ 63"
    and room: "0 < v \<Longrightarrow> queue_at p (abs_book ob s) = [] \<Longrightarrow> card (pool_live (pool ob)) < capacity (pool ob)"
    and anon: "0 < v \<Longrightarrow> \<forall>x \<in> set (tl (queue_at p (abs_book ob s))). fst x = kAnonymous"
  shows "\<exists>ob' Q'. set_level s p v ob = ok ob' \<and> book_rep ob' Q' \<and> ids_ok ob' \<and>
    capacity (pool ob') = capacity (pool ob) \<and> abs_book ob' = spec_set_level s p v (abs_book ob)"
proof -
  obtain ob' Q' P where d: "set_level s p v ob = ok ob'" "book_rep ob' Q'"
    "abs_book ob' = spec_set_level s p v (abs_book ob)" "capacity (pool ob') = capacity (pool ob)"
    "index ob' = index ob |` (- set P)" "0 < v \<longrightarrow> P = []"
    "v \<le> 0 \<longrightarrow> P = ids (queue_at p (abs_book ob s))"
    using set_level_run [OF rep v anon] room by blast
  have "ids_ok ob'"
    using ids_ok_upd [OF rep ok d(3) [unfolded spec_set_level_def] d(5)] d(6,7) anon ids_collapse [of _ v]
    by (cases "0 < v") (simp_all add: collapse_def)
  with d show ?thesis by blast
qed

lemma rest_refines:
  assumes rep: "book_rep ob Q" and ok: "ids_ok ob" and v: "0 < v" "v < 2 ^ 63"
    and room: "card (pool_live (pool ob)) < capacity (pool ob)"
  shows "\<exists>ob' Q'. rest kAnonymous s p v ob = ok ob' \<and> book_rep ob' Q' \<and> ids_ok ob' \<and>
    capacity (pool ob') = capacity (pool ob) \<and> abs_book ob' = spec_rest s p kAnonymous v (abs_book ob)"
proof -
  obtain ob' Q' where r: "rest kAnonymous s p v ob = ok ob'" "book_rep ob' Q'"
    "abs_book ob' = spec_rest s p kAnonymous v (abs_book ob)"
    "capacity (pool ob') = capacity (pool ob)" "index ob' = index ob"
    using rest_spec [OF rep room v, of kAnonymous s p] by auto
  have "ids_ok ob'"
    by (rule ids_ok_upd [OF rep ok r(3) [unfolded spec_rest_def], where P = "[]"])
      (simp_all add: r(5) restrict_map_UNIV)
  with r show ?thesis by blast
qed

section \<open>Commands\<close>

datatype command =
    Place order
  | Cancel order_id
  | Add side price int
  | Delete side price int
  | Set_Level side price int

text \<open>A call of the public interface. Only \<open>place_order\<close> answers with trades.\<close>

fun exec :: "command \<Rightarrow> order_book \<Rightarrow> (trade list \<times> order_book) run" where
  "exec (Place od) ob = place_order od ob"
| "exec (Cancel i) ob = chain (cancel_order i ob) (\<lambda>ob'. ok ([], ob'))"
| "exec (Add s p v) ob = chain (add_order s p v ob) (\<lambda>ob'. ok ([], ob'))"
| "exec (Delete s p v) ob = chain (delete_order s p v ob) (\<lambda>ob'. ok ([], ob'))"
| "exec (Set_Level s p v) ob = chain (set_level s p v ob) (\<lambda>ob'. ok ([], ob'))"

fun spec_exec :: "command \<Rightarrow> abook \<Rightarrow> trade list \<times> abook" where
  "spec_exec (Place od) ab = spec_place od ab"
| "spec_exec (Cancel i) ab = ([], if i = kAnonymous then ab else spec_remove i ab)"
| "spec_exec (Add s p v) ab = ([], if v \<le> 0 then ab else spec_rest s p kAnonymous v ab)"
| "spec_exec (Delete s p v) ab = ([], spec_delete s p v ab)"
| "spec_exec (Set_Level s p v) ab = ([], spec_set_level s p v ab)"

text \<open>
  What a caller owes the book: volumes of the width of \<open>Volume\<close>, a free slot for an order that may
  rest or a level that is new, a new id, an opposite side whose total fits \<open>Volume\<close> for a fill-or-kill order, and no
  identified order behind the head of a level that is overwritten.
\<close>

definition book_ids :: "abook \<Rightarrow> order_id list" where
  "book_ids ab = level_ids (ab BID) @ level_ids (ab ASK)"

fun owed :: "nat \<Rightarrow> command \<Rightarrow> abook \<Rightarrow> bool" where
  "owed cap (Place od) ab \<longleftrightarrow> ovolume od < 2 ^ 63 \<and> length (book_ids ab) < cap \<and>
     (oid od \<noteq> kAnonymous \<longrightarrow> oid od \<notin> set (book_ids ab)) \<and>
     (otype od = FILL_OR_KILL \<longrightarrow> resting_volume (ab (opposed (oside od))) < 2 ^ 63)"
| "owed cap (Cancel i) ab \<longleftrightarrow> True"
| "owed cap (Add s p v) ab \<longleftrightarrow> v < 2 ^ 63 \<and> length (book_ids ab) < cap"
| "owed cap (Delete s p v) ab \<longleftrightarrow> v < 2 ^ 63"
| "owed cap (Set_Level s p v) ab \<longleftrightarrow> v < 2 ^ 63 \<and>
     (0 < v \<and> queue_at p (ab s) = [] \<longrightarrow> length (book_ids ab) < cap) \<and>
     (0 < v \<longrightarrow> (\<forall>x \<in> set (tl (queue_at p (ab s))). fst x = kAnonymous))"

definition book_ok :: "order_book \<Rightarrow> bool" where
  "book_ok ob \<longleftrightarrow> book_inv ob \<and> ids_ok ob"

lemma book_okD: "book_ok ob \<Longrightarrow> \<exists>Q. book_rep ob Q \<and> ids_ok ob"
  by (simp add: book_ok_def book_inv_iff)

lemma book_okI: "book_rep ob Q \<Longrightarrow> ids_ok ob \<Longrightarrow> book_ok ob"
  by (auto simp: book_ok_def book_inv_iff)

lemma mset_book_ids: "mset (book_ids ab) = abs_ids ab"
  by (simp add: book_ids_def abs_ids_def)

lemma book_room: "book_rep ob Q \<Longrightarrow> length (book_ids (abs_book ob)) = card (pool_live (pool ob))"
  using live_count [of ob Q] by (simp add: mset_book_ids [symmetric])

lemma fresh_id:
  assumes rep: "book_rep ob Q" and ok: "ids_ok ob"
    and "i \<noteq> kAnonymous \<longrightarrow> i \<notin> set (book_ids (abs_book ob))"
  shows "index ob i = None"
proof (cases "i = kAnonymous")
  case True
  then show ?thesis using index_anonymous [OF rep] by simp
next
  case False
  with assms(3) have "count (abs_ids (abs_book ob)) i = 0" by (simp add: mset_book_ids [symmetric])
  with ids_okD [OF ok False] show ?thesis by (simp split: if_splits)
qed

lemma exec_refines:
  assumes "book_ok ob" and ow: "owed (capacity (pool ob)) c (abs_book ob)"
  shows "\<exists>ts ob'. exec c ob = ok (ts, ob') \<and> book_ok ob' \<and>
    capacity (pool ob') = capacity (pool ob) \<and> spec_exec c (abs_book ob) = (ts, abs_book ob')"
proof -
  obtain Q where rep: "book_rep ob Q" and ok: "ids_ok ob" using book_okD [OF assms(1)] by blast
  note room = book_room [OF rep]
  show ?thesis
  proof (cases c)
    case (Place od)
    with ow room have v: "ovolume od < 2 ^ 63" and r: "card (pool_live (pool ob)) < capacity (pool ob)"
      and i: "index ob (oid od) = None"
      and fok: "otype od = FILL_OR_KILL \<Longrightarrow> resting_volume (abs_book ob (opposed (oside od))) < 2 ^ 63"
      using fresh_id [OF rep ok] by auto
    obtain ts ob' Q' where p: "place_order od ob = ok (ts, ob')" "book_rep ob' Q'"
      "(ts, abs_book ob') = spec_place od (abs_book ob)"
      using place_order_refines [OF rep v r fok] by blast
    have "capacity (pool ob') = capacity (pool ob)" "ids_ok ob'"
      using place_order_run [OF rep v] p(1) i ok by auto
    with p Place show ?thesis by (auto intro: book_okI)
  next
    case (Cancel i)
    with cancel_order_refines [OF rep ok, of i] show ?thesis by (auto intro: book_okI)
  next
    case (Add s p v)
    show ?thesis
    proof (cases "v \<le> 0")
      case True
      with Add assms(1) show ?thesis by (simp add: add_order_def)
    next
      case False
      with Add ow room rest_refines [OF rep ok, of v s p] show ?thesis
        by (auto simp: add_order_def intro: book_okI)
    qed
  next
    case (Delete s p v)
    with ow delete_order_refines [OF rep ok, of v s p] show ?thesis by (auto intro: book_okI)
  next
    case (Set_Level s p v)
    with ow room set_level_refines [OF rep ok, of v p s] show ?thesis by (auto intro: book_okI)
  qed
qed

interpretation book: simulation exec spec_exec book_ok abs_book "\<lambda>ob. owed (capacity (pool ob))"
  by unfold_locales (use exec_refines in fastforce)

section \<open>A new book\<close>

abbreviation empty_abook :: abook where
  "empty_abook \<equiv> (\<lambda>_. [])"

lemma side_levels_new [simp]: "side_levels s (order_book_new cap) = []"
  "pool (order_book_new cap) = object_pool_new cap" "index (order_book_new cap) = Map.empty"
  by (simp_all add: order_book_new_def side_levels_def)

lemma abs_book_new [simp]: "abs_book (order_book_new cap) = empty_abook"
  by (simp add: abs_book_def fun_eq_iff)

lemma book_ok_new: "cap \<le> 2 ^ 31 \<Longrightarrow> book_ok (order_book_new cap)"
  by (rule book_okI [of _ "\<lambda>_. []"], rule book_repI [where t = BID])
    (simp_all add: ids_ok_def abs_ids_def pool_inv_new)

end
