(* ===== verification/Book_Correct.thy ===== *)
theory Book_Correct
  imports Book_Commands
begin

text \<open>
  The properties of the matching engine. The lemmas before them are about the reference operations
  of \<open>Match_Spec\<close>; the properties are about the model of the code and rest on the simulation of
  \<open>Book_Commands\<close>.
\<close>

section \<open>Facts about the reference operations\<close>

definition prices :: "alevel list \<Rightarrow> price set" where
  "prices ls = fst ` set ls"

lemma prices_simps [simp]:
  "prices [] = {}" "prices (l # ls) = insert (fst l) (prices ls)"
  by (simp_all add: prices_def)

text \<open>No bid reaches an ask.\<close>

definition uncrossed :: "abook \<Rightarrow> bool" where
  "uncrossed ab \<longleftrightarrow> (\<forall>b \<in> fst ` set (ab BID). \<forall>a \<in> fst ` set (ab ASK). b < a)"

lemma uncrossed_side:
  "uncrossed ab \<longleftrightarrow> (\<forall>p \<in> prices (ab s). \<forall>r \<in> prices (ab (opposed s)). \<not> acceptable s p r)"
  by (cases s) (auto simp: uncrossed_def prices_def acceptable_def)

lemma prices_upd_level: "prices (upd_level lt p f ls) \<subseteq> insert p (prices ls)"
  by (induction ls) (auto split: if_splits)

lemma prices_upd_level_nil: "f [] = [] \<Longrightarrow> prices (upd_level lt p f ls) \<subseteq> prices ls"
  by (induction ls) (auto split: if_splits)

lemma drain_nil [simp]: "drain v [] = []" by simp

lemma prices_dropWhile: "r \<in> prices (dropWhile P ls) \<Longrightarrow> r \<in> prices ls"
  by (auto simp: prices_def dest: set_dropWhileD)

lemma uncrossed_mono:
  assumes "uncrossed ab" "\<And>s. prices (ab' s) \<subseteq> prices (ab s)"
  shows "uncrossed ab'"
proof -
  have "prices (ab' BID) \<subseteq> prices (ab BID)" "prices (ab' (opposed BID)) \<subseteq> prices (ab (opposed BID))"
    by (intro assms(2))+
  with assms(1) show ?thesis unfolding uncrossed_side [of _ BID] by blast
qed

definition sorted_book :: "abook \<Rightarrow> bool" where
  "sorted_book ab \<longleftrightarrow> (\<forall>s. sorted_wrt (before s) (map fst (ab s)) \<and> positive_book (ab s))"

lemma book_ok_sorted: "book_ok ob \<Longrightarrow> sorted_book (abs_book ob)"
  unfolding sorted_book_def using book_okD book_sorted book_positive by blast

text \<open>\<open>spec_place\<close>, once its order is neither empty nor killed.\<close>

definition killed :: "order \<Rightarrow> abook \<Rightarrow> bool" where
  "killed od ab \<longleftrightarrow> otype od = FILL_OR_KILL \<and>
     liquidity (acceptable (oside od) (oprice od)) (ab (opposed (oside od))) < ovolume od"

lemma spec_place_cases [consumes 1, case_names none swept]:
  assumes "spec_place od ab = (ts, ab')"
  obtains (none) "ovolume od \<le> 0 \<or> killed od ab" "ts = []" "ab' = ab"
    | (swept) v ls where "0 < ovolume od" "\<not> killed od ab"
      "sweep (acceptable (oside od) (oprice od)) (oid od) (ovolume od) (ab (opposed (oside od))) = (v, ls, ts)"
      "ab' = (if v > 0 \<and> otype od = GOOD_TILL_CANCELED
        then spec_rest (oside od) (oprice od) (oid od) v (ab(opposed (oside od) := ls))
        else ab(opposed (oside od) := ls))"
  using assms
  by (auto simp: spec_place_def killed_def Let_def not_le split: if_splits prod.splits)

lemma spec_place_greedy:
  assumes "spec_place od ab = (ts, ab')" "sorted_book ab" "0 < ovolume od" "\<not> killed od ab"
  shows "ts = greedy (oid od) (ovolume od)
    (ranked (filter (\<lambda>l. acceptable (oside od) (oprice od) (fst l)) (ab (opposed (oside od)))))"
  using assms(1)
proof (cases rule: spec_place_cases)
  case none
  with assms show ?thesis by simp
next
  case (swept v ls)
  from assms(2) have so: "sorted_wrt (before (opposed (oside od))) (map fst (ab (opposed (oside od))))"
    "positive_book (ab (opposed (oside od)))" by (auto simp: sorted_book_def)
  show ?thesis
    using sweep_result [OF swept(3) so(2)] assms(3) unfolding accepted_prefix [OF so(1)] by simp
qed

lemma greedy_trades:
  assumes "t \<in> set (greedy a v xs)" "\<forall>x \<in> set xs. 0 < snd (snd x)"
  shows "aggressor t = a \<and> 0 < tvolume t \<and> (\<exists>w. (tprice t, resting t, w) \<in> set xs \<and> tvolume t \<le> w)"
  using assms by (induction a v xs rule: greedy.induct) (auto split: if_splits)

lemma resting_volume_upd:
  assumes "sorted_wrt (before s) (map fst ls)"
  shows "resting_volume (upd_level (before s) p f ls) =
    resting_volume ls + volumes (f (queue_at p ls)) - volumes (queue_at p ls)"
proof -
  have [simp]: "resting_volume (xs @ ys) = resting_volume xs + resting_volume ys" for xs ys
    by (simp add: resting_volume_def)
  from assms show ?thesis
  proof (cases rule: side_order.level_cases [where p = p])
    case (hit A q B)
    then show ?thesis by (simp add: side_order.upd_level_hit side_order.queue_at_hit)
  next
    case (miss A B)
    have "p \<notin> fst ` set ls" using miss side_order.po_irrefl by fastforce
    then have "queue_at p ls = []" by (rule side_order.queue_at_miss)
    with miss show ?thesis by (simp add: side_order.upd_level_miss)
  qed
qed

lemma spec_place_conserves:
  assumes "spec_place od ab = (ts, ab')" "sorted_book ab" "0 < ovolume od" "\<not> killed od ab"
  shows "resting_volume (ab (opposed (oside od))) = resting_volume (ab' (opposed (oside od))) + traded ts"
    and "traded ts \<le> ovolume od"
    and "resting_volume (ab' (oside od)) = resting_volume (ab (oside od)) +
      (if otype od = GOOD_TILL_CANCELED then ovolume od - traded ts else 0)"
    and "traded ts = min (ovolume od)
      (liquidity (acceptable (oside od) (oprice od)) (ab (opposed (oside od))))"
proof -
  let ?s = "oside od" and ?t = "opposed (oside od)"
  from assms(1,3,4) obtain v ls where
    sw: "sweep (acceptable ?s (oprice od)) (oid od) (ovolume od) (ab ?t) = (v, ls, ts)"
    and ab': "ab' = (if v > 0 \<and> otype od = GOOD_TILL_CANCELED
        then spec_rest ?s (oprice od) (oid od) v (ab(?t := ls)) else ab(?t := ls))"
    by (cases rule: spec_place_cases) auto
  have so: "sorted_wrt (before ?s) (map fst (ab ?s))" "positive_book (ab ?t)"
    using assms(2) by (auto simp: sorted_book_def)
  note c = sweep_conserves [OF sw] and r = sweep_result [OF sw so(2)]
  have v: "0 \<le> v" using r assms(3) by simp
  show "resting_volume (ab ?t) = resting_volume (ab' ?t) + traded ts" "traded ts \<le> ovolume od"
    using c v ab' by (auto simp: spec_rest_def)
  show "resting_volume (ab' ?s) = resting_volume (ab ?s) +
      (if otype od = GOOD_TILL_CANCELED then ovolume od - traded ts else 0)"
    using c v ab' resting_volume_upd [OF so(1)] by (auto simp: spec_rest_def)
  show "traded ts = min (ovolume od) (liquidity (acceptable ?s (oprice od)) (ab ?t))"
    using conjunct1 [OF c] conjunct1 [OF r] assms(3) by linarith
qed

lemma prices_sweep: "sweep c a v ls = (v', ls', ts) \<Longrightarrow> prices ls' \<subseteq> prices ls"
  unfolding prices_def by (rule sweep_subset)

lemma spec_place_uncrossed:
  assumes sp: "spec_place od ab = (ts, ab')" and so: "sorted_book ab" and un: "uncrossed ab"
  shows "uncrossed ab'"
  using sp
proof (cases rule: spec_place_cases)
  case none
  with un show ?thesis by simp
next
  case (swept v ls)
  let ?s = "oside od" and ?t = "opposed (oside od)"
  note pr = prices_sweep [OF swept(3)]
  have un1: "uncrossed (ab(?t := ls))"
    by (rule uncrossed_mono [OF un]) (use pr in auto)
  show ?thesis
  proof (cases "v > 0 \<and> otype od = GOOD_TILL_CANCELED")
    case False
    with swept(4) un1 show ?thesis by auto
  next
    case True
    have st: "sorted_wrt (before ?t) (map fst (ab ?t))" "positive_book (ab ?t)"
      using so by (auto simp: sorted_book_def)
    have ls: "ls = dropWhile (\<lambda>l. acceptable ?s (oprice od) (fst l)) (ab ?t)"
      using sweep_result [OF swept(3) st(2)] swept(1) True by simp
    have "\<forall>l \<in> set ls. \<not> acceptable ?s (oprice od) (fst l)"
      unfolding ls by (rule dropped_not_acceptable [OF st(1)])
    then have na: "\<forall>r \<in> prices ls. \<not> acceptable ?s (oprice od) r" by (simp add: prices_def)
    have own: "prices (ab' ?s) \<subseteq> insert (oprice od) (prices (ab ?s))" and opp: "ab' ?t = ls"
      using swept(4) True prices_upd_level by (simp_all add: spec_rest_def)
    have old: "\<not> acceptable ?s p r" if "p \<in> prices (ab ?s)" "r \<in> prices ls" for p r
      using un1 that unfolding uncrossed_side [of _ ?s] by simp
    show ?thesis
      unfolding uncrossed_side [of _ ?s] opp
    proof (intro ballI)
      fix p r
      assume p: "p \<in> prices (ab' ?s)" and r: "r \<in> prices ls"
      from p own consider "p = oprice od" | "p \<in> prices (ab ?s)" by blast
      then show "\<not> acceptable ?s p r" using na old r by cases auto
    qed
  qed
qed

lemma volumes_drain:
  "\<forall>x \<in> set q. 0 < snd x \<Longrightarrow> volumes (drain v q) = volumes q - min (max 0 v) (volumes q)"
proof (induction v q rule: drain.induct)
  case (2 v i w q)
  have "0 \<le> volumes q" using "2.prems" by (intro volumes_nonneg) simp
  with 2 show ?case by (auto simp: min_def max_def split: if_splits)
qed simp

lemma drain_suffix: "\<exists>k. ids (drain v q) = drop k (ids q)"
proof (induction v q rule: drain.induct)
  case (2 v i w q)
  show ?case
  proof (cases "v \<le> 0 \<or> v < w")
    case True
    then have "ids (drain v ((i, w) # q)) = drop 0 (ids ((i, w) # q))" by auto
    then show ?thesis by blast
  next
    case False
    then obtain k where "ids (drain (v - w) q) = drop k (ids q)" using "2.IH" by auto
    with False have "ids (drain v ((i, w) # q)) = drop (Suc k) (ids ((i, w) # q))" by simp
    then show ?thesis by blast
  qed
qed simp

section \<open>A sample book\<close>

text \<open>Asks 101: 5 (id 1), 7 (id 2); 103: 4 (id 3). Bids 99: 6 (id 4); 98: 10 (anonymous).\<close>

definition sample_cmds :: "command list" where
  "sample_cmds = [Place (limit_order 1 ASK 101 5), Place (limit_order 2 ASK 101 7),
     Place (limit_order 3 ASK 103 4), Place (limit_order 4 BID 99 6), Add BID 98 10]"

definition sample_book :: order_book where
  "sample_book = (case run_all exec sample_cmds (order_book_new 8) of
     Some (Inr (rs, ob)) \<Rightarrow> ob | _ \<Rightarrow> order_book_new 8)"

lemma sample_ok: "book_ok sample_book" "capacity (pool sample_book) = 8"
proof -
  have "allowed_all (owed (capacity (pool (order_book_new 8)))) spec_exec sample_cmds
      (abs_book (order_book_new 8))" unfolding abs_book_new by code_simp
  from book.run_sim [OF book_ok_new this] obtain rs ob where
    "run_all exec sample_cmds (order_book_new 8) = ok (rs, ob)" "book_ok ob"
    "owed (capacity (pool ob)) = owed (capacity (pool (order_book_new 8)))" by auto
  moreover have "capacity (pool sample_book) = 8" by code_simp
  ultimately show "book_ok sample_book" "capacity (pool sample_book) = 8"
    by (simp_all add: sample_book_def)
qed

section \<open>Sessions\<close>

text \<open>
  C1: any session of public calls on a new book, in which each call meets its caller's obligations
  where the reference book stands, runs to its end without a fault; its trades are the ones the
  reference book produces, and the resting orders, level by level and in queue order, are the
  reference book's.
\<close>

theorem session_refines:
  assumes "cap \<le> 2 ^ 31" "allowed_all (owed cap) spec_exec cs empty_abook"
  shows "\<exists>rs ob. run_all exec cs (order_book_new cap) = ok (rs, ob) \<and> book_ok ob \<and>
    spec_all spec_exec cs empty_abook = (rs, abs_book ob)"
  using book.run_sim [OF book_ok_new [OF assms(1)], of cs] assms(2) by auto

theorem session_refines_witness:
  "\<exists>rs ob. run_all exec sample_cmds (order_book_new 8) = ok (rs, ob) \<and> book_ok ob \<and>
    spec_all spec_exec sample_cmds empty_abook = (rs, abs_book ob)"
  by (rule session_refines) (simp, code_simp)

text \<open>Calls that cannot cross the book: everything but seeding and overwriting levels.\<close>

fun trading :: "command \<Rightarrow> bool" where
  "trading (Place od) = True"
| "trading (Cancel i) = True"
| "trading (Delete s p v) = True"
| "trading (Add s p v) = False"
| "trading (Set_Level s p v) = False"

text \<open>The abstract books that arise from good books.\<close>

definition proper :: "abook \<Rightarrow> bool" where
  "proper ab \<longleftrightarrow> sorted_book ab \<and> uncrossed ab"

lemma prices_remove: "prices (spec_remove i ab s) \<subseteq> prices (ab s)"
  by (force simp: spec_remove_def prices_def)

lemma trading_uncrossed:
  assumes "book_ok ob" "owed (capacity (pool ob)) c (abs_book ob)" "trading c"
    and un: "uncrossed (abs_book ob)" and ex: "exec c ob = ok (ts, ob')"
  shows "uncrossed (abs_book ob')"
proof -
  have sp: "spec_exec c (abs_book ob) = (ts, abs_book ob')"
    using exec_refines [OF assms(1,2)] ex by auto
  show ?thesis
  proof (cases c)
    case (Place od)
    with sp spec_place_uncrossed [OF _ book_ok_sorted [OF assms(1)] un] show ?thesis by simp
  next
    case (Cancel i)
    with sp have "abs_book ob' = (if i = kAnonymous then abs_book ob else spec_remove i (abs_book ob))" by simp
    then show ?thesis using uncrossed_mono [OF un] prices_remove un by (auto split: if_splits)
  next
    case (Delete s p v)
    with sp have "abs_book ob' = spec_delete s p v (abs_book ob)" by simp
    then show ?thesis
      using uncrossed_mono [OF un, of "abs_book ob'"] prices_upd_level_nil [of "drain v"]
      by (simp add: spec_delete_def)
  qed (use assms(3) in simp_all)
qed

text \<open>Sessions of trading calls, one call at a time.\<close>

inductive trades_to :: "order_book \<Rightarrow> order_book \<Rightarrow> bool" for start where
  begin_here: "trades_to start start"
| next_call: "trades_to start ob \<Longrightarrow> trading c \<Longrightarrow> owed (capacity (pool ob)) c (abs_book ob) \<Longrightarrow>
    exec c ob = ok (ts, ob') \<Longrightarrow> trades_to start ob'"

lemma trades_to_good:
  assumes "trades_to start ob" "book_ok start" "uncrossed (abs_book start)"
  shows "book_ok ob \<and> uncrossed (abs_book ob)"
  using assms
proof (induction rule: trades_to.induct)
  case (next_call ob c ts ob')
  then show ?case using exec_refines [of ob c] trading_uncrossed [of ob c ts ob'] by auto
qed simp

text \<open>
  C6: a book that starts uncrossed stays uncrossed in every state that \<open>place_order\<close>,
  \<open>cancel_order\<close> and \<open>delete_order\<close> can lead to: the best bid is below the best ask.
\<close>

theorem trading_never_crosses:
  assumes "trades_to start ob" "book_ok start" "uncrossed (abs_book start)"
    and "best_bid ob = Some b" "best_ask ob = Some a"
  shows "b < a"
proof -
  have un: "uncrossed (abs_book ob)" using trades_to_good [OF assms(1-3)] by simp
  obtain lb bs la ra where "bid_levels ob = lb # bs" "lv_price lb = b"
    "ask_levels ob = la # ra" "lv_price la = a"
    using assms(4,5) by (auto simp: best_bid_def best_ask_def split: list.splits)
  with un show ?thesis
    by (simp add: uncrossed_def abs_book_def side_levels_def abs_level_def)
qed

text \<open>A bid of 14 at the best ask takes the 12 there and rests its remainder, which is then the best bid.\<close>

theorem trading_never_crosses_witness:
  "\<exists>ts ob. place_order (limit_order 9 BID 101 14) sample_book = ok (ts, ob) \<and>
    best_bid ob = Some 101 \<and> best_ask ob = Some 103 \<and> (101 :: price) < 103"
proof -
  let ?c = "Place (limit_order 9 BID 101 14)"
  have ow: "owed (capacity (pool sample_book)) ?c (abs_book sample_book)" unfolding sample_ok(2) by code_simp
  obtain ts ob where r: "exec ?c sample_book = ok (ts, ob)" using exec_refines [OF sample_ok(1) ow] by blast
  have "map_option (map_sum (\<lambda>e. e) (\<lambda>(ts, ob). (best_bid ob, best_ask ob))) (exec ?c sample_book) =
      ok (Some 101, Some 103)" by code_simp
  with r have e: "best_bid ob = Some 101" "best_ask ob = Some 103" by simp_all
  have "uncrossed (abs_book sample_book)" by code_simp
  from trading_never_crosses [OF next_call [OF begin_here _ ow r] sample_ok(1) this e] r e show ?thesis by simp
qed

section \<open>Matching\<close>

lemma place_runs:
  assumes "book_ok ob" "owed (capacity (pool ob)) (Place od) (abs_book ob)"
    and "place_order od ob = ok (ts, ob')"
  shows "spec_place od (abs_book ob) = (ts, abs_book ob')" "book_ok ob'"
  using exec_refines [OF assms(1,2)] assms(3) by auto

text \<open>
  C2: \<open>place_order\<close> returns, keeps the invariant, and is the reference \<open>spec_place\<close>: same trades in
  the same order, same book afterwards.
\<close>

theorem place_order_implements:
  assumes "book_ok ob" "owed (capacity (pool ob)) (Place od) (abs_book ob)"
  shows "\<exists>ts ob'. place_order od ob = ok (ts, ob') \<and> book_ok ob' \<and>
    spec_place od (abs_book ob) = (ts, abs_book ob')"
  using exec_refines [OF assms] by auto

text \<open>An incoming bid that takes all of level 101, part of 103 and rests nothing.\<close>

definition taker :: order where
  "taker = \<lparr>oid = 9, oside = BID, oprice = 103, ovolume = 14, otype = GOOD_TILL_CANCELED\<rparr>"

definition taker_fok :: order where
  "taker_fok = \<lparr>oid = 9, oside = BID, oprice = 101, ovolume = 13, otype = FILL_OR_KILL\<rparr>"

lemma taker_owed: "owed (capacity (pool sample_book)) (Place taker) (abs_book sample_book)"
  "owed (capacity (pool sample_book)) (Place taker_fok) (abs_book sample_book)"
  unfolding sample_ok(2) by code_simp+

theorem place_order_implements_witness:
  "\<exists>ts ob'. place_order taker sample_book = ok (ts, ob') \<and> book_ok ob' \<and>
    spec_place taker (abs_book sample_book) = (ts, abs_book ob')"
  by (rule place_order_implements [OF sample_ok(1) taker_owed(1)])

text \<open>
  C3: price-time priority. Unless a fill-or-kill order is killed, the trades of \<open>place_order\<close> are
  the greedy fill of the order against the opposite orders whose price the limit accepts, best
  price first and oldest first within a price, each at the resting order's price.
\<close>

theorem price_time_priority:
  assumes "book_ok ob" "owed (capacity (pool ob)) (Place od) (abs_book ob)"
    and "place_order od ob = ok (ts, ob')" "0 < ovolume od" "\<not> killed od (abs_book ob)"
  shows "ts = greedy (oid od) (ovolume od)
    (ranked (filter (\<lambda>l. acceptable (oside od) (oprice od) (fst l)) (abs_book ob (opposed (oside od)))))"
  using spec_place_greedy [OF place_runs(1) [OF assms(1-3)] book_ok_sorted [OF assms(1)] assms(4,5)] .

lemma taker_run: "\<exists>ob'. place_order taker sample_book = ok
    ([\<lparr>aggressor = 9, resting = 1, tprice = 101, tvolume = 5\<rparr>,
      \<lparr>aggressor = 9, resting = 2, tprice = 101, tvolume = 7\<rparr>,
      \<lparr>aggressor = 9, resting = 3, tprice = 103, tvolume = 2\<rparr>], ob')"
  by (rule run_fst) code_simp

lemma taker_lives: "0 < ovolume taker" "\<not> killed taker (abs_book sample_book)"
  by code_simp+

theorem price_time_priority_witness:
  "\<exists>ts ob'. place_order taker sample_book = ok (ts, ob') \<and> length ts = 3 \<and>
    ts = greedy 9 14 [(101, 1, 5), (101, 2, 7), (103, 3, 4)]"
proof -
  obtain ts ob' where r: "place_order taker sample_book = ok (ts, ob')" "length ts = 3"
    using taker_run by auto
  have "ranked (filter (\<lambda>l. acceptable (oside taker) (oprice taker) (fst l))
      (abs_book sample_book (opposed (oside taker)))) = [(101, 1, 5), (101, 2, 7), (103, 3, 4)]"
    "oid taker = 9" "ovolume taker = 14" by code_simp+
  with r price_time_priority [OF sample_ok(1) taker_owed(1) r(1) taker_lives] show ?thesis by simp
qed

text \<open>
  C4: quantity is conserved. What the order trades leaves the opposite side, never more than the
  order or the accepted liquidity; a good-till-cancelled order rests exactly its remainder on its
  own side, and the other types rest nothing.
\<close>

theorem place_order_conserves:
  assumes "book_ok ob" "owed (capacity (pool ob)) (Place od) (abs_book ob)"
    and "place_order od ob = ok (ts, ob')" "0 < ovolume od" "\<not> killed od (abs_book ob)"
  shows "traded ts = min (ovolume od)
      (liquidity (acceptable (oside od) (oprice od)) (abs_book ob (opposed (oside od)))) \<and>
    resting_volume (abs_book ob' (opposed (oside od))) =
      resting_volume (abs_book ob (opposed (oside od))) - traded ts \<and>
    resting_volume (abs_book ob' (oside od)) = resting_volume (abs_book ob (oside od)) +
      (if otype od = GOOD_TILL_CANCELED then ovolume od - traded ts else 0)"
  using spec_place_conserves [OF place_runs(1) [OF assms(1-3)] book_ok_sorted [OF assms(1)] assms(4,5)]
  by simp

theorem place_order_conserves_witness:
  "\<exists>ts ob'. place_order taker sample_book = ok (ts, ob') \<and> traded ts = 14 \<and>
    resting_volume (abs_book ob' ASK) = 2 \<and> resting_volume (abs_book ob' BID) = 16"
proof -
  obtain ts ob' where r: "place_order taker sample_book = ok (ts, ob')" using taker_run by auto
  have "liquidity (acceptable (oside taker) (oprice taker)) (abs_book sample_book (opposed (oside taker))) = 16"
    "resting_volume (abs_book sample_book ASK) = 16" "resting_volume (abs_book sample_book BID) = 16"
    "opposed (oside taker) = ASK" "oside taker = BID" "ovolume taker = 14" by code_simp+
  with r place_order_conserves [OF sample_ok(1) taker_owed(1) r taker_lives] show ?thesis by simp
qed

text \<open>
  C5: a fill-or-kill order trades its whole volume, when the accepted liquidity covers it, or the
  call has no effect at all; it never rests.
\<close>

theorem fill_or_kill_atomic:
  assumes "book_ok ob" "owed (capacity (pool ob)) (Place od) (abs_book ob)"
    and "place_order od ob = ok (ts, ob')" "0 < ovolume od" "otype od = FILL_OR_KILL"
  shows "if ovolume od \<le> liquidity (acceptable (oside od) (oprice od)) (abs_book ob (opposed (oside od)))
    then traded ts = ovolume od \<and> resting_volume (abs_book ob' (oside od)) = resting_volume (abs_book ob (oside od))
    else ts = [] \<and> ob' = ob"
proof (cases "killed od (abs_book ob)")
  case False
  note c = spec_place_conserves [OF place_runs(1) [OF assms(1-3)] book_ok_sorted [OF assms(1)] assms(4) False]
  from False assms(5) have l: "ovolume od \<le> liquidity (acceptable (oside od) (oprice od))
      (abs_book ob (opposed (oside od)))" by (simp add: killed_def)
  with c(3,4) assms(5) show ?thesis by simp
next
  case True
  obtain Q where rep: "book_rep ob Q" using book_okD [OF assms(1)] by blast
  have "rejected od ob" using rejected_spec [OF rep] True assms(2) by (auto simp: killed_def)
  with assms(3) True show ?thesis by (auto simp: place_order_rejected killed_def)
qed

theorem fill_or_kill_atomic_witness:
  "place_order taker_fok sample_book = ok ([], sample_book)"
proof -
  obtain ts ob' where r: "place_order taker_fok sample_book = ok (ts, ob')"
    using exec_refines [OF sample_ok(1) taker_owed(2)] by auto
  have c: "0 < ovolume taker_fok" "otype taker_fok = FILL_OR_KILL"
    "\<not> ovolume taker_fok \<le> liquidity (acceptable (oside taker_fok) (oprice taker_fok))
      (abs_book sample_book (opposed (oside taker_fok)))" by code_simp+
  from fill_or_kill_atomic [OF sample_ok(1) taker_owed(2) r c(1,2)] c(3) r show ?thesis by simp
qed

text \<open>
  C7: the only fault of \<open>place_order\<close> on a good book is the pool running out: with any volume of the
  type's width it either returns, with the representation intact, or stops at the assertion of
  \<open>allocate\<close> while every slot is taken by a resting order.
\<close>

theorem place_order_faults:
  assumes "book_ok ob" "ovolume od < 2 ^ 63"
  shows "(\<exists>ts ob'. place_order od ob = ok (ts, ob') \<and> book_inv ob') \<or>
    place_order od ob = abort Pool_Exhausted \<and> capacity (pool ob) \<le> length (book_ids (abs_book ob))"
proof -
  obtain Q where rep: "book_rep ob Q" using book_okD [OF assms(1)] by blast
  from place_order_run [OF rep assms(2)] show ?thesis
    unfolding book_inv_iff book_room [OF rep] not_less by blast
qed

text \<open>A book of one slot is full after one order.\<close>

definition full_book :: order_book where
  "full_book = (case run_all exec [Place (limit_order 1 ASK 101 5)] (order_book_new 1) of
     Some (Inr (rs, ob)) \<Rightarrow> ob | _ \<Rightarrow> order_book_new 1)"

theorem place_order_faults_witness:
  "place_order (limit_order 2 BID 100 1) full_book = abort Pool_Exhausted"
proof -
  have "allowed_all (owed (capacity (pool (order_book_new 1)))) spec_exec
      [Place (limit_order 1 ASK 101 5)] (abs_book (order_book_new 1))" unfolding abs_book_new by code_simp
  from book.run_sim [OF book_ok_new this] have ok: "book_ok full_book"
    by (auto simp: full_book_def)
  have v: "ovolume (limit_order 2 BID 100 1) < 2 ^ 63"
    and e: "map_option (map_sum (\<lambda>e. e) (\<lambda>_. ())) (place_order (limit_order 2 BID 100 1) full_book) =
      abort Pool_Exhausted" by code_simp+
  from place_order_faults [OF ok v] e show ?thesis by auto
qed

end
