(* ===== verification/Book_Updating.thy ===== *)
theory Book_Updating
  imports Book_Correct
begin

text \<open>
  The properties of the operations that do not match orders: cancelling, reducing and overwriting
  levels, the queries, and the pool behind the book.
\<close>

section \<open>Cancelling\<close>

text \<open>
  C8: cancelling an identified order takes exactly that order out of the book: every other order
  keeps its price, volume and place in the queue, a level that becomes empty disappears, and an id
  that does not rest (never placed, filled, or already cancelled) changes nothing.
\<close>

theorem cancel_order_removes:
  assumes "book_ok ob" "i \<noteq> kAnonymous"
  shows "\<exists>ob'. cancel_order i ob = ok ob' \<and> book_ok ob' \<and> abs_book ob' = spec_remove i (abs_book ob) \<and>
    (i \<notin> set (book_ids (abs_book ob)) \<longrightarrow> abs_book ob' = abs_book ob) \<and> index ob' i = None"
proof -
  obtain Q where rep: "book_rep ob Q" and ok: "ids_ok ob" using book_okD [OF assms(1)] by blast
  obtain ob' Q' where c: "cancel_order i ob = ok ob'" "book_rep ob' Q'" "ids_ok ob'"
    "abs_book ob' = spec_remove i (abs_book ob)"
    using cancel_order_refines [OF rep ok, of i] assms(2) by auto
  have "abs_book ob' = abs_book ob" if "i \<notin> set (book_ids (abs_book ob))"
    using c(4) spec_remove_unknown [OF rep, of i] that by (simp add: mset_book_ids [symmetric])
  moreover have "i \<notin> set (book_ids (abs_book ob'))"
    by (auto simp: c(4) book_ids_def level_ids_def spec_remove_def)
  ultimately show ?thesis using c fresh_id [OF c(2,3)] by (blast intro: book_okI)
qed

theorem cancel_order_removes_witness:
  "\<exists>ob'. cancel_order 2 sample_book = ok ob' \<and> abs_book ob' ASK = [(101, [(1, 5)]), (103, [(3, 4)])]"
proof -
  have a: "(2 :: order_id) \<noteq> kAnonymous" by code_simp
  have "spec_remove 2 (abs_book sample_book) ASK = [(101, [(1, 5)]), (103, [(3, 4)])]" by code_simp
  with cancel_order_removes [OF sample_ok(1) a] show ?thesis by auto
qed

lemma remove_rested:
  assumes "sorted_wrt (before s) (map fst (ab s))" "\<And>t. no_empty_level (ab t)"
    and "i \<notin> set (book_ids ab)"
  shows "spec_remove i (spec_rest s p i v ab) = ab"
proof
  fix t
  have out: "i \<notin> set (level_ids (ab s))" "i \<notin> set (level_ids (ab (opposed s)))"
    using assms(3) by (cases s; simp add: book_ids_def)+
  show "spec_remove i (spec_rest s p i v ab) t = ab t"
  proof (cases "t = s")
    case False
    then have "t = opposed s" using side_cases_opposed [of t s] by simp
    then show ?thesis
      using remove_unused [OF out(2) assms(2)] by (simp add: spec_remove_def spec_rest_def)
  next
    case True
    from assms(1) show ?thesis
    proof (cases rule: side_order.level_cases [where p = p])
      case (hit A q B)
      have n: "no_empty_level A" "no_empty_level B" "q \<noteq> []"
        using assms(2) [of s] hit(1) by (auto simp: no_empty_level_def)
      have o: "i \<notin> set (level_ids A)" "i \<notin> set (level_ids B)" "i \<notin> set (ids q)"
        using out(1) hit(1) by auto
      then have "filter (\<lambda>x. fst x \<noteq> i) q = q" by (auto intro!: filter_True)
      then show ?thesis
        using hit True n remove_unused [OF o(1) n(1)] remove_unused [OF o(2) n(2)]
        by (simp add: spec_remove_def spec_rest_def side_order.upd_level_hit)
    next
      case (miss A B)
      have n: "no_empty_level A" "no_empty_level B"
        using assms(2) [of s] miss(1) by (auto simp: no_empty_level_def)
      have o: "i \<notin> set (level_ids A)" "i \<notin> set (level_ids B)" using out(1) miss(1) by auto
      show ?thesis
        using miss True remove_unused [OF o(1) n(1)] remove_unused [OF o(2) n(2)]
        by (simp add: spec_remove_def spec_rest_def side_order.upd_level_miss)
    qed
  qed
qed

text \<open>
  C9: placing a good-till-cancelled order that meets no acceptable liquidity and cancelling it
  again gives back the same resting orders in the same order.
\<close>

theorem place_then_cancel:
  assumes "book_ok ob" "owed (capacity (pool ob)) (Place od) (abs_book ob)"
    and "0 < ovolume od" "otype od = GOOD_TILL_CANCELED" "oid od \<noteq> kAnonymous"
    and "liquidity (acceptable (oside od) (oprice od)) (abs_book ob (opposed (oside od))) = 0"
  shows "\<exists>ob1 ob2. place_order od ob = ok ([], ob1) \<and> cancel_order (oid od) ob1 = ok ob2 \<and>
    book_ok ob2 \<and> abs_book ob2 = abs_book ob"
proof -
  let ?s = "oside od" and ?t = "opposed (oside od)" and ?c = "acceptable (oside od) (oprice od)"
  obtain Q where rep: "book_rep ob Q" using book_okD [OF assms(1)] by blast
  obtain ts ob1 where p: "place_order od ob = ok (ts, ob1)" "book_ok ob1"
    "spec_place od (abs_book ob) = (ts, abs_book ob1)" using exec_refines [OF assms(1,2)] by auto
  obtain v ls tr where sw: "sweep ?c (oid od) (ovolume od) (abs_book ob ?t) = (v, ls, tr)"
    by (cases "sweep ?c (oid od) (ovolume od) (abs_book ob ?t)")
  note r = sweep_result [OF sw book_positive [OF rep]]
  have v: "v = ovolume od" using r assms(3,6) by simp
  have front: "takeWhile (\<lambda>l. ?c (fst l)) (abs_book ob ?t) = []"
  proof (cases "abs_book ob ?t")
    case (Cons l ls)
    obtain pr q where l: "l = (pr, q)" by (cases l)
    have q: "q \<noteq> []" "\<forall>x \<in> set q. 0 < snd x"
      using book_no_empty [OF rep, of ?t] book_positive [OF rep, of ?t] Cons l
      by (auto simp: no_empty_level_def)
    have "0 < volumes q" using q volumes_nonneg [of "tl q"] by (cases q) auto
    moreover have "0 \<le> liquidity ?c ls" using book_positive [OF rep, of ?t] Cons by (intro liquidity_nonneg) simp
    ultimately show ?thesis using assms(6) Cons l by (auto split: if_splits)
  qed simp
  from front have "dropWhile (\<lambda>l. ?c (fst l)) (abs_book ob ?t) = abs_book ob ?t"
    by (metis append_Nil takeWhile_dropWhile_id)
  then have ls: "ls = abs_book ob ?t" and tr: "tr = []" using r front v assms(3) by auto
  have e: "abs_book ob1 = spec_rest ?s (oprice od) (oid od) v (abs_book ob)" "ts = []"
    using p(3) sw assms(3,4) v ls tr by (simp_all add: spec_place_def Let_def)
  have fresh: "oid od \<notin> set (book_ids (abs_book ob))" using assms(2,5) by simp
  obtain Q1 where rep1: "book_rep ob1 Q1" and ok1: "ids_ok ob1" using book_okD [OF p(2)] by blast
  obtain ob2 Q2 where "cancel_order (oid od) ob1 = ok ob2" "book_rep ob2 Q2" "ids_ok ob2"
    "abs_book ob2 = spec_remove (oid od) (abs_book ob1)"
    using cancel_order_refines [OF rep1 ok1, of "oid od"] assms(5) by auto
  moreover have "spec_remove (oid od) (abs_book ob1) = abs_book ob"
    unfolding e using book_no_empty [OF rep] fresh by (intro remove_rested book_sorted [OF rep])
  ultimately show ?thesis using p(1) e(2) by (auto intro: book_okI)
qed

theorem place_then_cancel_witness:
  "\<exists>ob1 ob2. place_order (limit_order 7 BID 100 3) sample_book = ok ([], ob1) \<and>
    cancel_order 7 ob1 = ok ob2 \<and> abs_book ob2 = abs_book sample_book"
proof -
  have a: "owed (capacity (pool sample_book)) (Place (limit_order 7 BID 100 3)) (abs_book sample_book)"
    unfolding sample_ok(2) by code_simp
  have b: "0 < ovolume (limit_order 7 BID 100 3)" "otype (limit_order 7 BID 100 3) = GOOD_TILL_CANCELED"
    "oid (limit_order 7 BID 100 3) \<noteq> kAnonymous" "oid (limit_order 7 BID 100 3) = 7"
    "liquidity (acceptable (oside (limit_order 7 BID 100 3)) (oprice (limit_order 7 BID 100 3)))
      (abs_book sample_book (opposed (oside (limit_order 7 BID 100 3)))) = 0" by code_simp+
  from place_then_cancel [OF sample_ok(1) a b(1-3,5)] b(4) show ?thesis by auto
qed

section \<open>Reducing a level\<close>

lemma spec_upd_at:
  assumes "sorted_wrt (before s) (map fst (ab s))"
  shows "queue_at p' ((ab(s := upd_level (before s) p f (ab s))) t) =
    (if t = s \<and> p' = p then f (queue_at p (ab s)) else queue_at p' (ab t))"
  using side_order.queue_at_upd_level [OF assms] by auto

lemma queue_positive:
  assumes "positive_book ls"
  shows "\<forall>x \<in> set (queue_at p ls). 0 < snd x"
proof (cases "map_of ls p")
  case (Some q)
  with assms map_of_SomeD [OF Some] show ?thesis by (auto simp: queue_at_def)
qed (simp add: queue_at_def)

text \<open>What \<open>drain\<close> leaves: the oldest orders are used up first, one is cut, the rest are untouched.\<close>

lemma drain_all: "volumes q \<le> v \<Longrightarrow> \<forall>x \<in> set q. 0 < snd x \<Longrightarrow> drain v q = []"
proof (induction v q rule: drain.induct)
  case (2 v i w q)
  then have "0 \<le> volumes q" by (intro volumes_nonneg) simp
  with 2 show ?case by simp
qed simp

lemma drain_cut:
  assumes "volumes used \<le> v" "v < volumes used + w" "\<forall>x \<in> set used. 0 < snd x"
  shows "drain v (used @ (i, w) # later) = (i, w - (v - volumes used)) # later"
  using assms
proof (induction used arbitrary: v)
  case (Cons x used)
  obtain j u where x: "x = (j, u)" by (cases x)
  have "0 \<le> volumes used" using Cons.prems(3) by (intro volumes_nonneg) simp
  with Cons.prems x have "0 < u" "u \<le> v" by auto
  moreover have "drain (v - u) (used @ (i, w) # later) = (i, w - (v - u - volumes used)) # later"
    using Cons.prems x by (intro Cons.IH) auto
  ultimately show ?case by (simp add: x algebra_simps)
qed simp

lemma drain_max: "drain (max 0 v) q = drain v q"
  by (cases q; cases "v \<le> 0") auto

text \<open>
  C11: \<open>delete_order\<close> removes volume from one price, oldest order first: the orders whose volumes sum
  up to what was asked leave, the next one is reduced by what is left of it, and every order behind
  keeps its volume and its place; a request for all the volume there, or more, empties the queue. The
  queues at all other prices and on the other side stay as they are.
\<close>

theorem delete_order_fifo:
  assumes "book_ok ob" "v < 2 ^ 63"
  shows "\<exists>ob'. delete_order s p v ob = ok ob' \<and> book_ok ob' \<and>
    (volumes (queue_at p (abs_book ob s)) \<le> max 0 v \<longrightarrow> queue_at p (abs_book ob' s) = []) \<and>
    (\<forall>used i w later. queue_at p (abs_book ob s) = used @ (i, w) # later \<and>
        volumes used \<le> max 0 v \<and> max 0 v < volumes used + w \<longrightarrow>
      queue_at p (abs_book ob' s) = (i, w - (max 0 v - volumes used)) # later) \<and>
    volumes (queue_at p (abs_book ob' s)) = volumes (queue_at p (abs_book ob s)) -
      min (max 0 v) (volumes (queue_at p (abs_book ob s))) \<and>
    (\<forall>t r. t \<noteq> s \<or> r \<noteq> p \<longrightarrow> queue_at r (abs_book ob' t) = queue_at r (abs_book ob t))"
proof -
  obtain Q where rep: "book_rep ob Q" and ok: "ids_ok ob" using book_okD [OF assms(1)] by blast
  obtain ob' Q' where d: "delete_order s p v ob = ok ob'" "book_rep ob' Q'" "ids_ok ob'"
    "abs_book ob' = spec_delete s p v (abs_book ob)"
    using delete_order_refines [OF rep ok assms(2), of s p] by blast
  let ?q = "queue_at p (abs_book ob s)"
  note at = spec_upd_at [of s "abs_book ob", OF book_sorted [OF rep], of _ p "drain v", folded spec_delete_def d(4)]
  have pos: "\<forall>x \<in> set ?q. 0 < snd x" by (rule queue_positive [OF book_positive [OF rep]])
  have q': "queue_at p (abs_book ob' s) = drain (max 0 v) ?q" using at by (simp add: drain_max)
  have "queue_at p (abs_book ob' s) = []" if "volumes ?q \<le> max 0 v"
    using drain_all [OF that pos] q' by simp
  moreover have "queue_at p (abs_book ob' s) = (i, w - (max 0 v - volumes used)) # later"
    if "?q = used @ (i, w) # later" "volumes used \<le> max 0 v" "max 0 v < volumes used + w" for used i w later
    unfolding q' that(1) using that(2,3) pos that(1) by (intro drain_cut) auto
  moreover have "volumes (queue_at p (abs_book ob' s)) = volumes ?q - min (max 0 v) (volumes ?q)"
    using at volumes_drain [OF pos, of v] by simp
  moreover have "queue_at r (abs_book ob' t) = queue_at r (abs_book ob t)" if "t \<noteq> s \<or> r \<noteq> p" for t r
    using at [of r t] that by auto
  ultimately show ?thesis using d(1) book_okI [OF d(2,3)] by blast
qed

theorem delete_order_fifo_witness:
  "(\<exists>ob'. delete_order ASK 101 6 sample_book = ok ob' \<and> queue_at 101 (abs_book ob' ASK) = [(2, 6)]) \<and>
   (\<exists>ob'. delete_order ASK 101 3 sample_book = ok ob' \<and> queue_at 101 (abs_book ob' ASK) = [(1, 2), (2, 7)]) \<and>
   (\<exists>ob'. delete_order ASK 101 12 sample_book = ok ob' \<and> queue_at 101 (abs_book ob' ASK) = [])"
proof -
  have v: "(6 :: int) < 2 ^ 63" "(3 :: int) < 2 ^ 63" "(12 :: int) < 2 ^ 63" by simp_all
  have q: "queue_at 101 (abs_book sample_book ASK) = [(1, 5), (2, 7)]" by code_simp
  have "\<exists>ob'. delete_order ASK 101 6 sample_book = ok ob' \<and> queue_at 101 (abs_book ob' ASK) = [(2, 6)]"
    using delete_order_fifo [OF sample_ok(1) v(1), of ASK 101] by (force simp: q dest: spec [of _ "[(1, 5)]"])
  moreover have "\<exists>ob'. delete_order ASK 101 3 sample_book = ok ob' \<and> queue_at 101 (abs_book ob' ASK) = [(1, 2), (2, 7)]"
    using delete_order_fifo [OF sample_ok(1) v(2), of ASK 101] by (force simp: q dest: spec [of _ "[]"])
  moreover have "\<exists>ob'. delete_order ASK 101 12 sample_book = ok ob' \<and> queue_at 101 (abs_book ob' ASK) = []"
    using delete_order_fifo [OF sample_ok(1) v(3), of ASK 101] by (auto simp: q)
  ultimately show ?thesis by blast
qed

section \<open>Queries\<close>

lemma volume_at_price_eq:
  assumes "book_inv ob" "volumes (queue_at p (abs_book ob s)) < 2 ^ 63"
  shows "volume_at_price p s ob = ok (volumes (queue_at p (abs_book ob s)))"
proof -
  obtain Q where rep: "book_rep ob Q" using assms(1) book_inv_iff by blast
  have nn: "0 \<le> volumes (queue_at p (abs_book ob s))"
    by (rule volumes_nonneg [OF queue_positive [OF book_positive [OF rep]]])
  from rep show ?thesis
  proof (cases rule: book_level_cases [of ob Q s p])
    case (found A l B QA q QB)
    have "total_volume l = wrap64 (volumes (queue_at p (abs_book ob s)))"
      using found(6) found_queue [OF rep found(1-3,5,8)] by (simp add: level_rep_def)
    then show ?thesis
      using found(1,5,7) nn assms(2) by (simp add: volume_at_price_def Let_def wrap64_id)
  next
    case (absent A B QA QB)
    then show ?thesis
      using level_exists_absent [OF absent(7), of A] absent_queue(1) [OF rep absent(1-4,6,7)]
      by (simp add: volume_at_price_def Let_def)
  qed
qed

text \<open>
  \<open>volume_at_price\<close> answers the sum of the volumes resting at that price (at the width of
  \<open>Volume\<close>, so exactly the sum while it fits), and 0 where nothing rests.
\<close>

theorem volume_at_price_sums:
  assumes "book_inv ob" "volumes (queue_at p (abs_book ob s)) < 2 ^ 63"
  shows "volume_at_price p s ob = ok (volumes (queue_at p (abs_book ob s)))"
  by (rule volume_at_price_eq [OF assms])

theorem volume_at_price_sums_witness: "volume_at_price 101 ASK sample_book = ok 12"
proof -
  have "book_inv sample_book" using sample_ok(1) by (simp add: book_ok_def)
  moreover have q: "volumes (queue_at 101 (abs_book sample_book ASK)) = 12" by code_simp
  ultimately show ?thesis using volume_at_price_sums [of sample_book 101 ASK] by simp
qed

lemma best_prices_bid:
  assumes "book_inv ob"
  shows "case best_bid ob of None \<Rightarrow> prices (abs_book ob BID) = {}
      | Some p \<Rightarrow> p \<in> prices (abs_book ob BID) \<and> (\<forall>r \<in> prices (abs_book ob BID). r \<le> p)"
proof -
  obtain Q where rep: "book_rep ob Q" using assms book_inv_iff by blast
  show ?thesis
    using book_sorted [OF rep, of BID]
    by (cases "bid_levels ob")
      (auto simp: best_bid_def abs_book_def side_levels_def abs_level_def prices_def)
qed

lemma best_prices_ask:
  assumes "book_inv ob"
  shows "case best_ask ob of None \<Rightarrow> prices (abs_book ob ASK) = {}
      | Some p \<Rightarrow> p \<in> prices (abs_book ob ASK) \<and> (\<forall>r \<in> prices (abs_book ob ASK). p \<le> r)"
proof -
  obtain Q where rep: "book_rep ob Q" using assms book_inv_iff by blast
  show ?thesis
    using book_sorted [OF rep, of ASK]
    by (cases "ask_levels ob")
      (auto simp: best_ask_def abs_book_def side_levels_def abs_level_def prices_def)
qed

text \<open>
  \<open>best_bid\<close> is the highest price on the bid side and \<open>best_ask\<close> the lowest on the ask side;
  each answers \<open>nullopt\<close> exactly when its side is empty.
\<close>

theorem best_prices_extreme:
  assumes "book_inv ob"
  shows "(case best_bid ob of None \<Rightarrow> prices (abs_book ob BID) = {}
      | Some p \<Rightarrow> p \<in> prices (abs_book ob BID) \<and> (\<forall>r \<in> prices (abs_book ob BID). r \<le> p)) \<and>
    (case best_ask ob of None \<Rightarrow> prices (abs_book ob ASK) = {}
      | Some p \<Rightarrow> p \<in> prices (abs_book ob ASK) \<and> (\<forall>r \<in> prices (abs_book ob ASK). p \<le> r))"
  using best_prices_bid [OF assms] best_prices_ask [OF assms] by (rule conjI)

theorem best_prices_extreme_witness:
  "best_bid sample_book = Some 99 \<and> 99 \<in> prices (abs_book sample_book BID) \<and>
    100 \<notin> prices (abs_book sample_book BID)"
proof -
  have "book_inv sample_book" using sample_ok(1) by (simp add: book_ok_def)
  moreover have "best_bid sample_book = Some 99" by code_simp
  ultimately show ?thesis using best_prices_extreme [of sample_book] by fastforce
qed

section \<open>The pool behind the book\<close>

lemma slots_in_use:
  assumes "book_inv ob"
  shows "pool_size (pool ob) = int (length (book_ids (abs_book ob)))" "length (nodes (pool ob)) \<le> capacity (pool ob)"
proof -
  obtain Q where rep: "book_rep ob Q" using assms book_inv_iff by blast
  note inv = book_repD(1) [OF rep]
  have "int (length (nodes (pool ob))) - int (length (free_list (pool ob))) =
      int (card (pool_live (pool ob)))" using card_pool_live [OF inv] by linarith
  moreover have "card (pool_live (pool ob)) \<le> 2 ^ 31"
    using card_pool_live [OF inv] inv by (simp add: pool_inv_def)
  ultimately show "pool_size (pool ob) = int (length (book_ids (abs_book ob)))"
    using book_room [OF rep] by (simp add: pool_size_def)
  show "length (nodes (pool ob)) \<le> capacity (pool ob)" using inv by (simp add: pool_inv_def)
qed

text \<open>
  C12: the pool never leaks: after any session of public calls on a new book the number of slots in
  use, \<open>size()\<close>, is the number of orders that rest in the reference book after the same session, so
  every fill, cancellation, reduction and overwriting has returned the slots of the orders it took
  out, and the next order that may rest is placed without a fault while fewer rest than the pool has slots.
\<close>

theorem no_slot_leaks:
  assumes "cap \<le> 2 ^ 31" "allowed_all (owed cap) spec_exec cs empty_abook"
  shows "\<exists>rs ob. run_all exec cs (order_book_new cap) = ok (rs, ob) \<and>
    pool_size (pool ob) = int (length (book_ids (snd (spec_all spec_exec cs empty_abook)))) \<and>
    (length (book_ids (snd (spec_all spec_exec cs empty_abook))) < cap \<longrightarrow>
      (\<forall>s p v. 0 < v \<and> v < 2 ^ 63 \<longrightarrow> (\<exists>ob'. add_order s p v ob = ok ob')))"
proof -
  obtain rs ob where r: "run_all exec cs (order_book_new cap) = ok (rs, ob)" "book_ok ob"
    "owed (capacity (pool ob)) = owed (capacity (pool (order_book_new cap)))"
    "spec_all spec_exec cs empty_abook = (rs, abs_book ob)"
    using book.run_sim [OF book_ok_new [OF assms(1)], of cs] assms(2) by auto
  have "\<exists>ob'. add_order s p v ob = ok ob'"
    if "length (book_ids (abs_book ob)) < cap" "0 < v \<and> v < 2 ^ 63" for s p v
  proof -
    have "owed (capacity (pool ob)) (Add s p v) (abs_book ob)" unfolding r(3) using that by simp
    from exec_refines [OF r(2) this] show ?thesis
      using run_cases [of "add_order s p v ob"] by auto
  qed
  with r slots_in_use(1) [of ob] show ?thesis by (auto simp: book_ok_def)
qed

text \<open>A pool of four slots serves six orders: two are filled, one is cancelled, one reduced to nothing.\<close>

definition busy_session :: "command list" where
  "busy_session = [Place (limit_order 1 ASK 101 5), Place (limit_order 2 ASK 101 7), Place (limit_order 3 BID 99 4),
     Place (limit_order 4 BID 101 12), Cancel 3, Add BID 98 10, Delete BID 98 10, Place (limit_order 5 BID 97 2)]"

theorem no_slot_leaks_witness:
  "\<exists>rs ob. run_all exec busy_session (order_book_new 4) = ok (rs, ob) \<and> pool_size (pool ob) = 1 \<and>
    (\<exists>ob'. add_order BID 96 3 ob = ok ob')"
proof -
  have c: "(4 :: nat) \<le> 2 ^ 31" by simp
  have a: "allowed_all (owed 4) spec_exec busy_session empty_abook" by code_simp
  have l: "length (book_ids (snd (spec_all spec_exec busy_session empty_abook))) = 1" by code_simp
  from no_slot_leaks [OF c a] show ?thesis unfolding l by auto
qed

section \<open>Overwriting levels\<close>

text \<open>
  C10: \<open>set_level\<close> makes one price hold the given size and nothing else changes: a positive size is
  carried by a single order (the one that headed the queue, or a new anonymous one), a size of
  zero or less removes the level.
\<close>

theorem set_level_absolute:
  assumes "book_ok ob" "owed (capacity (pool ob)) (Set_Level s p v) (abs_book ob)"
  shows "\<exists>ob'. set_level s p v ob = ok ob' \<and> book_ok ob' \<and>
    volumes (queue_at p (abs_book ob' s)) = max 0 v \<and> length (queue_at p (abs_book ob' s)) \<le> 1 \<and>
    (\<forall>t r. t \<noteq> s \<or> r \<noteq> p \<longrightarrow> queue_at r (abs_book ob' t) = queue_at r (abs_book ob t))"
proof -
  obtain Q where rep: "book_rep ob Q" and ok: "ids_ok ob" using book_okD [OF assms(1)] by blast
  obtain ob' Q' where d: "set_level s p v ob = ok ob'" "book_rep ob' Q'" "ids_ok ob'"
    "abs_book ob' = spec_set_level s p v (abs_book ob)"
    using set_level_refines [OF rep ok, of v p s] assms(2) book_room [OF rep] by auto
  note at = spec_upd_at [of s "abs_book ob", OF book_sorted [OF rep], of _ p "collapse v", folded spec_set_level_def d(4)]
  have "volumes (collapse v q) = max 0 v \<and> length (collapse v q) \<le> 1" for q
    by (auto simp: collapse_def split: list.split)
  with d at show ?thesis by (auto intro!: exI [of _ ob'] book_okI)
qed

theorem set_level_absolute_witness:
  "\<exists>ob'. set_level BID 98 25 sample_book = ok ob' \<and> volumes (queue_at 98 (abs_book ob' BID)) = 25"
proof -
  have "owed (capacity (pool sample_book)) (Set_Level BID 98 25) (abs_book sample_book)"
    unfolding sample_ok(2) by code_simp
  from set_level_absolute [OF sample_ok(1) this] show ?thesis by auto
qed

text \<open>A feed of absolute sizes, and the size the last update leaves at a price.\<close>

type_synonym update = "side \<times> price \<times> int"

definition level_after :: "update list \<Rightarrow> side \<Rightarrow> price \<Rightarrow> int" where
  "level_after us s p = foldl (\<lambda>acc (s', p', v). if s' = s \<and> p' = p then max 0 v else acc) 0 us"

definition feed :: "update list \<Rightarrow> command list" where
  "feed us = map (\<lambda>(s, p, v). Set_Level s p v) us"

lemma level_after_snoc:
  "level_after (us @ [(s', p', v)]) s p = (if s' = s \<and> p' = p then max 0 v else level_after us s p)"
  by (simp add: level_after_def)

lemma level_after_bound:
  "\<forall>(s, p, v) \<in> set us. v < 2 ^ 63 \<Longrightarrow> 0 \<le> level_after us s p \<and> level_after us s p < 2 ^ 63"
  by (induction us rule: rev_induct) (auto simp: level_after_snoc, simp_all add: level_after_def)

definition l2_queue :: "int \<Rightarrow> aorder list" where
  "l2_queue v = (if v = 0 then [] else [(kAnonymous, v)])"

lemma collapse_l2: "collapse v (l2_queue w) = l2_queue (max 0 v)"
  by (auto simp: collapse_def l2_queue_def kAnonymous_def)

lemma length_book_ids_upd:
  assumes "sorted_wrt (before s) (map fst (ab s))"
  shows "length (book_ids (ab(s := upd_level (before s) p f (ab s)))) + length (queue_at p (ab s)) =
    length (book_ids ab) + length (f (queue_at p (ab s)))"
  using arg_cong [OF abs_ids_upd [of s ab p f, OF assms], of size] by (simp add: mset_book_ids [symmetric])

text \<open>The levels a feed mentions, and those it leaves with a size.\<close>

definition levels_touched :: "update list \<Rightarrow> (side \<times> price) set" where
  "levels_touched us = (\<lambda>(s, p, v). (s, p)) ` set us"

definition levels_shown :: "update list \<Rightarrow> (side \<times> price) set" where
  "levels_shown us = {(s, p). 0 < level_after us s p}"

lemma levels_shown_snoc:
  "levels_shown (us @ [(s, p, v)]) = (if 0 < v then insert (s, p) (levels_shown us) else levels_shown us - {(s, p)})"
  by (auto simp: levels_shown_def level_after_snoc split: if_splits)

lemma levels_shown_touched: "levels_shown us \<subseteq> levels_touched us"
proof (induction us rule: rev_induct)
  case (snoc u us)
  obtain s p v where u: "u = (s, p, v)" by (cases u)
  have "levels_touched (us @ [u]) = insert (s, p) (levels_touched us)" by (auto simp: levels_touched_def u)
  with snoc show ?case by (auto simp: u levels_shown_snoc)
qed (simp add: levels_shown_def level_after_def)

lemma finite_levels_touched [simp]: "finite (levels_touched us)"
  by (simp add: levels_touched_def)

lemma finite_levels_shown [simp]: "finite (levels_shown us)"
  by (rule finite_subset [OF levels_shown_touched finite_levels_touched])

lemma card_levels_touched: "card (levels_touched us) \<le> length us"
  unfolding levels_touched_def by (rule order_trans [OF card_image_le card_length]) simp

lemma feed_spec:
  assumes "card (levels_touched us) \<le> cap" "\<forall>(s, p, v) \<in> set us. v < 2 ^ 63"
  defines "ab \<equiv> snd (spec_all spec_exec (feed us) empty_abook)"
  shows "allowed_all (owed cap) spec_exec (feed us) empty_abook \<and> length (book_ids ab) = card (levels_shown us) \<and>
    (\<forall>s. sorted_wrt (before s) (map fst (ab s)) \<and> (\<forall>p. queue_at p (ab s) = l2_queue (level_after us s p)))"
  using assms(1,2) unfolding ab_def
proof (induction us rule: rev_induct)
  case Nil
  then show ?case by (simp add: feed_def book_ids_def queue_at_def l2_queue_def level_after_def levels_shown_def)
next
  case (snoc u us)
  obtain s p v where u: "u = (s, p, v)" by (cases u)
  let ?ab = "snd (spec_all spec_exec (feed us) empty_abook)"
  have tch: "levels_touched (us @ [u]) = insert (s, p) (levels_touched us)" by (auto simp: levels_touched_def u)
  then have "levels_touched us \<subseteq> levels_touched (us @ [u])" by auto
  from card_mono [OF finite_levels_touched this] have c: "card (levels_touched us) \<le> cap"
    using snoc.prems(1) by linarith
  from snoc c have IH: "allowed_all (owed cap) spec_exec (feed us) empty_abook"
    "length (book_ids ?ab) = card (levels_shown us)"
    "\<And>t. sorted_wrt (before t) (map fst (?ab t))"
    "\<And>t r. queue_at r (?ab t) = l2_queue (level_after us t r)" by auto
  have ab': "snd (spec_all spec_exec (feed (us @ [u])) empty_abook) = spec_set_level s p v ?ab"
    by (simp add: feed_def u spec_all_append case_prod_unfold)
  have tl: "\<forall>x \<in> set (tl (queue_at p (?ab s))). fst x = kAnonymous"
    by (simp add: IH(4) l2_queue_def)
  have pos: "0 \<le> level_after us t r" for t r using level_after_bound [of us t r] snoc.prems(2) by auto
  have in_shown: "(s, p) \<in> levels_shown us \<longleftrightarrow> level_after us s p \<noteq> 0"
    using pos [of s p] by (auto simp: levels_shown_def)
  have fresh: "card (levels_shown us) < cap" if "(s, p) \<notin> levels_shown us"
  proof -
    have "insert (s, p) (levels_shown us) \<subseteq> levels_touched (us @ [u])" using levels_shown_touched [of us] tch by auto
    from card_mono [OF finite_levels_touched this] that snoc.prems(1) show ?thesis by simp
  qed
  have al: "allowed_all (owed cap) spec_exec (feed (us @ [u])) empty_abook"
    using IH(1,2,4) snoc.prems(2) tl u fresh in_shown
    by (auto simp: feed_def allowed_all_append l2_queue_def split: if_splits)
  have len: "length (book_ids (spec_set_level s p v ?ab)) = card (levels_shown (us @ [u]))"
    using length_book_ids_upd [of s ?ab p "collapse v", OF IH(3)] collapse_l2 [of v "level_after us s p"] IH(2) in_shown
      card.remove [of "levels_shown us" "(s, p)"]
    unfolding spec_set_level_def IH(4) u levels_shown_snoc
    by (auto simp: l2_queue_def insert_absorb max_def split: if_splits)
  have srt: "sorted_wrt (before t) (map fst (spec_set_level s p v ?ab t))" for t
    using side_order.sorted_upd_level [OF IH(3) [of s], of p "collapse v"] IH(3) [of t]
    by (simp add: spec_set_level_def)
  have q: "queue_at r (spec_set_level s p v ?ab t) = l2_queue (level_after (us @ [u]) t r)" for t r
    using spec_upd_at [of s ?ab r p "collapse v" t, OF IH(3), folded spec_set_level_def] IH(4)
    by (simp add: u level_after_snoc collapse_l2 eq_commute [of s] eq_commute [of p])
  show ?case using al len srt q unfolding ab' by simp
qed

text \<open>The book after a feed whose levels fit the pool, however long the feed is.\<close>

lemma feed_book:
  assumes "card (levels_touched us) \<le> cap" "cap \<le> 2 ^ 31" "\<forall>(s, p, v) \<in> set us. v < 2 ^ 63"
  shows "\<exists>rs ob. run_all exec (feed us) (order_book_new cap) = ok (rs, ob) \<and> book_ok ob \<and>
    (\<forall>s p. volume_at_price p s ob = ok (level_after us s p))"
proof -
  note fs = feed_spec [OF assms(1,3)]
  from book.run_sim [OF book_ok_new [OF assms(2)], of "feed us"] fs
  obtain rs ob where r: "run_all exec (feed us) (order_book_new cap) = ok (rs, ob)" "book_ok ob"
    "spec_all spec_exec (feed us) empty_abook = (rs, abs_book ob)" by auto
  have "volume_at_price p s ob = ok (level_after us s p)" for s p
    using volume_at_price_eq [of ob p s] r(2,3) fs level_after_bound [OF assms(3), of s p]
    by (auto simp: book_ok_def l2_queue_def split: if_splits)
  with r show ?thesis by blast
qed

text \<open>
  A book built from nothing but absolute level updates, as the replay of a depth feed builds
  it, shows at every price exactly the size the last update for that price carried (0 when it
  removed the level or none came), whatever the order of the updates before it.
\<close>

theorem feed_replay_volumes:
  assumes "length us \<le> cap" "cap \<le> 2 ^ 31" "\<forall>(s, p, v) \<in> set us. v < 2 ^ 63"
  shows "\<exists>rs ob. run_all exec (feed us) (order_book_new cap) = ok (rs, ob) \<and> book_ok ob \<and>
    (\<forall>s p. volume_at_price p s ob = ok (level_after us s p))"
  using feed_book [OF order_trans [OF card_levels_touched assms(1)] assms(2,3)] .

theorem feed_replay_volumes_witness:
  "\<exists>rs ob. run_all exec (feed [(BID, 100, 25), (ASK, 105, 4), (BID, 100, 7), (ASK, 105, 0)]) (order_book_new 4) = ok (rs, ob) \<and>
    volume_at_price 100 BID ob = ok 7 \<and> volume_at_price 105 ASK ob = ok 0"
proof -
  let ?us = "[(BID, 100, 25), (ASK, 105, 4), (BID, 100, 7), (ASK, 105, 0)] :: update list"
  have l: "level_after ?us BID 100 = 7" "level_after ?us ASK 105 = 0" by code_simp+
  from feed_replay_volumes [of ?us 4] l show ?thesis by auto
qed

section \<open>Mixing identified orders with overwritten levels\<close>

lemma modify_free_list: "pool_modify i f p = ok p' \<Longrightarrow> free_list p' = free_list p"
  using run_cases [of "pool_get i p"] by (auto simp: pool_modify_def)

lemma fold_deallocate_list: "free_list (fold pool_deallocate q p) = free_list p @ q"
  by (induction q arbitrary: p) (simp_all add: pool_deallocate_def)

text \<open>The overwritten level keeps its head; the nodes behind it are on the free list, and the index is as before.\<close>

lemma overwrite_frees:
  assumes rep: "book_rep ob Q" and v: "0 < v"
    and sl: "side_levels s ob = A @ l # B" "Q s = QA @ (n # q) # QB" "length QA = length A"
    and fl: "find_level (side_levels s ob) s p = ok (length A)" "lv_price l = p"
    and lr: "level_rep (pool_look (pool ob)) l (n # q)"
  shows "\<exists>p3. set_level s p v ob =
      ok (set_side_levels s (A @ l\<lparr>tail := head l, total_volume := v\<rparr> # B) (ob\<lparr>pool := p3\<rparr>)) \<and>
    free_list p3 = free_list (pool ob) @ q \<and> (\<forall>j. j \<noteq> n \<longrightarrow> pool_look p3 j = pool_look (pool ob) j) \<and>
    pool_look p3 n \<noteq> None"
proof -
  let ?h = "pool_look (pool ob)" and ?p1 = "fold pool_deallocate q (pool ob)"
  have lk: "linked ?h l (n # q)" using lr by (simp add: level_rep_def)
  then have dst: "distinct (n # q)" and seg: "dseg ?h n q kNull" and hd: "head l = n"
    by (auto simp: linked_def)
  obtain nd where nd: "?h n = Some nd" "nnext nd = hd (q @ [kNull])" using lk by (auto simp: linked_def)
  have qlive: "set (n # q) \<subseteq> pool_live (pool ob)"
    using book_rep_nodes_live [OF rep, of "n # q" s] sl(2) by simp
  have p1: "pool_inv ?p1" "pool_look ?p1 = ?h"
    using fold_deallocate [OF book_repD(1) [OF rep], of q] qlive dst by auto
  have fc: "free_chain (nnext nd) (pool ob) = ok ?p1"
    using free_chain_spec [OF seg _ _ book_repD(1) [OF rep]] qlive dst nd(2) by simp
  obtain p2 where p2: "pool_modify n (nnext_update (\<lambda>_. kNull)) ?p1 = ok p2" "pool_inv p2"
    "pool_look p2 = ?h(n \<mapsto> nnext_update (\<lambda>_. kNull) nd)"
    using pool_modify_ok [OF p1(1), of n nd "nnext_update (\<lambda>_. kNull)"] p1(2) nd(1) by auto
  obtain p3 where p3: "pool_modify n (nval_update (r_volume_update (\<lambda>_. v))) p2 = ok p3"
    "pool_look p3 = (pool_look p2)(n \<mapsto> nval_update (r_volume_update (\<lambda>_. v)) (nnext_update (\<lambda>_. kNull) nd))"
    using pool_modify_ok [OF p2(2), of n _ "nval_update (r_volume_update (\<lambda>_. v))"] p2(3) by auto
  have "set_level s p v ob =
      ok (set_side_levels s (A @ l\<lparr>tail := head l, total_volume := v\<rparr> # B) (ob\<lparr>pool := p3\<rparr>))"
    using v fl sl(1) hd nd(1) fc p2(1) p3(1)
    by (simp add: set_level_def Let_def pool_get_eq list_update_append)
  moreover have "free_list p3 = free_list (pool ob) @ q"
    using modify_free_list [OF p3(1)] modify_free_list [OF p2(1)] by (simp add: fold_deallocate_list)
  ultimately show ?thesis using p2(3) p3(2) by auto
qed

text \<open>Cancelling runs wherever the neighbours of the node can be read, and returns the node's slot.\<close>

lemma cancel_returns_slot:
  assumes "index ob i = Some loc" "side_levels (loc_side loc) ob = A @ l # B" "lv_price l = loc_price loc"
    and "find_level (side_levels (loc_side loc) ob) (loc_side loc) (loc_price loc) = ok (length A)"
    and "pool_look (pool ob) (loc_node loc) = Some nd"
    and "nprev nd = kNull \<or> pool_look (pool ob) (nprev nd) \<noteq> None"
    and "nnext nd = kNull \<or> pool_look (pool ob) (nnext nd) \<noteq> None"
  shows "\<exists>ob'. cancel_order i ob = ok ob' \<and> free_list (pool ob') = free_list (pool ob) @ [loc_node loc]"
proof -
  have w: "\<exists>p'. pool_modify j f p = ok p' \<and> free_list p' = free_list p \<and>
      (\<forall>m. pool_look p' m = None \<longleftrightarrow> pool_look p m = None)" if "pool_look p j \<noteq> None" for j f and p :: "resting_order object_pool"
    using that pool_modify_look [of p j _ f] by fastforce
  have "\<exists>lvl p'. unlink l (loc_node loc) ob = ok (lvl, ob\<lparr>pool := p'\<rparr>) \<and> free_list p' = free_list (pool ob)"
  proof -
    obtain p1 lvl1 where 1: "(if nprev nd \<noteq> kNull
        then chain (pool_modify (nprev nd) (nnext_update (\<lambda>_. nnext nd)) (pool ob)) (\<lambda>p. ok (l, p))
        else ok (l\<lparr>head := nnext nd\<rparr>, pool ob)) = ok (lvl1, p1)"
      "free_list p1 = free_list (pool ob)" "\<And>m. pool_look p1 m = None \<longleftrightarrow> pool_look (pool ob) m = None"
      using assms(6) w [of "pool ob" "nprev nd" "nnext_update (\<lambda>_. nnext nd)"] by (cases "nprev nd = kNull") auto
    obtain p2 lvl2 where 2: "(if nnext nd \<noteq> kNull
        then chain (pool_modify (nnext nd) (nprev_update (\<lambda>_. nprev nd)) p1) (\<lambda>p. ok (lvl1, p))
        else ok (lvl1\<lparr>tail := nprev nd\<rparr>, p1)) = ok (lvl2, p2)" "free_list p2 = free_list p1"
      using assms(7) w [of p1 "nnext nd" "nprev_update (\<lambda>_. nprev nd)"] 1(3) by (cases "nnext nd = kNull") auto
    show ?thesis using 1 2 assms(5) by (auto simp: unlink_def Let_def pool_get_eq)
  qed
  then show ?thesis using assms(1-5)
    by (auto simp: cancel_order_def Let_def pool_get_eq pool_deallocate_def)
qed

text \<open>
  C13: the interface forbids mixing \<open>set_level\<close> with identified orders, and with reason: on every good
  book, when the level of an identified order that is not the oldest of its queue is overwritten with
  a size, the order's slot goes back to the pool while the index still names it; cancelling the order
  then returns the slot a second time. Both calls succeed, and the book is corrupt.
\<close>

theorem set_level_must_not_mix:
  assumes "book_inv ob" "index ob i = Some loc" "0 < v"
    and "fst (hd (queue_at (loc_price loc) (abs_book ob (loc_side loc)))) \<noteq> i"
  shows "\<exists>ob1 ob2. set_level (loc_side loc) (loc_price loc) v ob = ok ob1 \<and> cancel_order i ob1 = ok ob2 \<and>
    count_list (free_list (pool ob2)) (loc_node loc) = 2 \<and> \<not> book_inv ob2"
proof -
  let ?s = "loc_side loc" and ?p = "loc_price loc" and ?m = "loc_node loc" and ?h = "pool_look (pool ob)"
  obtain Q where rep: "book_rep ob Q" using assms(1) book_inv_iff by blast
  obtain A l B QA a b QB where sl: "side_levels ?s ob = A @ l # B" "Q ?s = QA @ (a @ ?m # b) # QB"
    "length QA = length A" and lp: "lv_price l = ?p" and lr: "level_rep ?h l (a @ ?m # b)"
    and fl: "find_level (side_levels ?s ob) ?s ?p = ok (length A)" and mi: "fst (order_of ?h ?m) = i"
    using located_split [OF rep book_repD(7) [OF rep assms(2)]] by blast
  have srt: "sorted_wrt (before ?s) (map lv_price (A @ l # B))" using book_repD(3) [OF rep, of ?s] sl(1) by simp
  have "queue_at ?p (abs_book ob ?s) = orders ?h (a @ ?m # b)"
    using sorted_before_middle(1) [OF srt] lp by (intro found_queue [OF rep sl lp]) simp
  with assms(4) mi obtain n c where a: "a = n # c" by (cases a) auto
  have lk: "linked ?h l (n # c @ ?m # b)" using lr a by (simp add: level_rep_def)
  have dst: "distinct (n # c @ ?m # b)" using lk by (simp add: linked_def)
  obtain p3 where o1: "set_level ?s ?p v ob =
      ok (set_side_levels ?s (A @ l\<lparr>tail := head l, total_volume := v\<rparr> # B) (ob\<lparr>pool := p3\<rparr>))"
    and free: "free_list p3 = free_list (pool ob) @ c @ ?m # b"
    and look: "\<And>j. j \<noteq> n \<Longrightarrow> pool_look p3 j = ?h j" "pool_look p3 n \<noteq> None"
    using overwrite_frees [OF rep assms(3) sl(1) _ sl(3) fl lp, of n "c @ ?m # b"] sl(2) lr a by auto
  let ?l = "l\<lparr>tail := head l, total_volume := v\<rparr>"
  let ?ob1 = "set_side_levels ?s (A @ ?l # B) (ob\<lparr>pool := p3\<rparr>)"
  have node: "pool_look p3 j \<noteq> None" if "j \<in> set (n # c @ ?m # b)" for j
    using linked_node [OF lk that] look by (cases "j = n") auto
  obtain nd where nd: "?h ?m = Some nd" "nprev nd = last (n # c)" "nnext nd = hd (b @ [kNull])"
    using lk by (auto simp: linked_def dseg_append split: if_splits)
  have "find_level (A @ ?l # B) ?s ?p = find_level (A @ l # B) ?s ?p"
    using levels.search_first [of ?s "A @ ?l # B" ?p] levels.search_first [OF srt, of ?p] srt
    by (simp add: takeWhile_append)
  then have "\<exists>ob2. cancel_order i ?ob1 = ok ob2 \<and> free_list (pool ob2) = free_list (pool ?ob1) @ [?m]"
    using assms(2) fl sl(1) lp nd look(1) [of ?m] dst node [of "last (n # c)"] node [of "hd b"]
    by (intro cancel_returns_slot [where A = A and l = ?l and B = B and nd = nd]) (cases b; auto)+
  then obtain ob2 where o2: "cancel_order i ?ob1 = ok ob2" "free_list (pool ob2) = free_list (pool ob) @ c @ ?m # b @ [?m]"
    using free by auto
  have "?m \<in> pool_live (pool ob)" using book_rep_nodes_live [OF rep, of "a @ ?m # b" ?s] sl(2) by auto
  then have "?m \<notin> set (free_list (pool ob))" by (simp add: pool_live_def)
  with dst have two: "count_list (free_list (pool ob2)) ?m = 2" by (simp add: o2(2) count_notin)
  have "\<not> pool_inv (pool ob2)" using o2(2) by (simp add: pool_inv_def)
  then have "\<not> book_inv ob2" using book_repD(1) book_inv_iff by blast
  with o1 o2(1) two show ?thesis by blast
qed

theorem set_level_must_not_mix_witness:
  "\<exists>ob1 ob2. set_level ASK 101 9 sample_book = ok ob1 \<and> cancel_order 2 ob1 = ok ob2 \<and>
    count_list (free_list (pool ob2)) 1 = 2 \<and> \<not> book_inv ob2"
proof -
  let ?loc = "\<lparr>loc_side = ASK, loc_price = 101, loc_node = 1\<rparr>"
  have i: "index sample_book 2 = Some ?loc" by code_simp
  have q: "fst (hd (queue_at (loc_price ?loc) (abs_book sample_book (loc_side ?loc)))) \<noteq> 2" by code_simp
  have "book_inv sample_book" using sample_ok(1) by (simp add: book_ok_def)
  from set_level_must_not_mix [OF this i, of 9] q show ?thesis by simp
qed

end
