(* ===== verification/Tool_Properties.thy ===== *)
theory Tool_Properties
  imports Capture_Tool Depth_Properties Book_Updating
begin

text \<open>
  The tools, and the components they join: a captured file is what the depth parser reads back, and
  the book the snapshot tool builds holds exactly the volumes of the snapshot.
\<close>

section \<open>Captured files\<close>

text \<open>The frames the loop receives before it ends.\<close>

fun delivered :: "int \<Rightarrow> (int \<times> 'x read) list \<Rightarrow> string list" where
  "delivered deadline ((now, Frame l) # turns) = (if now < deadline then l # delivered deadline turns else [])"
| "delivered deadline turns = []"

definition as_lines :: "string list \<Rightarrow> string" where
  "as_lines ls = concat (map (\<lambda>l. l @ [newline]) ls)"

lemma as_lines_simps [simp]: "as_lines [] = []" "as_lines (l # ls) = l @ newline # as_lines ls"
  by (simp_all add: as_lines_def)

lemma capture_loop_delivers:
  "capture_loop msg deadline turns n out = Some (e, m, out') \<Longrightarrow>
     m = n + length (delivered deadline turns) \<and> out' = out @ as_lines (delivered deadline turns)"
proof (induction msg deadline turns n out rule: capture_loop.induct)
  case (2 msg deadline now r turns n out)
  then show ?case by (cases r) (auto split: if_splits)
qed simp

lemma capture_file:
  assumes "capture net host port target outfile duration = Some (res, Some file)"
  shows "file = as_lines (delivered (ws_start net + duration) (ws_turns net))"
  using assms by (auto simp: capture_def Let_def split: if_splits sum.splits option.splits dest: capture_loop_delivers)

lemma split_lines_line: "newline \<notin> set l \<Longrightarrow> split_lines (l @ newline # s) = l # split_lines s"
  by (induction l) auto

lemma split_lines_as_lines: "\<forall>l \<in> set ls. newline \<notin> set l \<Longrightarrow> split_lines (as_lines ls) = ls @ [[]]"
  by (induction ls) (simp_all add: split_lines_line)

definition clean_frame :: "string \<Rightarrow> bool" where
  "clean_frame l \<longleftrightarrow> newline \<notin> set l \<and> \<not> blank l \<and> last l \<noteq> CHR 0x0D"

lemma frame_lines_as_lines:
  assumes "\<forall>l \<in> set ls. clean_frame l"
  shows "frame_lines (as_lines ls) = ls"
proof -
  have "map trim_cr ls = ls" using assms by (induction ls) (auto simp: clean_frame_def trim_cr_def)
  moreover have "filter (\<lambda>l. \<not> blank l) ls = ls" using assms by (simp add: clean_frame_def)
  moreover have "trim_cr [] = []" "blank []" by (simp_all add: trim_cr_def blank_def)
  ultimately show ?thesis
    using split_lines_as_lines [of ls] assms by (simp add: frame_lines_def clean_frame_def)
qed

lemma captured_parse:
  assumes "capture net host port target outfile duration = Some (res, Some file)"
    and "\<forall>l \<in> set (delivered (ws_start net + duration) (ws_turns net)). clean_frame l"
    and "map (\<lambda>l. parse_binance_depth_update sj l pd qd) (delivered (ws_start net + duration) (ws_turns net)) = map Inr us"
  shows "parse_binance_depth_updates sj fmt file pd qd = Inr us"
proof -
  have "map (\<lambda>l. parse_binance_depth_update sj l pd qd) (frame_lines file) = map Inr us"
    using frame_lines_as_lines [OF assms(2)] capture_file [OF assms(1)] assms(3) by simp
  then show ?thesis unfolding depth_updates_lines line_loop_Inr frame_lines_def by simp
qed

text \<open>
  What the capture tool writes, the depth parser reads. However the capture ends (deadline, close
  or read error), if every frame received is one line of JSON that parses, the file parses to exactly
  the updates of the frames, in the order they arrived.
\<close>

theorem capture_replays:
  assumes "capture net host port target outfile duration = Some (res, Some file)"
    and "\<forall>l \<in> set (delivered (ws_start net + duration) (ws_turns net)). clean_frame l"
    and "map (\<lambda>l. parse_binance_depth_update sj l pd qd) (delivered (ws_start net + duration) (ws_turns net)) = map Inr us"
  shows "parse_binance_depth_updates sj fmt file pd qd = Inr us"
  using captured_parse [OF assms] .

text \<open>A turn that ends the loop: past the deadline, or the stream is closed or broken.\<close>

definition ends :: "int \<Rightarrow> int \<times> 'x read \<Rightarrow> bool" where
  "ends deadline t \<longleftrightarrow> deadline \<le> fst t \<or> snd t = Server_Closed \<or> (\<exists>x. snd t = Read_Failed x)"

text \<open>
  C36: the capture ends. Once the clock has passed the deadline, the server has closed the stream or
  a read has failed, the loop returns, with all frames received before in the file.
\<close>

theorem capture_stops:
  assumes "\<exists>t \<in> set turns. ends deadline t"
  shows "\<exists>e. capture_loop msg deadline turns n out =
    Some (e, n + length (delivered deadline turns), out @ as_lines (delivered deadline turns))"
proof -
  have "capture_loop msg deadline turns n out \<noteq> None"
    using assms
  proof (induction msg deadline turns n out rule: capture_loop.induct)
    case (2 msg deadline now r turns n out)
    show ?case
    proof (cases "now < deadline \<and> (\<exists>l. r = Frame l)")
      case True
      then obtain l where l: "now < deadline" "r = Frame l" by blast
      then have "\<not> ends deadline (now, r)" by (simp add: ends_def)
      with 2(2) have "\<exists>t \<in> set turns. ends deadline t" by simp
      with 2(1) l show ?thesis by simp
    next
      case False
      then show ?thesis by (cases r) auto
    qed
  qed simp
  then obtain e m out' where "capture_loop msg deadline turns n out = Some (e, m, out')"
    by (metis option.exhaust prod_cases3)
  with capture_loop_delivers [OF this] show ?thesis by simp
qed

theorem capture_stops_witness:
  "capture_loop (\<lambda>x :: string. x) 10 [(1, Frame ''a''), (2, Frame ''b''), (12, Frame ''c'')] 0 [] =
    Some (None, 2, [CHR ''a'', newline, CHR ''b'', newline])"
proof -
  let ?ts = "[(1, Frame ''a''), (2, Frame ''b''), (12, Frame ''c'')] :: (int \<times> string read) list"
  have h: "\<exists>t \<in> set ?ts. ends 10 t" by (simp add: ends_def)
  obtain e where e: "capture_loop (\<lambda>x. x) 10 ?ts 0 [] =
      Some (e, 0 + length (delivered 10 ?ts), [] @ as_lines (delivered 10 ?ts))"
    using capture_stops [OF h, of "\<lambda>x. x" 0 "[]"] by blast
  moreover have "map_option fst (capture_loop (\<lambda>x. x) 10 ?ts 0 []) = Some None" by simp
  ultimately show ?thesis by simp
qed

text \<open>A capture of two frames, cut off by the deadline.\<close>

definition sample_net :: "(unit, string) websocket" where
  "sample_net = \<lparr>ws_sni = (\<lambda>h. True), ws_resolve = (\<lambda>h p. Inr ()), ws_connect = (\<lambda>_. None), ws_tls = None,
     ws_upgrade = (\<lambda>h t. None), ws_opens = (\<lambda>f. True), ws_start = 0,
     ws_turns = [(1, Frame ''{1}''), (2, Frame ''{2}''), (30, Frame ''{3}'')], ws_message = (\<lambda>e. e), ws_escaped = None\<rparr>"

theorem capture_replays_witness:
  "\<exists>us. parse_binance_depth_updates
     (tree_reader [(''{1}'', update_json 2 2 7 [(15345, 250)] []), (''{2}'', update_json 2 2 13 [] [(15350, 0)])])
     (\<lambda>f n a. f) (as_lines [''{1}'', ''{2}'']) 2 2 = Inr us \<and> map firstUpdateId us = [7, 13]"
proof -
  let ?j1 = "update_json 2 2 7 [(15345, 250)] []" and ?j2 = "update_json 2 2 13 [] [(15350, 0)]"
  let ?sj = "tree_reader [(''{1}'', ?j1), (''{2}'', ?j2)]"
  have c: "capture sample_net ''h'' ''p'' ''t'' ''f'' 30 = Some (Inr 2, Some (as_lines [''{1}'', ''{2}'']))"
    by (simp add: capture_def sample_net_def)
  have d: "delivered (ws_start sample_net + 30) (ws_turns sample_net) = [''{1}'', ''{2}'']" by (simp add: sample_net_def)
  have clean: "\<forall>l \<in> set (delivered (ws_start sample_net + 30) (ws_turns sample_net)). clean_frame l"
    unfolding d by (simp add: clean_frame_def blank_def)
  have p: "\<exists>u. parse_binance_depth_update ?sj ''{1}'' 2 2 = Inr u \<and> firstUpdateId u = 7"
    "\<exists>u. parse_binance_depth_update ?sj ''{2}'' 2 2 = Inr u \<and> firstUpdateId u = 13"
    using tree_update_parses [of "[(''{1}'', ?j1), (''{2}'', ?j2)]" "''{1}''" 2 2 7 "[(15345, 250)]" "[]"]
      tree_update_parses [of "[(''{1}'', ?j1), (''{2}'', ?j2)]" "''{2}''" 2 2 13 "[]" "[(15350, 0)]"] by simp_all
  obtain u1 u2 where u: "parse_binance_depth_update ?sj ''{1}'' 2 2 = Inr u1" "firstUpdateId u1 = 7"
    "parse_binance_depth_update ?sj ''{2}'' 2 2 = Inr u2" "firstUpdateId u2 = 13"
    using p by blast
  have m: "map (\<lambda>l. parse_binance_depth_update ?sj l 2 2) (delivered (ws_start sample_net + 30) (ws_turns sample_net)) = map Inr [u1, u2]"
    unfolding d using u by simp
  from capture_replays [OF c clean m] u(2,4) show ?thesis by (intro exI [of _ "[u1, u2]"]) (simp del: as_lines_simps)
qed

section \<open>Fetching\<close>

text \<open>
  A fetch delivers a body exactly when every step of the exchange succeeds and the status is 200,
  and the body is the response's, unchanged.
\<close>

theorem https_get_exact:
  "https_get net fmt host target = Inr body \<longleftrightarrow>
    set_sni net host \<and> (\<exists>ep. resolve net host ''443'' = Inr ep \<and> connect net ep = None) \<and> tls_handshake net = None \<and>
    write_request net (get_request host target) = None \<and> read_response net = Inr (200, body)"
  by (auto simp: https_get_def attempt_eq_Inr step_ok_def split: sum.splits option.splits)

section \<open>The book of a snapshot\<close>

text \<open>The volume a list of levels puts at a price: \<open>add_order\<close> ignores what is not positive.\<close>

definition booked :: "price_level list \<Rightarrow> price \<Rightarrow> int" where
  "booked ls p = sum_list (map pl_volume (filter (\<lambda>l. pl_price l = p \<and> 0 < pl_volume l) ls))"

definition seeds :: "side \<Rightarrow> price_level list \<Rightarrow> command list" where
  "seeds s ls = map (\<lambda>l. Add s (pl_price l) (pl_volume l)) ls"

lemma add_levels_run:
  "add_levels s ls ob = ok ob' \<longleftrightarrow> (\<exists>rs. run_all exec (seeds s ls) ob = ok (rs, ob'))"
  by (induction ls arbitrary: ob) (auto simp: seeds_def chain_eq_ok)

lemma seed_spec:
  assumes "length us \<le> cap" "\<forall>(s, l) \<in> set us. pl_volume l < 2 ^ 63"
  defines "cs \<equiv> map (\<lambda>(s, l). Add s (pl_price l) (pl_volume l)) us"
  defines "ab \<equiv> snd (spec_all spec_exec cs empty_abook)"
  shows "allowed_all (owed cap) spec_exec cs empty_abook \<and> length (book_ids ab) \<le> length us \<and>
    (\<forall>s. sorted_wrt (before s) (map fst (ab s)) \<and>
      (\<forall>p. volumes (queue_at p (ab s)) = booked (map snd (filter (\<lambda>u. fst u = s) us)) p))"
  using assms(1,2) unfolding cs_def ab_def
proof (induction us rule: rev_induct)
  case Nil
  then show ?case by (simp add: book_ids_def queue_at_def booked_def)
next
  case (snoc u us)
  obtain s l where u: "u = (s, l)" by (cases u)
  let ?cs = "map (\<lambda>(s, l). Add s (pl_price l) (pl_volume l)) us"
  let ?ab = "snd (spec_all spec_exec ?cs empty_abook)"
  from snoc have IH: "allowed_all (owed cap) spec_exec ?cs empty_abook" "length (book_ids ?ab) \<le> length us"
    "\<And>t. sorted_wrt (before t) (map fst (?ab t))"
    "\<And>t p. volumes (queue_at p (?ab t)) = booked (map snd (filter (\<lambda>u. fst u = t) us)) p" by auto
  have al: "allowed_all (owed cap) spec_exec (map (\<lambda>(s, l). Add s (pl_price l) (pl_volume l)) (us @ [u])) empty_abook"
    using IH(1,2) snoc.prems u by (simp add: allowed_all_append)
  have ab': "snd (spec_all spec_exec (map (\<lambda>(s, l). Add s (pl_price l) (pl_volume l)) (us @ [u])) empty_abook) =
      (if pl_volume l \<le> 0 then ?ab else spec_rest s (pl_price l) kAnonymous (pl_volume l) ?ab)"
    by (simp add: u spec_all_append case_prod_unfold)
  show ?case
  proof (cases "pl_volume l \<le> 0")
    case True
    then show ?thesis using al IH unfolding ab' by (auto simp: u booked_def)
  next
    case False
    let ?f = "\<lambda>q. q @ [(kAnonymous, pl_volume l)]"
    have len: "length (book_ids (spec_rest s (pl_price l) kAnonymous (pl_volume l) ?ab)) = Suc (length (book_ids ?ab))"
      using length_book_ids_upd [of s ?ab "pl_price l" ?f, OF IH(3)] by (simp add: spec_rest_def)
    have srt: "sorted_wrt (before t) (map fst (spec_rest s (pl_price l) kAnonymous (pl_volume l) ?ab t))" for t
      using side_order.sorted_upd_level [OF IH(3) [of s], of "pl_price l" ?f] IH(3) [of t] by (simp add: spec_rest_def)
    have q: "volumes (queue_at p (spec_rest s (pl_price l) kAnonymous (pl_volume l) ?ab t)) =
        booked (map snd (filter (\<lambda>u. fst u = t) (us @ [u]))) p" for p t
      using spec_upd_at [of s ?ab p "pl_price l" ?f t, OF IH(3), folded spec_rest_def] IH(4) False
      by (auto simp: u booked_def volumes_def)
    show ?thesis using False al len IH(2) srt q unfolding ab' by auto
  qed
qed

text \<open>On a good book the prices of a side are those with positive volume.\<close>

lemma price_volume:
  assumes "book_ok ob"
  shows "p \<in> prices (abs_book ob s) \<longleftrightarrow> 0 < volumes (queue_at p (abs_book ob s))"
    and "0 \<le> volumes (queue_at p (abs_book ob s))"
proof -
  obtain Q where rep: "book_rep ob Q" using book_okD [OF assms] by blast
  note pos = queue_positive [OF book_positive [OF rep], of p s]
  show "0 \<le> volumes (queue_at p (abs_book ob s))" by (rule volumes_nonneg [OF pos])
  show "p \<in> prices (abs_book ob s) \<longleftrightarrow> 0 < volumes (queue_at p (abs_book ob s))"
    using book_sorted [OF rep, of s]
  proof (cases rule: side_order.level_cases [where p = p])
    case (hit A q B)
    have "q \<noteq> []" using book_no_empty [OF rep, of s] hit(1) by (auto simp: no_empty_level_def)
    moreover have "queue_at p (abs_book ob s) = q" using hit by (simp add: side_order.queue_at_hit)
    ultimately have "0 < volumes (queue_at p (abs_book ob s))"
      using pos by (cases q) (auto intro!: add_pos_nonneg volumes_nonneg)
    with hit(1) show ?thesis by (simp add: prices_def)
  next
    case (miss A B)
    have "p \<notin> fst ` set (abs_book ob s)" using miss side_order.po_irrefl by fastforce
    then show ?thesis by (simp add: side_order.queue_at_miss prices_def)
  qed
qed

text \<open>Seeding a new default book with \<open>add_order\<close> never faults, and each price shows what was put there.\<close>

lemma seeded_book:
  assumes "length us \<le> default_capacity" "\<forall>(s, l) \<in> set us. pl_volume l < 2 ^ 63"
  shows "\<exists>rs ob. run_all exec (map (\<lambda>(s, l). Add s (pl_price l) (pl_volume l)) us) (order_book_new default_capacity) =
      ok (rs, ob) \<and> book_ok ob \<and>
    (\<forall>s p. volumes (queue_at p (abs_book ob s)) = booked (map snd (filter (\<lambda>u. fst u = s) us)) p)"
proof -
  note sp = seed_spec [OF assms]
  have new: "book_ok (order_book_new default_capacity)" by (rule book_ok_new) (simp add: default_capacity_def)
  have "capacity (pool (order_book_new default_capacity)) = default_capacity"
    by (simp add: object_pool_new_def)
  with book.run_sim [OF new, of "map (\<lambda>(s, l). Add s (pl_price l) (pl_volume l)) us"] sp obtain rs ob where
    "run_all exec (map (\<lambda>(s, l). Add s (pl_price l) (pl_volume l)) us) (order_book_new default_capacity) = ok (rs, ob)"
    "book_ok ob"
    "spec_all spec_exec (map (\<lambda>(s, l). Add s (pl_price l) (pl_volume l)) us) empty_abook = (rs, abs_book ob)" by auto
  with sp show ?thesis by auto
qed

lemma load_book_spec:
  assumes "length (snap_bids s) + length (snap_asks s) \<le> default_capacity"
    and "\<forall>l \<in> set (snap_bids s @ snap_asks s). pl_volume l < 2 ^ 63"
  shows "\<exists>ob. load_book s = ok ob \<and> book_ok ob \<and>
    (\<forall>p. volumes (queue_at p (abs_book ob BID)) = booked (snap_bids s) p) \<and>
    (\<forall>p. volumes (queue_at p (abs_book ob ASK)) = booked (snap_asks s) p)"
proof -
  let ?us = "map (Pair BID) (snap_bids s) @ map (Pair ASK) (snap_asks s)"
  have cs: "map (\<lambda>(s, l). Add s (pl_price l) (pl_volume l)) ?us = seeds BID (snap_bids s) @ seeds ASK (snap_asks s)"
    by (simp add: seeds_def)
  have len: "length ?us \<le> default_capacity" using assms(1) by simp
  have vol: "\<forall>(s, l) \<in> set ?us. pl_volume l < 2 ^ 63" using assms(2) by auto
  from seeded_book [OF len vol, unfolded cs] obtain rs ob where
    r: "run_all exec (seeds BID (snap_bids s) @ seeds ASK (snap_asks s)) (order_book_new default_capacity) = ok (rs, ob)"
      "book_ok ob" "\<And>t p. volumes (queue_at p (abs_book ob t)) = booked (map snd (filter (\<lambda>u. fst u = t) ?us)) p"
    by blast
  from r(1) have "load_book s = ok ob"
    unfolding load_book_def run_all_append chain_eq_ok by (auto simp: add_levels_run chain_eq_ok)
  moreover have "filter (\<lambda>u. fst u = t) (map (Pair t') ls) = (if t = t' then map (Pair t') ls else [])"
    for t t' :: side and ls :: "price_level list" by (induction ls) auto
  ultimately show ?thesis using r(2,3) by (simp add: comp_def)
qed

text \<open>
  C37: the snapshot tool reports the book of the snapshot. When the text parses to a snapshot that
  fits the default book, loading it never faults; at each price the book shows the sum of the
  snapshot's positive volumes, its best bid and ask are the highest bid and the lowest ask with
  volume, and the tool reports the snapshot's id and level counts and, when both exist, the best bid,
  the best ask and the spread between them.
\<close>

theorem snapshot_report:
  assumes "parse_binance_depth sj body pd qd = Inr s"
    and "length (snap_bids s) + length (snap_asks s) \<le> default_capacity"
    and "\<forall>p. booked (snap_bids s) p < 2 ^ 63 \<and> booked (snap_asks s) p < 2 ^ 63"
  shows "\<exists>ob. load_book s = ok ob \<and>
    report_json sj pd qd (Inr body) =
      ok (Loaded (lastUpdateId s) (length (snap_bids s)) (length (snap_asks s))
        (case (best_bid ob, best_ask ob) of (Some b, Some a) \<Rightarrow> Some (b, a, a - b) | _ \<Rightarrow> None)) \<and>
    (\<forall>p. volume_at_price p BID ob = ok (booked (snap_bids s) p) \<and> volume_at_price p ASK ob = ok (booked (snap_asks s) p)) \<and>
    (case best_bid ob of None \<Rightarrow> \<forall>p. booked (snap_bids s) p = 0
       | Some p \<Rightarrow> 0 < booked (snap_bids s) p \<and> (\<forall>r. p < r \<longrightarrow> booked (snap_bids s) r = 0)) \<and>
    (case best_ask ob of None \<Rightarrow> \<forall>p. booked (snap_asks s) p = 0
       | Some p \<Rightarrow> 0 < booked (snap_asks s) p \<and> (\<forall>r. r < p \<longrightarrow> booked (snap_asks s) r = 0))"
proof -
  have "\<forall>l \<in> set (snap_bids s @ snap_asks s). pl_volume l < 2 ^ 63"
    using assms(1) unfolding depth_snapshot_iff by (fastforce dest: reads_side_i64)
  from load_book_spec [OF assms(2) this] obtain ob where ob: "load_book s = ok ob" "book_ok ob"
    "\<And>p. volumes (queue_at p (abs_book ob BID)) = booked (snap_bids s) p"
    "\<And>p. volumes (queue_at p (abs_book ob ASK)) = booked (snap_asks s) p"
    by blast
  have inv: "book_inv ob" using ob(2) by (simp add: book_ok_def)
  have bid: "p \<in> prices (abs_book ob BID) \<longleftrightarrow> booked (snap_bids s) p \<noteq> 0" "0 \<le> booked (snap_bids s) p" for p
    using price_volume [OF ob(2), of p BID] ob(3) by auto
  have ask: "p \<in> prices (abs_book ob ASK) \<longleftrightarrow> booked (snap_asks s) p \<noteq> 0" "0 \<le> booked (snap_asks s) p" for p
    using price_volume [OF ob(2), of p ASK] ob(4) by auto
  have "case best_bid ob of None \<Rightarrow> \<forall>p. booked (snap_bids s) p = 0
       | Some p \<Rightarrow> 0 < booked (snap_bids s) p \<and> (\<forall>r. p < r \<longrightarrow> booked (snap_bids s) r = 0)"
  proof (cases "best_bid ob")
    case (Some p)
    with best_prices_bid [OF inv] have "booked (snap_bids s) p \<noteq> 0" "\<forall>r. booked (snap_bids s) r \<noteq> 0 \<longrightarrow> r \<le> p"
      by (simp_all add: bid(1))
    with bid(2) [of p] Some show ?thesis by (auto simp: not_le [symmetric])
  qed (use best_prices_bid [OF inv] bid(1) in auto)
  moreover have "case best_ask ob of None \<Rightarrow> \<forall>p. booked (snap_asks s) p = 0
       | Some p \<Rightarrow> 0 < booked (snap_asks s) p \<and> (\<forall>r. r < p \<longrightarrow> booked (snap_asks s) r = 0)"
  proof (cases "best_ask ob")
    case (Some p)
    with best_prices_ask [OF inv] have "booked (snap_asks s) p \<noteq> 0" "\<forall>r. booked (snap_asks s) r \<noteq> 0 \<longrightarrow> p \<le> r"
      by (simp_all add: ask(1))
    with ask(2) [of p] Some show ?thesis by (auto simp: not_le [symmetric])
  qed (use best_prices_ask [OF inv] ask(1) in auto)
  moreover have "volume_at_price p BID ob = ok (booked (snap_bids s) p)" "volume_at_price p ASK ob = ok (booked (snap_asks s) p)" for p
    using volume_at_price_eq [OF inv] ob(3,4) assms(3) by (metis)+
  ultimately show ?thesis using ob(1) assms(1) by (simp add: report_json_def top_of_book_def)
qed

theorem snapshot_report_witness:
  "\<exists>ob. report_json (tree_reader [(''{snapshot}'', snapshot_json 2 2 42 [(15345, 250), (15340, 100)] [(15350, 7)])]) 2 2 (Inr ''{snapshot}'') =
      ok (Loaded 42 2 1 (Some (15345, 15350, 5))) \<and> volume_at_price 15340 BID ob = ok 100"
proof -
  let ?docs = "[(''{snapshot}'', snapshot_json 2 2 42 [(15345, 250), (15340, 100)] [(15350, 7)])]"
  let ?s = "\<lparr>lastUpdateId = 42, snap_bids = map plain_level [(15345, 250), (15340, 100)], snap_asks = map plain_level [(15350, 7)]\<rparr>"
  have p: "parse_binance_depth (tree_reader ?docs) ''{snapshot}'' 2 2 = Inr ?s"
    using tree_snapshot_parses [of ?docs "''{snapshot}''" 2 2 42 "[(15345, 250), (15340, 100)]" "[(15350, 7)]"] by simp
  have l: "length (snap_bids ?s) + length (snap_asks ?s) \<le> default_capacity" by (simp add: default_capacity_def)
  have b: "\<forall>p. booked (snap_bids ?s) p < 2 ^ 63 \<and> booked (snap_asks ?s) p < 2 ^ 63"
    by (simp add: booked_def plain_level_def)
  have k: "booked (snap_bids ?s) p = (if p = 15345 then 250 else if p = 15340 then 100 else 0)"
    "booked (snap_asks ?s) p = (if p = 15350 then 7 else 0)" for p by (auto simp: booked_def plain_level_def)
  obtain ob where ob: "report_json (tree_reader ?docs) 2 2 (Inr ''{snapshot}'') = ok (Loaded 42 2 1
      (case (best_bid ob, best_ask ob) of (Some b, Some a) \<Rightarrow> Some (b, a, a - b) | _ \<Rightarrow> None))"
    "volume_at_price 15340 BID ob = ok 100"
    and bid: "case best_bid ob of None \<Rightarrow> \<forall>p. booked (snap_bids ?s) p = 0
       | Some p \<Rightarrow> 0 < booked (snap_bids ?s) p \<and> (\<forall>r. p < r \<longrightarrow> booked (snap_bids ?s) r = 0)"
    and ask: "case best_ask ob of None \<Rightarrow> \<forall>p. booked (snap_asks ?s) p = 0
       | Some p \<Rightarrow> 0 < booked (snap_asks ?s) p \<and> (\<forall>r. r < p \<longrightarrow> booked (snap_asks ?s) r = 0)"
    using snapshot_report [OF p l b] k(1) [of 15340] by auto
  have "best_bid ob = Some 15345" using bid [unfolded k]
    by (auto split: option.splits if_splits dest: spec [of _ 15345])
  moreover have "best_ask ob = Some 15350" using ask [unfolded k]
    by (auto split: option.splits if_splits)
  ultimately show ?thesis using ob by auto
qed

end
