(* ===== verification/Market_Replay.thy ===== *)
theory Market_Replay
  imports Tool_Properties
begin

text \<open>
  \<open>src/benchmark/market_replay.cpp\<close>: an order book is seeded from a depth snapshot and a feed of
  \<open>depthUpdate\<close> events is streamed through it. Snapshot and feed come from files named in the
  environment, or are synthesized. The environment, the files, the JSON reader, \<open>fmt::format\<close> and the
  random distributions are parameters; the timing loop of the benchmark library is a number of
  iterations. A run that calls \<open>std::abort\<close> is \<open>None\<close>.
\<close>

section \<open>Applying levels\<close>

fun set_levels :: "side \<Rightarrow> price_level list \<Rightarrow> order_book \<Rightarrow> order_book run" where
  "set_levels s [] book = ok book"
| "set_levels s (l # ls) book = chain (set_level s (pl_price l) (pl_volume l) book) (set_levels s ls)"

definition seed_book :: "depth_snapshot \<Rightarrow> order_book \<Rightarrow> order_book run" where
  "seed_book snap book = chain (set_levels BID (snap_bids snap) book) (set_levels ASK (snap_asks snap))"

definition apply_update :: "depth_update \<Rightarrow> order_book \<Rightarrow> order_book run" where
  "apply_update u book = chain (set_levels BID (upd_bids u) book) (set_levels ASK (upd_asks u))"

fun apply_feed :: "depth_update list \<Rightarrow> order_book \<Rightarrow> order_book run" where
  "apply_feed [] book = ok book"
| "apply_feed (u # us) book = chain (apply_update u book) (apply_feed us)"

section \<open>Synthesized data\<close>

definition kSynthMid :: price where "kSynthMid = 15000"
definition kSynthDepth :: nat where "kSynthDepth = 1000"
definition kSynthEvents :: nat where "kSynthEvents = 5000"
definition kSynthTouchPerSide :: nat where "kSynthTouchPerSide = 12"
definition kSynthWindow :: price where "kSynthWindow = 200"

definition plevel :: "price \<Rightarrow> int \<Rightarrow> price_level" where
  "plevel p v = \<lparr>pl_price = p, pl_volume = v\<rparr>"

definition synth_snapshot :: depth_snapshot where
  "synth_snapshot = \<lparr>lastUpdateId = 0,
     snap_bids = map (\<lambda>i. plevel (kSynthMid - of_nat i) 100) [0..<kSynthDepth],
     snap_asks = map (\<lambda>i. plevel (kSynthMid + 1 + of_nat i) 100) [0..<kSynthDepth]\<rparr>"

text \<open>The three distributions over one generator: each draw returns a number and the generator after it.\<close>

record 'g rng =
  draw_off :: "'g \<Rightarrow> price \<times> 'g"
  draw_qty :: "'g \<Rightarrow> int \<times> 'g"
  draw_drift :: "'g \<Rightarrow> int \<times> 'g"

text \<open>What \<open>std::uniform_int_distribution\<close> documents: draws stay in the given bounds.\<close>

definition bounded_draws :: "'g rng \<Rightarrow> bool" where
  "bounded_draws d \<longleftrightarrow> (\<forall>g. fst (draw_off d g) \<le> kSynthWindow \<and> fst (draw_qty d g) \<in> {0..200} \<and>
     fst (draw_drift d g) \<in> {-2..2})"

text \<open>The inner loop: \<open>n\<close> levels for each side.\<close>

fun synth_levels :: "'g rng \<Rightarrow> nat \<Rightarrow> price \<Rightarrow> price \<Rightarrow> 'g \<Rightarrow> price_level list \<times> price_level list \<times> 'g" where
  "synth_levels d 0 bid_ref ask_ref g = ([], [], g)"
| "synth_levels d (Suc n) bid_ref ask_ref g =
     (case draw_off d g of (ob, g1) \<Rightarrow> case draw_qty d g1 of (qb, g2) \<Rightarrow>
      case draw_off d g2 of (oa, g3) \<Rightarrow> case draw_qty d g3 of (qa, g4) \<Rightarrow>
      case synth_levels d n bid_ref ask_ref g4 of (bids, asks, g5) \<Rightarrow>
        (plevel (bid_ref - ob) qb # bids, plevel (ask_ref + oa) qa # asks, g5))"

fun synth_events :: "'g rng \<Rightarrow> nat \<Rightarrow> price \<Rightarrow> price \<Rightarrow> 64 word \<Rightarrow> 'g \<Rightarrow> depth_update list" where
  "synth_events d 0 bid_ref ask_ref update_id g = []"
| "synth_events d (Suc n) bid_ref ask_ref update_id g =
     (case synth_levels d kSynthTouchPerSide bid_ref ask_ref g of (bids, asks, g1) \<Rightarrow>
      let update_id' = update_id + of_nat (length bids + length asks) in
      case draw_drift d g1 of (db, g2) \<Rightarrow> case draw_drift d g2 of (da, g3) \<Rightarrow>
        \<lparr>eventTime = 0, firstUpdateId = update_id, finalUpdateId = update_id' - 1, upd_bids = bids, upd_asks = asks\<rparr> #
        synth_events d n (of_int (sint bid_ref + db)) (of_int (sint ask_ref + da)) update_id' g3)"

definition synth_updates :: "'g rng \<Rightarrow> 'g \<Rightarrow> depth_snapshot \<Rightarrow> depth_update list" where
  "synth_updates d g seed =
     (let best_bid = (case snap_bids seed of [] \<Rightarrow> kSynthMid | l # _ \<Rightarrow> pl_price l);
          best_ask = (case snap_asks seed of [] \<Rightarrow> kSynthMid + 1 | l # _ \<Rightarrow> pl_price l) in
      synth_events d kSynthEvents best_bid best_ask 1 g)"

section \<open>Loading\<close>

text \<open>The process environment and the files it can read.\<close>

definition env_int :: "(string \<Rightarrow> string option) \<Rightarrow> string \<Rightarrow> int \<Rightarrow> int" where
  "env_int env name fallback = (case env name of Some raw \<Rightarrow> atoi raw | None \<Rightarrow> fallback)"

definition slurp :: "(string \<Rightarrow> string option) \<Rightarrow> string \<Rightarrow> string" where
  "slurp files path = (case files path of Some content \<Rightarrow> content | None \<Rightarrow> [])"

record ('d, 'v, 'e, 'g) host =
  getenv :: "string \<Rightarrow> string option"
  files :: "string \<Rightarrow> string option"
  reader :: "('d, 'v, 'e) simdjson"
  format_line :: "string \<Rightarrow> nat \<Rightarrow> string \<Rightarrow> string"
  random :: "'g rng"
  rng_seed :: 'g

definition replay_snapshot :: "('d, 'v, 'e, 'g) host \<Rightarrow> int \<Rightarrow> int \<Rightarrow> depth_snapshot option" where
  "replay_snapshot h pd qd =
     (case getenv h ''OB_SNAPSHOT'' of
        Some path \<Rightarrow> (case parse_binance_depth (reader h) (slurp (files h) path) pd qd of Inr s \<Rightarrow> Some s | Inl _ \<Rightarrow> None)
      | None \<Rightarrow> Some synth_snapshot)"

definition replay_updates :: "('d, 'v, 'e, 'g) host \<Rightarrow> depth_snapshot \<Rightarrow> int \<Rightarrow> int \<Rightarrow> depth_update list option" where
  "replay_updates h seed pd qd =
     (case getenv h ''OB_REPLAY'' of
        Some path \<Rightarrow>
          (case parse_binance_depth_updates (reader h) (format_line h) (slurp (files h) path) pd qd of
             Inr us \<Rightarrow> Some us | Inl _ \<Rightarrow> None)
      | None \<Rightarrow> Some (synth_updates (random h) (rng_seed h) seed))"

record replay_data =
  snap :: depth_snapshot
  feed_events :: "depth_update list"
  levels :: nat

definition kDefaultDecimals :: int where "kDefaultDecimals = 2"

definition load_replay :: "('d, 'v, 'e, 'g) host \<Rightarrow> replay_data option" where
  "load_replay h =
     (let pd = env_int (getenv h) ''OB_PRICE_DECIMALS'' kDefaultDecimals;
          qd = env_int (getenv h) ''OB_QTY_DECIMALS'' kDefaultDecimals in
      case replay_snapshot h pd qd of
        None \<Rightarrow> None
      | Some s \<Rightarrow>
          (case replay_updates h s pd qd of
             None \<Rightarrow> None
           | Some us \<Rightarrow> Some \<lparr>snap = s, feed_events = us,
               levels = sum_list (map (\<lambda>u. length (upd_bids u) + length (upd_asks u)) us)\<rparr>))"

section \<open>The benchmarks\<close>

text \<open>Steady state: one book, the feed once per iteration. Cold: a new book in every iteration.\<close>

fun iterate_feed :: "nat \<Rightarrow> depth_update list \<Rightarrow> order_book \<Rightarrow> order_book run" where
  "iterate_feed 0 us book = ok book"
| "iterate_feed (Suc n) us book = chain (apply_feed us book) (iterate_feed n us)"

definition steady_state :: "nat \<Rightarrow> replay_data \<Rightarrow> order_book run" where
  "steady_state n d =
     chain (seed_book (snap d) (order_book_new default_capacity)) (iterate_feed n (feed_events d))"

definition cold :: "replay_data \<Rightarrow> order_book run" where
  "cold d = chain (seed_book (snap d) (order_book_new default_capacity)) (apply_feed (feed_events d))"

end
