(* ===== verification/Ring.thy ===== *)
theory Ring
  imports Prelude
begin

unbundle bit_operations_syntax

text \<open>
  Arithmetic of ring buffers with free-running cursors. A cursor is a \<open>std::size_t\<close> that counts
  everything ever pushed or popped and wraps at \<open>2 ^ 64\<close>; the slot is the cursor masked by a power
  of two. The proofs follow a cursor by the natural number it stands for.
\<close>

section \<open>Cursors\<close>

type_synonym cursor = "64 word"

definition power_of_two :: "nat \<Rightarrow> bool" where
  "power_of_two n \<longleftrightarrow> (\<exists>k < 64. n = 2 ^ k)"

text \<open>\<open>cursor & (N - 1)\<close>\<close>

definition masked :: "nat \<Rightarrow> cursor \<Rightarrow> nat" where
  "masked n c = unat (c AND (of_nat n - 1))"

lemma power_of_two_bounds: "power_of_two n \<Longrightarrow> 0 < n \<and> n < 2 ^ 64"
  unfolding power_of_two_def using power_strict_increasing [of _ 64 "2 :: nat"] by auto

lemma unat_cursor: "n < 2 ^ 64 \<Longrightarrow> unat (of_nat n :: cursor) = n"
  by (simp add: unsigned_of_nat take_bit_nat_eq_self)

lemma cursor_diff_of_nat: "r \<le> w \<Longrightarrow> (of_nat w - of_nat r :: cursor) = of_nat (w - r)"
  by (simp add: of_nat_diff)

lemma cursor_diff:
  assumes "r \<le> w" "w - r < 2 ^ 64"
  shows "unat (of_nat w - of_nat r :: cursor) = w - r"
proof -
  have "(of_nat w - of_nat r :: cursor) = of_nat (w - r)" using assms(1) by (simp add: of_nat_diff)
  with assms(2) show ?thesis by (simp only: unat_cursor)
qed

lemma cursor_eq_iff:
  assumes "r \<le> w" "w - r < 2 ^ 64"
  shows "(of_nat r :: cursor) = of_nat w \<longleftrightarrow> r = w"
proof
  assume "(of_nat r :: cursor) = of_nat w"
  then have "of_nat w - of_nat r = (0 :: cursor)" by simp
  with cursor_diff [OF assms] show "r = w" using assms(1) by simp
qed simp

lemma masked_of_nat:
  assumes "power_of_two n"
  shows "masked n (of_nat w) = w mod n"
proof -
  from assms obtain k where k: "k < 64" "n = 2 ^ k" by (auto simp: power_of_two_def)
  have "(of_nat n - 1 :: cursor) = mask k" using k by (simp add: mask_eq_exp_minus_1)
  then have "masked n (of_nat w) = unat (take_bit k (of_nat w :: cursor))"
    by (simp add: masked_def take_bit_eq_mask)
  also have "\<dots> = take_bit k (take_bit 64 w)"
    by (simp add: unsigned_take_bit_eq unsigned_of_nat)
  also have "\<dots> = take_bit (min k 64) w" by (simp only: take_bit_take_bit)
  also have "\<dots> = w mod n" using k by (simp add: min_def take_bit_eq_mod)
  finally show ?thesis .
qed

section \<open>Slots\<close>

lemma mod_window_inj:
  fixes r :: nat
  assumes "r + i \<le> r + j" "j < n + i" "(r + i) mod n = (r + j) mod n"
  shows "i = j"
proof -
  have "n dvd (r + j) - (r + i)" using assms(1,3) mod_eq_dvd_iff_nat [of "r + i" "r + j" n] by metis
  moreover have "(r + j) - (r + i) < n" using assms(1,2) by simp
  ultimately show ?thesis using assms(1) by (auto dest: dvd_imp_le)
qed

lemma window_neq:
  fixes a b :: nat
  assumes "a < b" "b < a + n"
  shows "a mod n \<noteq> b mod n"
proof
  assume "a mod n = b mod n"
  moreover have "b - a < n" using assms by arith
  ultimately show False using mod_window_inj [of a 0 "b - a" n] assms(1) by simp
qed

text \<open>\<open>held\<close>: the cells of a window of cursors hold a list of elements.\<close>

definition held :: "'a option list \<Rightarrow> nat \<Rightarrow> 'a list \<Rightarrow> bool" where
  "held st r xs \<longleftrightarrow> (\<forall>i < length xs. st ! ((r + i) mod length st) = Some (xs ! i))"

lemma held_Nil [simp]: "held st r []"
  by (simp add: held_def)

lemma held_Cons:
  "held st r (x # xs) \<longleftrightarrow> st ! (r mod length st) = Some x \<and> held st (Suc r) xs"
  by (auto simp: held_def nth_Cons split: nat.splits)

lemma held_append: "held st r (xs @ ys) \<longleftrightarrow> held st r xs \<and> held st (r + length xs) ys"
  by (induction xs arbitrary: r) (simp_all add: held_Cons)

lemma held_upd_other:
  assumes "held st r xs" "\<And>i. i < length xs \<Longrightarrow> (r + i) mod length st \<noteq> k"
  shows "held (st[k := v]) r xs"
  using assms unfolding held_def by (metis length_list_update nth_list_update_neq)

text \<open>Writing behind a window, and clearing its front, leave the rest of the window alone.\<close>

lemma held_push:
  assumes "held st r xs" "length xs < length st"
  shows "held (st[(r + length xs) mod length st := Some x]) r (xs @ [x])"
proof -
  have "(r + i) mod length st \<noteq> (r + length xs) mod length st" if "i < length xs" for i
    using that assms(2) by (intro window_neq) auto
  moreover have "(r + length xs) mod length st < length st" using assms(2) by (intro mod_less_divisor) linarith
  ultimately show ?thesis using assms
    by (auto simp: held_append held_Cons intro!: held_upd_other)
qed

lemma held_pop:
  assumes "held st r (x # xs)" "length xs < length st"
  shows "held (st[r mod length st := v]) (Suc r) xs"
proof (rule held_upd_other)
  show "held st (Suc r) xs" using assms(1) by (simp add: held_Cons)
  fix i
  assume "i < length xs"
  with assms(2) have "r mod length st \<noteq> (Suc r + i) mod length st" by (intro window_neq) auto
  then show "(Suc r + i) mod length st \<noteq> r mod length st" by simp
qed

section \<open>Blocks\<close>

text \<open>A window of cells is at most two blocks: up to the end of the ring, and from its start.\<close>

lemma held_blocks:
  assumes "held st r xs" "length xs \<le> length st" "n \<le> length xs" "0 < length st"
  defines "first \<equiv> min n (length st - r mod length st)"
  shows "take first (drop (r mod length st) st) = map Some (take first xs)"
    and "take (n - first) st = map Some (drop first (take n xs))"
    and "r mod length st + first \<le> length st"
proof -
  let ?N = "length st" and ?k = "r mod length st"
  have k: "?k < ?N" using assms(4) by simp
  show le: "?k + first \<le> ?N" using k by (simp add: first_def)
  show "take first (drop ?k st) = map Some (take first xs)"
  proof (rule nth_equalityI)
    fix i
    assume "i < length (take first (drop ?k st))"
    then have i: "i < first" "?k + i < ?N" "i < length xs"
      using assms(3) by (auto simp: first_def)
    have "(r + i) mod ?N = ?k + i" using i(2) by (metis mod_add_left_eq mod_less)
    with assms(1) i show "take first (drop ?k st) ! i = map Some (take first xs) ! i"
      by (simp add: held_def) (metis add.commute)
  qed (use le assms(3) in \<open>auto simp: first_def\<close>)
  show "take (n - first) st = map Some (drop first (take n xs))"
  proof (rule nth_equalityI)
    show "length (take (n - first) st) = length (map Some (drop first (take n xs)))"
      using assms(2,3) by (simp add: first_def)
    fix i
    assume i: "i < length (take (n - first) st)"
    then have f: "first = ?N - ?k" and i2: "i < n - first" by (auto simp: first_def)
    have "?N * (r div ?N) + ?k = r" by simp
    then have e: "r + (first + i) = i + ?N * Suc (r div ?N)"
      unfolding mult_Suc_right using f k by linarith
    have "(r + (first + i)) mod ?N = i mod ?N" unfolding e by (rule mod_mult_self2)
    moreover have "i < ?N" using i2 assms(2,3) by simp
    ultimately have "(r + (first + i)) mod ?N = i" by simp
    moreover have "first + i < length xs" using i2 assms(3) by simp
    ultimately have "st ! i = Some (xs ! (first + i))" using assms(1) by (metis held_def)
    with i2 assms(3) show "take (n - first) st ! i = map Some (drop first (take n xs)) ! i" by simp
  qed
qed

text \<open>The index of the \<open>i\<close>-th position of a window, block by block.\<close>

lemma window_index:
  fixes r :: nat
  assumes "i < n" "n \<le> N"
  defines "first \<equiv> min n (N - r mod N)"
  shows "(r + i) mod N = (if i < first then r mod N + i else i - first)"
proof -
  have N: "0 < N" using assms by simp
  then have k: "r mod N < N" by simp
  have e: "(r + i) mod N = (r mod N + i) mod N" by (simp add: mod_add_left_eq)
  show ?thesis
  proof (cases "i < first")
    case True
    then have "r mod N + i < N" by (simp add: first_def less_diff_conv add.commute)
    with e True show ?thesis by simp
  next
    case False
    then have f: "first = N - r mod N" using assms(1) by (auto simp: first_def)
    have "r mod N + i = (i - first) + N" using f False k by simp
    moreover have "i - first < N" using assms by simp
    ultimately have "(r + i) mod N = (i - first) mod N \<and> i - first < N" using e by (metis mod_add_self2)
    with False show ?thesis by simp
  qed
qed

end
