(* ===== verification/Replay_Properties.thy ===== *)
theory Replay_Properties
  imports Market_Replay Ring
begin

text \<open>
  The replay as a session of absolute level updates, and what the book shows in the end: the
  composition of capture, parser and order book.
\<close>

section \<open>The replay as a feed\<close>

definition level_updates :: "side \<Rightarrow> price_level list \<Rightarrow> update list" where
  "level_updates s ls = map (\<lambda>l. (s, pl_price l, pl_volume l)) ls"

definition snapshot_feed :: "depth_snapshot \<Rightarrow> update list" where
  "snapshot_feed s = level_updates BID (snap_bids s) @ level_updates ASK (snap_asks s)"

definition event_feed :: "depth_update \<Rightarrow> update list" where
  "event_feed u = level_updates BID (upd_bids u) @ level_updates ASK (upd_asks u)"

definition events_feed :: "depth_update list \<Rightarrow> update list" where
  "events_feed us = concat (map event_feed us)"

text \<open>Running a feed on a book.\<close>

definition feeds :: "update list \<Rightarrow> order_book \<Rightarrow> order_book \<Rightarrow> bool" where
  "feeds us ob ob' \<longleftrightarrow> (\<exists>rs. run_all exec (feed us) ob = ok (rs, ob'))"

lemma feeds_Nil [simp]: "feeds [] ob ob' \<longleftrightarrow> ob = ob'"
  by (auto simp: feeds_def feed_def)

lemma feeds_append [simp]: "feeds (us @ vs) ob ob' \<longleftrightarrow> (\<exists>ob1. feeds us ob ob1 \<and> feeds vs ob1 ob')"
  by (auto simp: feeds_def feed_def run_all_append chain_eq_ok)

lemma set_levels_feeds: "set_levels s ls ob = ok ob' \<longleftrightarrow> feeds (level_updates s ls) ob ob'"
  by (induction ls arbitrary: ob) (auto simp: feeds_def feed_def level_updates_def chain_eq_ok)

lemma apply_update_feeds: "apply_update u ob = ok ob' \<longleftrightarrow> feeds (event_feed u) ob ob'"
  by (simp add: apply_update_def event_feed_def chain_eq_ok set_levels_feeds)

lemma seed_book_feeds: "seed_book s ob = ok ob' \<longleftrightarrow> feeds (snapshot_feed s) ob ob'"
  by (simp add: seed_book_def snapshot_feed_def chain_eq_ok set_levels_feeds)

lemma apply_feed_feeds: "apply_feed us ob = ok ob' \<longleftrightarrow> feeds (events_feed us) ob ob'"
  by (induction us arbitrary: ob) (simp_all add: events_feed_def chain_eq_ok apply_update_feeds)

lemma iterate_feed_feeds: "iterate_feed n us ob = ok ob' \<longleftrightarrow> feeds (concat (replicate n (events_feed us))) ob ob'"
  by (induction n arbitrary: ob) (simp_all add: chain_eq_ok apply_feed_feeds)

lemma steady_state_feeds:
  "steady_state n d = ok ob \<longleftrightarrow>
    feeds (snapshot_feed (snap d) @ concat (replicate n (events_feed (feed_events d)))) (order_book_new default_capacity) ob"
  by (simp add: steady_state_def chain_eq_ok seed_book_feeds iterate_feed_feeds)

lemma cold_feeds:
  "cold d = ok ob \<longleftrightarrow> feeds (snapshot_feed (snap d) @ events_feed (feed_events d)) (order_book_new default_capacity) ob"
  by (simp add: cold_def chain_eq_ok seed_book_feeds apply_feed_feeds)

section \<open>The last update counts\<close>

lemma touched_append [simp]: "levels_touched (us @ vs) = levels_touched us \<union> levels_touched vs"
  by (simp add: levels_touched_def image_Un)

lemma touched_single [simp]: "levels_touched [(s, p, v)] = {(s, p)}"
  by (simp add: levels_touched_def)

lemma touched_replicate: "levels_touched (concat (replicate (Suc n) us)) = levels_touched us"
  by (induction n) auto

lemma level_after_untouched: "(s, p) \<notin> levels_touched us \<Longrightarrow> level_after us s p = 0"
proof (induction us rule: rev_induct)
  case (snoc u us)
  obtain t q v where u: "u = (t, q, v)" by (cases u)
  with snoc show ?case by (auto simp: level_after_snoc)
qed (simp add: level_after_def)

lemma level_after_append:
  "level_after (us @ vs) s p = (if (s, p) \<in> levels_touched vs then level_after vs s p else level_after us s p)"
proof (induction vs rule: rev_induct)
  case (snoc v vs)
  obtain t q w where v: "v = (t, q, w)" by (cases v)
  from snoc show ?case
    unfolding v append_assoc [symmetric] level_after_snoc by (auto simp: level_after_untouched)
qed (simp add: levels_touched_def)

lemma level_after_replicate: "level_after (us @ concat (replicate (Suc n) vs)) s p = level_after (us @ vs) s p"
proof (induction n)
  case (Suc n)
  have e: "us @ concat (replicate (Suc (Suc n)) vs) = (us @ vs) @ concat (replicate (Suc n) vs)" by simp
  show ?case
    unfolding e level_after_append [of _ "concat (replicate (Suc n) vs)"] touched_replicate
    using Suc unfolding level_after_append touched_replicate by (auto split: if_splits)
qed simp

section \<open>The book in the end\<close>

lemma feeds_book:
  assumes "card (levels_touched us) \<le> default_capacity" "\<forall>(s, p, v) \<in> set us. v < 2 ^ 63"
  shows "\<exists>ob. feeds us (order_book_new default_capacity) ob \<and> book_ok ob \<and>
    (\<forall>s p. volume_at_price p s ob = ok (level_after us s p))"
proof -
  have "default_capacity \<le> 2 ^ 31" by (simp add: default_capacity_def)
  from feed_book [OF assms(1) this assms(2)] show ?thesis unfolding feeds_def by blast
qed

abbreviation replay_feed :: "replay_data \<Rightarrow> update list" where
  "replay_feed d \<equiv> snapshot_feed (snap d) @ events_feed (feed_events d)"

lemma steady_state_book:
  assumes "card (levels_touched (replay_feed d)) \<le> default_capacity" "\<forall>(s, p, v) \<in> set (replay_feed d). v < 2 ^ 63"
  shows "\<exists>ob. steady_state (Suc n) d = ok ob \<and> book_ok ob \<and>
    (\<forall>s p. volume_at_price p s ob = ok (level_after (replay_feed d) s p))"
proof -
  let ?us = "snapshot_feed (snap d) @ concat (replicate (Suc n) (events_feed (feed_events d)))"
  have t: "levels_touched ?us = levels_touched (replay_feed d)"
    by (simp only: touched_append touched_replicate)
  have "set ?us \<subseteq> set (replay_feed d)" by auto
  then have v: "\<forall>(s, p, v) \<in> set ?us. v < 2 ^ 63" using assms(2) by blast
  from feeds_book [OF _ v] assms(1) show ?thesis
    unfolding t steady_state_feeds level_after_replicate by blast
qed

lemma cold_book:
  assumes "card (levels_touched (replay_feed d)) \<le> default_capacity" "\<forall>(s, p, v) \<in> set (replay_feed d). v < 2 ^ 63"
  shows "\<exists>ob. cold d = ok ob \<and> (\<forall>s p. volume_at_price p s ob = ok (level_after (replay_feed d) s p))"
  using feeds_book [OF assms] unfolding cold_feeds by blast

text \<open>
  C33: re-running the feed keeps the book bounded: as long as the levels that snapshot and feed mention
  fit the pool, any number of passes over the feed runs without a fault, and after each pass the
  book shows at every price the size of the last update, as one cold replay does, so that the book
  does not depend on the number of passes.
\<close>

theorem replay_steady_state:
  assumes "card (levels_touched (replay_feed d)) \<le> default_capacity" "\<forall>(s, p, v) \<in> set (replay_feed d). v < 2 ^ 63"
  shows "\<exists>ob ob1. steady_state (Suc n) d = ok ob \<and> cold d = ok ob1 \<and> book_ok ob \<and>
    (\<forall>s p. volume_at_price p s ob = ok (level_after (replay_feed d) s p) \<and> volume_at_price p s ob1 = volume_at_price p s ob)"
  using steady_state_book [OF assms, of n] cold_book [OF assms] by auto

definition sample_replay :: replay_data where
  "sample_replay = \<lparr>snap = \<lparr>lastUpdateId = 100, snap_bids = [plevel 150 9, plevel 149 4], snap_asks = [plevel 151 6]\<rparr>,
     feed_events = [\<lparr>eventTime = 0, firstUpdateId = 40, finalUpdateId = 50, upd_bids = [plevel 150 2], upd_asks = [plevel 151 0, plevel 152 8]\<rparr>],
     levels = 3\<rparr>"

lemma sample_replay_feed:
  "replay_feed sample_replay = [(BID, 150, 9), (BID, 149, 4), (ASK, 151, 6), (BID, 150, 2), (ASK, 151, 0), (ASK, 152, 8)]"
  by (simp add: sample_replay_def snapshot_feed_def events_feed_def event_feed_def level_updates_def plevel_def)

lemma few_levels: "length us \<le> n \<Longrightarrow> card (levels_touched us) \<le> n"
  by (rule order_trans [OF card_levels_touched])

lemma sample_replay_fits:
  "card (levels_touched (replay_feed sample_replay)) \<le> default_capacity"
  "\<forall>(s, p, v) \<in> set (replay_feed sample_replay). v < 2 ^ 63"
  unfolding sample_replay_feed by (rule few_levels, simp_all add: default_capacity_def)

theorem replay_steady_state_witness:
  "\<exists>ob. steady_state 3 sample_replay = ok ob \<and> volume_at_price 150 BID ob = ok 2 \<and> volume_at_price 149 BID ob = ok 4 \<and>
    volume_at_price 151 ASK ob = ok 0"
proof -
  have l: "level_after (replay_feed sample_replay) BID 150 = 2" "level_after (replay_feed sample_replay) BID 149 = 4"
    "level_after (replay_feed sample_replay) ASK 151 = 0"
    unfolding sample_replay_feed by (simp_all add: level_after_def)
  from replay_steady_state [OF sample_replay_fits, of 2] l show ?thesis by (auto simp: numeral_3_eq_3)
qed

text \<open>
  The update ids are never compared: the event of the sample covers the ids up to 50, the snapshot is
  that of id 100, and still the event overwrites its sizes.
\<close>

lemma stale_updates_are_applied:
  "(\<forall>u \<in> set (feed_events sample_replay). finalUpdateId u < lastUpdateId (snap sample_replay)) \<and>
    (\<exists>ob. cold sample_replay = ok ob \<and> volume_at_price 150 BID ob = ok 2)"
proof -
  have "level_after (replay_feed sample_replay) BID 150 = 2"
    unfolding sample_replay_feed by (simp add: level_after_def)
  with cold_book [OF sample_replay_fits] show ?thesis by (auto simp: sample_replay_def)
qed

section \<open>From the capture to the book\<close>

lemma level_updates_small: "\<forall>l \<in> set ls. i64 (pl_volume l) \<Longrightarrow> \<forall>(s, p, v) \<in> set (level_updates t ls). v < 2 ^ 63"
  by (auto simp: level_updates_def)

lemma parsed_snapshot_small:
  assumes "parse_binance_depth sj json pd qd = Inr s"
  shows "\<forall>(t, p, v) \<in> set (snapshot_feed s). v < 2 ^ 63"
  using assms unfolding depth_snapshot_iff snapshot_feed_def
  by (auto dest!: reads_side_i64 level_updates_small)

lemma parsed_updates_small:
  assumes "map (\<lambda>l. parse_binance_depth_update sj l pd qd) ls = map Inr us"
  shows "\<forall>(t, p, v) \<in> set (events_feed us). v < 2 ^ 63"
proof -
  have "\<forall>(t, p, v) \<in> set (event_feed u). v < 2 ^ 63" if "u \<in> set us" for u
  proof -
    from that assms obtain l where "parse_binance_depth_update sj l pd qd = Inr u"
      by (metis (mono_tags, lifting) in_set_conv_nth length_map nth_map)
    then show ?thesis unfolding depth_update_iff event_feed_def
      by (auto dest!: reads_side_i64 level_updates_small)
  qed
  then show ?thesis by (auto simp: events_feed_def)
qed

text \<open>
  C32: capture, parser and order book together. A file the capture tool wrote, from whatever way the
  capture ended, is replayed on a book seeded from a saved snapshot: when every frame received is
  one line that parses, the replay loads exactly the updates of the frames in the order they
  arrived, runs without a fault for any number of passes as long as the levels fit the pool, and in
  the end the book shows at every price of either side the size of the last frame that mentions
  it, or else that of the snapshot.
\<close>

theorem capture_to_book:
  assumes "capture net host port target outfile duration = Some (res, Some file)"
    and "\<forall>l \<in> set (delivered (ws_start net + duration) (ws_turns net)). clean_frame l"
    and "map (\<lambda>l. parse_binance_depth_update (reader h) l pd qd) (delivered (ws_start net + duration) (ws_turns net)) = map Inr us"
    and "getenv h ''OB_REPLAY'' = Some outfile" "files h outfile = Some file"
    and "getenv h ''OB_SNAPSHOT'' = Some path" "parse_binance_depth (reader h) (slurp (files h) path) pd qd = Inr s"
    and "pd = env_int (getenv h) ''OB_PRICE_DECIMALS'' kDefaultDecimals"
    and "qd = env_int (getenv h) ''OB_QTY_DECIMALS'' kDefaultDecimals"
    and "card (levels_touched (snapshot_feed s @ events_feed us)) \<le> default_capacity"
  shows "\<exists>d ob. load_replay h = Some d \<and> snap d = s \<and> feed_events d = us \<and> steady_state (Suc n) d = ok ob \<and> book_ok ob \<and>
    (\<forall>t p. volume_at_price p t ob = ok (
      if (t, p) \<in> levels_touched (events_feed us) then level_after (events_feed us) t p else level_after (snapshot_feed s) t p))"
proof -
  have "parse_binance_depth_updates (reader h) (format_line h) (slurp (files h) outfile) pd qd = Inr us"
    using captured_parse [OF assms(1-3)] assms(5) by (simp add: slurp_def)
  then obtain d where d: "load_replay h = Some d" "snap d = s" "feed_events d = us"
    using assms(4,6-9) by (simp add: load_replay_def replay_snapshot_def replay_updates_def Let_def)
  have "\<forall>(t, p, v) \<in> set (replay_feed d). v < 2 ^ 63"
    using parsed_snapshot_small [OF assms(7)] parsed_updates_small [OF assms(3)] d by auto
  from steady_state_book [OF _ this, of n] assms(10) d show ?thesis by (auto simp: level_after_append)
qed

definition sample_docs :: "(string \<times> json) list" where
  "sample_docs = [(''{1}'', update_json 2 2 7 [(15345, 250)] []), (''{2}'', update_json 2 2 13 [] [(15350, 0)]),
     (''{s}'', snapshot_json 2 2 42 [(15345, 100), (15340, 5)] [(15350, 7)])]"

definition steady_rng :: "unit rng" where
  "steady_rng = \<lparr>draw_off = (\<lambda>g. (3, g)), draw_qty = (\<lambda>g. (50, g)), draw_drift = (\<lambda>g. (1, g))\<rparr>"

definition sample_host :: "(json, json, string, unit) host" where
  "sample_host = \<lparr>getenv = [''OB_SNAPSHOT'' \<mapsto> ''s'', ''OB_REPLAY'' \<mapsto> ''f''],
     files = [''s'' \<mapsto> ''{s}'', ''f'' \<mapsto> as_lines [''{1}'', ''{2}'']], reader = tree_reader sample_docs,
     format_line = (\<lambda>f n a. f), random = steady_rng, rng_seed = ()\<rparr>"

theorem capture_to_book_witness:
  "\<exists>d ob. load_replay sample_host = Some d \<and> steady_state 1 d = ok ob \<and> volume_at_price 15345 BID ob = ok 250 \<and>
    volume_at_price 15340 BID ob = ok 5 \<and> volume_at_price 15350 ASK ob = ok 0"
proof -
  let ?sj = "tree_reader sample_docs"
  have c: "capture sample_net ''h'' ''p'' ''t'' ''f'' 30 = Some (Inr 2, Some (as_lines [''{1}'', ''{2}'']))"
    by (simp add: capture_def sample_net_def)
  have d: "delivered (ws_start sample_net + 30) (ws_turns sample_net) = [''{1}'', ''{2}'']" by (simp add: sample_net_def)
  have clean: "\<forall>l \<in> set (delivered (ws_start sample_net + 30) (ws_turns sample_net)). clean_frame l"
    unfolding d by (simp add: clean_frame_def blank_def)
  obtain u1 u2 where u1: "parse_binance_depth_update ?sj ''{1}'' 2 2 = Inr u1" "upd_bids u1 = map plain_level [(15345, 250)]"
      "upd_asks u1 = map plain_level []"
    and u2: "parse_binance_depth_update ?sj ''{2}'' 2 2 = Inr u2" "upd_bids u2 = map plain_level []"
      "upd_asks u2 = map plain_level [(15350, 0)]"
    using tree_update_levels [of sample_docs "''{1}''" 2 2 7 "[(15345, 250)]" "[]"]
      tree_update_levels [of sample_docs "''{2}''" 2 2 13 "[]" "[(15350, 0)]"] by (auto simp: sample_docs_def)
  let ?s = "\<lparr>lastUpdateId = 42, snap_bids = map plain_level [(15345, 100), (15340, 5)], snap_asks = map plain_level [(15350, 7)]\<rparr>"
  have rd: "reader sample_host = ?sj" by (simp add: sample_host_def)
  have m: "map (\<lambda>l. parse_binance_depth_update (reader sample_host) l 2 2) (delivered (ws_start sample_net + 30) (ws_turns sample_net)) = map Inr [u1, u2]"
    unfolding d rd using u1 u2 by simp
  have h: "getenv sample_host ''OB_REPLAY'' = Some ''f''" "files sample_host ''f'' = Some (as_lines [''{1}'', ''{2}''])"
    "getenv sample_host ''OB_SNAPSHOT'' = Some ''s''" "slurp (files sample_host) ''s'' = ''{s}''"
    "2 = env_int (getenv sample_host) ''OB_PRICE_DECIMALS'' kDefaultDecimals"
    "2 = env_int (getenv sample_host) ''OB_QTY_DECIMALS'' kDefaultDecimals"
    by (simp_all add: sample_host_def slurp_def env_int_def kDefaultDecimals_def)
  have p: "parse_binance_depth (reader sample_host) (slurp (files sample_host) ''s'') 2 2 = Inr ?s"
    unfolding rd h(4) using tree_snapshot_parses [of sample_docs "''{s}''" 2 2 42 "[(15345, 100), (15340, 5)]" "[(15350, 7)]"]
    by (simp add: sample_docs_def)
  have e: "events_feed [u1, u2] = [(BID, 15345, 250), (ASK, 15350, 0)]"
    "snapshot_feed ?s = [(BID, 15345, 100), (BID, 15340, 5), (ASK, 15350, 7)]"
    using u1 u2 by (simp_all add: events_feed_def event_feed_def snapshot_feed_def level_updates_def plain_level_def)
  have f: "card (levels_touched (snapshot_feed ?s @ events_feed [u1, u2])) \<le> default_capacity"
    unfolding e by (rule few_levels) (simp add: default_capacity_def)
  have l: "level_after (events_feed [u1, u2]) BID 15345 = 250" "level_after (snapshot_feed ?s) BID 15340 = 5"
    "level_after (events_feed [u1, u2]) ASK 15350 = 0" "(BID, 15345) \<in> levels_touched (events_feed [u1, u2])"
    "(BID, 15340) \<notin> levels_touched (events_feed [u1, u2])" "(ASK, 15350) \<in> levels_touched (events_feed [u1, u2])"
    unfolding e by (simp_all add: level_after_def levels_touched_def)
  from capture_to_book [OF c clean m h(1-3) p h(5,6) f, of 0] l show ?thesis by auto
qed

section \<open>The synthesized feed\<close>

lemma synth_levels_spec:
  assumes "bounded_draws d" "synth_levels d n b a g = (bids, asks, g')"
  shows "length bids = n \<and> length asks = n \<and>
    (\<forall>l \<in> set bids. pl_volume l \<in> {0..200} \<and> (\<exists>x \<le> 200. pl_price l = b - of_nat x)) \<and>
    (\<forall>l \<in> set asks. pl_volume l \<in> {0..200} \<and> (\<exists>x \<le> 200. pl_price l = a + of_nat x))"
  using assms(2)
proof (induction n arbitrary: g bids asks g')
  case (Suc n)
  have off: "\<exists>x \<le> 200. fst (draw_off d g) = of_nat x" for g
  proof -
    have "unat (fst (draw_off d g)) \<le> unat (200 :: price)"
      using assms(1) unfolding bounded_draws_def kSynthWindow_def word_le_nat_alt by blast
    then show ?thesis by (intro exI [of _ "unat (fst (draw_off d g))"]) simp
  qed
  have qty: "fst (draw_qty d g) \<in> {0..200}" for g using assms(1) by (simp add: bounded_draws_def)
  from Suc.prems obtain bs as where l: "synth_levels d n b a (snd (draw_qty d (snd (draw_off d (snd (draw_qty d (snd (draw_off d g)))))))) = (bs, as, g')"
    "bids = plevel (b - fst (draw_off d g)) (fst (draw_qty d (snd (draw_off d g)))) # bs"
    "asks = plevel (a + fst (draw_off d (snd (draw_qty d (snd (draw_off d g))))))
      (fst (draw_qty d (snd (draw_off d (snd (draw_qty d (snd (draw_off d g)))))))) # as"
    by (auto split: prod.splits)
  show ?case using Suc.IH [OF l(1)] off qty unfolding l(2,3) plevel_def by auto
qed simp

lemma sint_of_small: "B < 2 ^ 63 \<Longrightarrow> sint (of_nat B :: price) = int B"
  by (simp add: signed_of_nat signed_take_bit_int_eq_self)

lemma drift_step:
  assumes "2 \<le> B" "B < 2 ^ 63" "x \<in> {-2..2}"
  obtains B' where "(of_int (sint (of_nat B :: price) + x) :: price) = of_nat B'" "B \<le> B' + 2" "B' \<le> B + 2"
proof -
  have "int (nat (int B + x)) = int B + x" using assms(1,3) by simp
  then have "(of_int (sint (of_nat B :: price) + x) :: price) = of_nat (nat (int B + x))"
    unfolding sint_of_small [OF assms(2)] by (metis of_int_of_nat_eq)
  moreover have "B \<le> nat (int B + x) + 2" "nat (int B + x) \<le> B + 2" using assms(1,3) by auto
  ultimately show ?thesis by (rule that)
qed

text \<open>The \<open>e\<close>-th event of a stream whose reference prices stand \<open>e\<close> drifts from \<open>B\<close> and \<open>A\<close>.\<close>

definition synth_event_ok :: "nat \<Rightarrow> nat \<Rightarrow> 64 word \<Rightarrow> nat \<Rightarrow> depth_update \<Rightarrow> bool" where
  "synth_event_ok B A i e u \<longleftrightarrow> firstUpdateId u = i + of_nat (24 * e) \<and> finalUpdateId u = i + of_nat (24 * e) + 23 \<and>
     length (upd_bids u) = 12 \<and> length (upd_asks u) = 12 \<and>
     (\<forall>l \<in> set (upd_bids u). pl_volume l \<in> {0..200} \<and> B \<le> unat (pl_price l) + 2 * e + 200 \<and> unat (pl_price l) \<le> B + 2 * e) \<and>
     (\<forall>l \<in> set (upd_asks u). pl_volume l \<in> {0..200} \<and> A \<le> unat (pl_price l) + 2 * e \<and> unat (pl_price l) \<le> A + 2 * e + 200)"

lemma synth_event_next:
  assumes "synth_event_ok B' A' (i + 24) e u" "B \<le> B' + 2" "B' \<le> B + 2" "A \<le> A' + 2" "A' \<le> A + 2"
  shows "synth_event_ok B A i (Suc e) u"
  using assms unfolding synth_event_ok_def by (auto simp: algebra_simps) (force+)?

lemma price_near:
  assumes "x \<le> 200" "200 \<le> B" "B + 200 < 2 ^ 63"
  shows "unat (of_nat B - of_nat x :: price) = B - x" "unat (of_nat B + of_nat x :: price) = B + x"
proof -
  show "unat (of_nat B - of_nat x :: price) = B - x" using assms by (intro cursor_diff) auto
  have e: "(of_nat B + of_nat x :: price) = of_nat (B + x)" by simp
  show "unat (of_nat B + of_nat x :: price) = B + x" unfolding e by (rule unat_cursor) (use assms in simp)
qed

lemma synth_events_spec:
  assumes d: "bounded_draws d" and "e < n" "2 * n + 200 \<le> B" "2 * n + 200 \<le> A" "B + 2 * n + 200 < 2 ^ 63" "A + 2 * n + 200 < 2 ^ 63"
  shows "length (synth_events d n (of_nat B) (of_nat A) i g) = n \<and>
    synth_event_ok B A i e (synth_events d n (of_nat B) (of_nat A) i g ! e)"
  using assms(2-6)
proof (induction n arbitrary: e B A i g)
  case (Suc n)
  obtain bids asks g1 where l: "synth_levels d kSynthTouchPerSide (of_nat B) (of_nat A) g = (bids, asks, g1)"
    by (cases "synth_levels d kSynthTouchPerSide (of_nat B) (of_nat A) g")
  note ls = synth_levels_spec [OF d l]
  obtain db g2 where db: "draw_drift d g1 = (db, g2)" by (cases "draw_drift d g1")
  obtain da g3 where da: "draw_drift d g2 = (da, g3)" by (cases "draw_drift d g2")
  have x: "db \<in> {-2..2}" "da \<in> {-2..2}" using d db da unfolding bounded_draws_def by (metis fst_conv)+
  have r: "2 \<le> B" "B < 2 ^ 63" "2 \<le> A" "A < 2 ^ 63" using Suc.prems by linarith+
  obtain B' where B': "(of_int (sint (of_nat B :: price) + db) :: price) = of_nat B'" "B \<le> B' + 2" "B' \<le> B + 2"
    by (rule drift_step [OF r(1,2) x(1)])
  obtain A' where A': "(of_int (sint (of_nat A :: price) + da) :: price) = of_nat A'" "A \<le> A' + 2" "A' \<le> A + 2"
    by (rule drift_step [OF r(3,4) x(2)])
  have len: "length bids = 12" "length asks = 12" using ls by (simp_all add: kSynthTouchPerSide_def)
  let ?u = "\<lparr>eventTime = 0, firstUpdateId = i, finalUpdateId = i + 24 - 1, upd_bids = bids, upd_asks = asks\<rparr>"
  let ?rest = "synth_events d n (of_nat B') (of_nat A') (i + 24) g3"
  have ev: "synth_events d (Suc n) (of_nat B) (of_nat A) i g = ?u # ?rest"
    using l db da B'(1) A'(1) len by (simp add: Let_def)
  have near: "200 \<le> B" "B + 200 < 2 ^ 63" "200 \<le> A" "A + 200 < 2 ^ 63" using Suc.prems by linarith+
  have u0: "synth_event_ok B A i 0 ?u"
    using ls len price_near [OF _ near(1,2)] price_near [OF _ near(3,4)] near by (fastforce simp: synth_event_ok_def)
  show ?case
  proof (cases n)
    case 0
    with ev u0 Suc.prems(1) show ?thesis by simp
  next
    case (Suc m)
    have IH: "length ?rest = n \<and> synth_event_ok B' A' (i + 24) k (?rest ! k)" if "k < n" for k
    proof (rule Suc.IH [OF that])
      have p: "2 * n + 202 \<le> B" "2 * n + 202 \<le> A" "B + 2 * n + 202 < 2 ^ 63" "A + 2 * n + 202 < 2 ^ 63"
        using Suc.prems by simp_all
      show "2 * n + 200 \<le> B'" "2 * n + 200 \<le> A'" "B' + 2 * n + 200 < 2 ^ 63" "A' + 2 * n + 200 < 2 ^ 63"
        using p B'(2,3) A'(2,3) by linarith+
    qed
    show ?thesis
    proof (cases e)
      case 0
      with ev u0 IH [of 0] Suc show ?thesis by simp
    next
      case (Suc k)
      with Suc.prems(1) have "k < n" by simp
      from IH [OF this] synth_event_next [OF _ B'(2,3) A'(2,3)] show ?thesis unfolding ev Suc by simp
    qed
  qed
qed simp

text \<open>
  The synthesized feed is a well-formed depth stream: whatever the random draws within their
  bounds, from a seed whose best prices are not within 10200 ticks of the ends of the range it has
  5000 events; the \<open>e\<close>-th covers the 24 update ids after those of the events before it, starting at 1;
  it touches twelve levels on each side, with sizes from 0 to 200 and prices within 200 ticks behind
  a reference price that has drifted at most two ticks per event: no price ever wraps.
\<close>

theorem synth_feed_contiguous:
  assumes "bounded_draws d" "e < 5000" "snap_bids seed = lb # bs" "snap_asks seed = la # as"
    and "10200 \<le> unat (pl_price lb)" "unat (pl_price lb) + 10200 < 2 ^ 63"
    and "10200 \<le> unat (pl_price la)" "unat (pl_price la) + 10200 < 2 ^ 63"
  shows "length (synth_updates d g seed) = 5000 \<and>
    synth_event_ok (unat (pl_price lb)) (unat (pl_price la)) 1 e (synth_updates d g seed ! e)"
proof -
  have "synth_updates d g seed = synth_events d 5000 (of_nat (unat (pl_price lb))) (of_nat (unat (pl_price la))) 1 g"
    using assms(3,4) by (simp add: synth_updates_def kSynthEvents_def)
  then show ?thesis
    using synth_events_spec [OF assms(1,2), of "unat (pl_price lb)" "unat (pl_price la)" 1 g] assms(5-8) by simp
qed

theorem synth_feed_contiguous_witness:
  "\<exists>us. us = synth_updates steady_rng () synth_snapshot \<and> length us = 5000 \<and> firstUpdateId (us ! 4999) = 119977 \<and>
    finalUpdateId (us ! 4999) = 120000"
proof -
  have b: "bounded_draws steady_rng" by (simp add: bounded_draws_def steady_rng_def kSynthWindow_def)
  have up: "[0..<kSynthDepth] = 0 # [Suc 0..<kSynthDepth]" by (subst upt_rec) (simp add: kSynthDepth_def)
  have s: "snap_bids synth_snapshot = plevel 15000 100 # map (\<lambda>i. plevel (kSynthMid - of_nat i) 100) [Suc 0..<kSynthDepth]"
    "snap_asks synth_snapshot = plevel 15001 100 # map (\<lambda>i. plevel (kSynthMid + 1 + of_nat i) 100) [Suc 0..<kSynthDepth]"
    by (simp_all add: synth_snapshot_def up kSynthMid_def)
  have u: "unat (pl_price (plevel 15000 100)) = 15000" "unat (pl_price (plevel 15001 100)) = 15001"
    by (simp_all add: plevel_def)
  have "(4999 :: nat) < 5000" by simp
  from synth_feed_contiguous [OF b this s, unfolded u, of "()"] show ?thesis by (simp add: synth_event_ok_def)
qed

end
