(* ===== verification/Load_Benchmarks.thy ===== *)
theory Load_Benchmarks
  imports Market_Replay Ring
begin

text \<open>
  \<open>src/benchmark/snapshot_load.cpp\<close> and \<open>src/benchmark/order_book.cpp\<close>: books filled by \<open>add_order\<close>
  from a snapshot, or from prices drawn at random. The benchmark library's loop is a number of
  iterations; environment, files, JSON reader and the random distribution are parameters.
\<close>

section \<open>The timed loop\<close>

text \<open>Every iteration builds its own book.\<close>

fun iterations :: "nat \<Rightarrow> order_book run \<Rightarrow> unit run" where
  "iterations 0 m = ok ()"
| "iterations (Suc n) m = chain m (\<lambda>_. iterations n m)"

lemma iterations_ok: "m = ok ob \<Longrightarrow> iterations n m = ok ()"
  by (induction n) simp_all

section \<open>\<open>snapshot_load.cpp\<close>\<close>

definition load_levels :: nat where
  "load_levels = 5000"

definition ladder_snapshot :: depth_snapshot where
  "ladder_snapshot = \<lparr>lastUpdateId = 0,
     snap_bids = map (\<lambda>i. plevel (100000 - of_nat i) 10) [0..<load_levels],
     snap_asks = map (\<lambda>i. plevel (100001 + of_nat i) 10) [0..<load_levels]\<rparr>"

definition load_snapshot :: "('d, 'v, 'e, 'g) host \<Rightarrow> depth_snapshot option" where
  "load_snapshot h =
     (case getenv h ''OB_SNAPSHOT'' of
        Some path \<Rightarrow> (case parse_binance_depth (reader h) (slurp (files h) path) 2 2 of Inr s \<Rightarrow> Some s | Inl _ \<Rightarrow> None)
      | None \<Rightarrow> Some ladder_snapshot)"

text \<open>The items the benchmark reports as processed; \<open>None\<close> when it aborts.\<close>

definition BM_LoadSnapshot :: "('d, 'v, 'e, 'g) host \<Rightarrow> nat \<Rightarrow> nat run option" where
  "BM_LoadSnapshot h n =
     (case load_snapshot h of
        None \<Rightarrow> None
      | Some s \<Rightarrow> Some (chain (iterations n (load_book s)) (\<lambda>_. ok (n * (length (snap_bids s) + length (snap_asks s))))))"

section \<open>\<open>order_book.cpp\<close>\<close>

text \<open>\<open>makePrices\<close>: the generator starts from its seed; \<open>draw\<close> is the distribution over it.\<close>

fun make_prices :: "('g \<Rightarrow> price \<times> 'g) \<Rightarrow> nat \<Rightarrow> 'g \<Rightarrow> price list" where
  "make_prices draw 0 g = []"
| "make_prices draw (Suc n) g = (case draw g of (p, g') \<Rightarrow> p # make_prices draw n g')"

fun add_bids :: "price list \<Rightarrow> order_book \<Rightarrow> order_book run" where
  "add_bids [] book = ok book"
| "add_bids (p # ps) book = chain (add_order BID p 10 book) (add_bids ps)"

fun add_both :: "price list \<Rightarrow> order_book \<Rightarrow> order_book run" where
  "add_both [] book = ok book"
| "add_both (p # ps) book = chain (add_order BID p 10 book) (\<lambda>b. chain (add_order ASK p 10 b) (add_both ps))"

definition BM_AddOrder :: "('g \<Rightarrow> price \<times> 'g) \<Rightarrow> 'g \<Rightarrow> nat \<Rightarrow> nat \<Rightarrow> nat run" where
  "BM_AddOrder draw seed n iters =
     (let prices = make_prices draw n seed in
      chain (iterations iters (add_bids prices (order_book_new default_capacity))) (\<lambda>_. ok (iters * n)))"

text \<open>The best bid every iteration of the last benchmark reads.\<close>

definition BM_GetBestPrices :: "('g \<Rightarrow> price \<times> 'g) \<Rightarrow> 'g \<Rightarrow> nat \<Rightarrow> price option run" where
  "BM_GetBestPrices draw seed n =
     chain (add_both (make_prices draw n seed) (order_book_new default_capacity)) (\<lambda>book. ok (best_bid book))"

section \<open>The books they build\<close>

lemma booked_tens: "booked (map (\<lambda>p. plevel p 10) ps) q = 10 * int (count_list ps q)"
  by (induction ps) (simp_all add: booked_def plevel_def)

text \<open>The best prices of a book that shows ten units per price listed on either side.\<close>

lemma tens_book:
  assumes "book_ok ob" "length bs \<le> default_capacity" "length as \<le> default_capacity"
    and "\<And>p. volumes (queue_at p (abs_book ob BID)) = 10 * int (count_list bs p)"
    and "\<And>p. volumes (queue_at p (abs_book ob ASK)) = 10 * int (count_list as p)"
  shows "(\<forall>p. volume_at_price p BID ob = ok (10 * int (count_list bs p)) \<and>
      volume_at_price p ASK ob = ok (10 * int (count_list as p))) \<and>
    best_bid ob = (if bs = [] then None else Some (Max (set bs))) \<and>
    best_ask ob = (if as = [] then None else Some (Min (set as)))"
proof -
  have inv: "book_inv ob" using assms(1) by (simp add: book_ok_def)
  have "10 * int (count_list xs p) < 2 ^ 63" if "length xs \<le> default_capacity" for xs :: "price list" and p
    using that count_le_length [of xs p] by (simp add: default_capacity_def)
  with assms(2-5) have v: "volume_at_price p BID ob = ok (10 * int (count_list bs p))"
    "volume_at_price p ASK ob = ok (10 * int (count_list as p))" for p
    using volume_at_price_eq [OF inv] by metis+
  have "0 < count_list xs p \<longleftrightarrow> p \<in> set xs" for xs :: "price list" and p
    using count_list_0_iff [of xs p] by (metis gr0I less_not_refl)
  then have "prices (abs_book ob BID) = set bs" "prices (abs_book ob ASK) = set as"
    using price_volume(1) [OF assms(1)] assms(4,5) by auto
  with best_prices_bid [OF inv] best_prices_ask [OF inv]
  have "best_bid ob = (if bs = [] then None else Some (Max (set bs)))"
    "best_ask ob = (if as = [] then None else Some (Min (set as)))"
    by (auto split: option.splits intro!: Max_eqI [symmetric] Min_eqI [symmetric])
  with v show ?thesis by blast
qed

text \<open>
  Loading the ladder never faults: ten units at each of the five thousand prices below and above the
  middle, and a spread of one tick.
\<close>

lemma ladder_loads:
  "\<exists>ob. load_book ladder_snapshot = ok ob \<and> best_bid ob = Some 100000 \<and> best_ask ob = Some 100001"
proof -
  let ?bs = "map (\<lambda>i. 100000 - of_nat i) [0..<load_levels] :: price list"
  let ?as = "map (\<lambda>i. 100001 + of_nat i) [0..<load_levels] :: price list"
  have s: "snap_bids ladder_snapshot = map (\<lambda>p. plevel p 10) ?bs" "snap_asks ladder_snapshot = map (\<lambda>p. plevel p 10) ?as"
    by (simp_all add: ladder_snapshot_def)
  have len: "length ?bs \<le> default_capacity" "length ?as \<le> default_capacity"
    "length (snap_bids ladder_snapshot) + length (snap_asks ladder_snapshot) \<le> default_capacity"
    unfolding s by (simp_all add: load_levels_def default_capacity_def)
  have "\<forall>l \<in> set (snap_bids ladder_snapshot @ snap_asks ladder_snapshot). pl_volume l < 2 ^ 63"
    unfolding s by (auto simp: plevel_def)
  from load_book_spec [OF len(3) this] obtain ob where ob: "load_book ladder_snapshot = ok ob" "book_ok ob"
    "\<And>p. volumes (queue_at p (abs_book ob BID)) = 10 * int (count_list ?bs p)"
    "\<And>p. volumes (queue_at p (abs_book ob ASK)) = 10 * int (count_list ?as p)"
    unfolding s booked_tens by blast
  have u: "unat (100000 - of_nat i :: price) = 100000 - i" "unat (100001 + of_nat i :: price) = 100001 + i"
    if "i < load_levels" for i
  proof -
    have i: "i < 5000" using that by (simp add: load_levels_def)
    show "unat (100000 - of_nat i :: price) = 100000 - i" using cursor_diff [of i 100000] i by simp
    have "(100001 + of_nat i :: price) = of_nat (100001 + i)" by simp
    then show "unat (100001 + of_nat i :: price) = 100001 + i" using unat_cursor [of "100001 + i"] i by simp
  qed
  have z: "(0 :: nat) < load_levels" by (simp add: load_levels_def)
  have "Max (set ?bs) = 100000"
    by (rule Max_eqI) (use u z in \<open>auto simp: word_le_nat_alt intro!: image_eqI [of _ _ 0]\<close>)
  moreover have "Min (set ?as) = 100001"
    by (rule Min_eqI) (use u z in \<open>auto simp: word_le_nat_alt intro!: image_eqI [of _ _ 0]\<close>)
  ultimately show ?thesis using tens_book [OF ob(2) len(1,2) ob(3,4)] ob(1) z by auto
qed

lemma load_snapshot_benchmark:
  assumes "getenv h ''OB_SNAPSHOT'' = None"
  shows "BM_LoadSnapshot h n = Some (ok (n * 10000))"
proof -
  obtain ob where "load_book ladder_snapshot = ok ob" using ladder_loads by blast
  from iterations_ok [OF this, of n] assms show ?thesis
    by (simp add: BM_LoadSnapshot_def load_snapshot_def ladder_snapshot_def load_levels_def)
qed

lemma length_make_prices [simp]: "length (make_prices draw n g) = n"
  by (induction n arbitrary: g) (simp_all split: prod.split)

definition bid_orders :: "price list \<Rightarrow> (side \<times> price_level) list" where
  "bid_orders ps = map (\<lambda>p. (BID, plevel p 10)) ps"

definition both_orders :: "price list \<Rightarrow> (side \<times> price_level) list" where
  "both_orders ps = concat (map (\<lambda>p. [(BID, plevel p 10), (ASK, plevel p 10)]) ps)"

abbreviation as_commands :: "(side \<times> price_level) list \<Rightarrow> command list" where
  "as_commands us \<equiv> map (\<lambda>(s, l). Add s (pl_price l) (pl_volume l)) us"

lemma add_bids_run: "add_bids ps ob = ok ob' \<longleftrightarrow> (\<exists>rs. run_all exec (as_commands (bid_orders ps)) ob = ok (rs, ob'))"
  by (induction ps arbitrary: ob) (auto simp: bid_orders_def plevel_def chain_eq_ok)

lemma add_both_run: "add_both ps ob = ok ob' \<longleftrightarrow> (\<exists>rs. run_all exec (as_commands (both_orders ps)) ob = ok (rs, ob'))"
  by (induction ps arbitrary: ob) (auto simp: both_orders_def plevel_def chain_eq_ok)

lemma orders_of_side:
  "map snd (filter (\<lambda>u. fst u = s) (bid_orders ps)) = map (\<lambda>p. plevel p 10) (if s = BID then ps else [])"
  "map snd (filter (\<lambda>u. fst u = s) (both_orders ps)) = map (\<lambda>p. plevel p 10) ps"
  by (induction ps; cases s; simp add: bid_orders_def both_orders_def)+

lemma orders_small:
  "\<forall>(s, l) \<in> set (bid_orders ps). pl_volume l < 2 ^ 63" "\<forall>(s, l) \<in> set (both_orders ps). pl_volume l < 2 ^ 63"
  "length (bid_orders ps) = length ps" "length (both_orders ps) = 2 * length ps"
  by (induction ps) (auto simp: bid_orders_def both_orders_def plevel_def)

text \<open>
  Whatever prices are drawn, the fill of \<open>BM_AddOrder\<close> never faults, its best bid is the highest
  price drawn; and the benchmark reads a best bid from a book that it has crossed: the highest bid
  against the lowest ask.
\<close>

lemma add_bids_book:
  assumes "length ps \<le> default_capacity"
  shows "\<exists>ob. add_bids ps (order_book_new default_capacity) = ok ob \<and>
    (\<forall>p. volume_at_price p BID ob = ok (10 * int (count_list ps p))) \<and>
    best_bid ob = (if ps = [] then None else Some (Max (set ps))) \<and> best_ask ob = None"
proof -
  have "length (bid_orders ps) \<le> default_capacity" using assms orders_small by simp
  from seeded_book [OF this orders_small(1)] obtain rs ob where
    ob: "run_all exec (as_commands (bid_orders ps)) (order_book_new default_capacity) = ok (rs, ob)" "book_ok ob"
      "\<And>s p. volumes (queue_at p (abs_book ob s)) = 10 * int (count_list (if s = BID then ps else []) p)"
    unfolding orders_of_side booked_tens by blast
  have "add_bids ps (order_book_new default_capacity) = ok ob" using ob(1) add_bids_run by blast
  with tens_book [OF ob(2) assms, of "[]"] ob(3) show ?thesis by auto
qed

lemma add_both_book:
  assumes "2 * length ps \<le> default_capacity" "ps \<noteq> []"
  shows "\<exists>ob. add_both ps (order_book_new default_capacity) = ok ob \<and>
    best_bid ob = Some (Max (set ps)) \<and> best_ask ob = Some (Min (set ps))"
proof -
  have "length (both_orders ps) \<le> default_capacity" using assms orders_small by simp
  from seeded_book [OF this orders_small(2)] obtain rs ob where
    ob: "run_all exec (as_commands (both_orders ps)) (order_book_new default_capacity) = ok (rs, ob)" "book_ok ob"
      "\<And>s p. volumes (queue_at p (abs_book ob s)) = 10 * int (count_list ps p)"
    unfolding orders_of_side booked_tens by blast
  have "add_both ps (order_book_new default_capacity) = ok ob" using ob(1) add_both_run by blast
  moreover have "length ps \<le> default_capacity" using assms by linarith
  ultimately show ?thesis using tens_book [OF ob(2) _ _ ob(3) ob(3)] assms(2) by auto
qed

lemma add_order_benchmark:
  assumes "n \<le> default_capacity"
  shows "BM_AddOrder draw seed n iters = ok (iters * n)"
proof -
  have "length (make_prices draw n seed) \<le> default_capacity" using assms by simp
  from add_bids_book [OF this] obtain ob where "add_bids (make_prices draw n seed) (order_book_new default_capacity) = ok ob"
    by blast
  from iterations_ok [OF this, of iters] show ?thesis by (simp add: BM_AddOrder_def)
qed

lemma best_prices_benchmark:
  assumes "0 < n" "2 * n \<le> default_capacity"
  shows "BM_GetBestPrices draw seed n = ok (Some (Max (set (make_prices draw n seed))))"
proof -
  have "2 * length (make_prices draw n seed) \<le> default_capacity" "make_prices draw n seed \<noteq> []"
    using assms by (simp_all flip: length_greater_0_conv)
  from add_both_book [OF this] show ?thesis by (auto simp: BM_GetBestPrices_def)
qed

end
