(* ===== verification/Spsc_Queue.thy ===== *)
theory Spsc_Queue
  imports Ring
begin

text \<open>
  \<open>spsc_queue<T, N>\<close> of \<open>src/concurrent_queue/spsc_queue.hpp\<close>: a bounded ring of \<open>N\<close> cells, \<open>N\<close> a power
  of two, with absolute 64-bit cursors. Each side keeps its own cursor, publishes it to the other
  side, and caches the other side's cursor. A cell is \<open>Some x\<close> while an element lives in it and
  \<open>None\<close> while it is raw storage; reading or destroying raw storage is the fault \<open>Lifetime\<close>.
  The operations are here as the single thread that calls them runs them; \<open>Spsc_Concurrent\<close>
  interleaves the two sides.
\<close>

section \<open>State\<close>

text \<open>What the code asks of \<open>T\<close>: trivially copyable, trivially destructible.\<close>

record traits =
  copyable :: bool
  destructible :: bool

record 'a spsc_queue =
  storage :: "'a option list"
  read_position :: cursor
  read_position_local :: cursor
  write_position_cache :: cursor
  write_position :: cursor
  write_position_local :: cursor
  read_position_cache :: cursor

abbreviation slots :: "'a spsc_queue \<Rightarrow> nat" where
  "slots q \<equiv> length (storage q)"

definition spsc_new :: "nat \<Rightarrow> 'a spsc_queue" where
  "spsc_new n = \<lparr>storage = replicate n None, read_position = 0, read_position_local = 0,
     write_position_cache = 0, write_position = 0, write_position_local = 0, read_position_cache = 0\<rparr>"

section \<open>Cells\<close>

definition calculate_index :: "'a spsc_queue \<Rightarrow> cursor \<Rightarrow> nat" where
  "calculate_index q c = masked (slots q) c"

text \<open>\<open>std::construct_at\<close>, \<open>std::move(*cell)\<close> and \<open>std::destroy_at\<close> on a cell.\<close>

definition construct_at :: "nat \<Rightarrow> 'a \<Rightarrow> 'a option list \<Rightarrow> 'a option list run" where
  "construct_at i x st = (if i < length st then ok (st[i := Some x]) else abort Bad_Index)"

definition read_cell :: "nat \<Rightarrow> 'a option list \<Rightarrow> 'a run" where
  "read_cell i st =
     (if i < length st then (case st ! i of Some x \<Rightarrow> ok x | None \<Rightarrow> abort Lifetime) else abort Bad_Index)"

definition destroy_at :: "bool \<Rightarrow> nat \<Rightarrow> 'a option list \<Rightarrow> 'a option list run" where
  "destroy_at triv i st = chain (read_cell i st) (\<lambda>_. ok (if triv then st else st[i := None]))"

text \<open>\<open>for (size_t pos = from; pos != to; ++pos)\<close>\<close>

lemma cursor_step: "unat (t - (p + 1)) < unat (t - p)" if "p \<noteq> t" for p t :: cursor
proof -
  have "t - p \<noteq> 0" using that by simp
  then have "unat (t - p - 1) < unat (t - p)" by (simp add: unat_minus_one unat_gt_0)
  then show ?thesis by (simp add: diff_diff_eq)
qed

function destroy_cells :: "cursor \<Rightarrow> cursor \<Rightarrow> 'a option list \<Rightarrow> 'a option list run" where
  "destroy_cells pos to st =
     (if pos \<noteq> to
      then chain (destroy_at False (masked (length st) pos) st) (\<lambda>st'. destroy_cells (pos + 1) to st')
      else ok st)"
  by pat_completeness auto
termination
  by (relation "measure (\<lambda>(pos, to, st). unat (to - pos))") (auto simp: cursor_step)

declare destroy_cells.simps [simp del]

definition destroy_range :: "bool \<Rightarrow> cursor \<Rightarrow> cursor \<Rightarrow> 'a option list \<Rightarrow> 'a option list run" where
  "destroy_range triv from to st = (if \<not> triv then destroy_cells from to st else ok st)"

section \<open>Cursors\<close>

definition size :: "'a spsc_queue \<Rightarrow> cursor" where
  "size q = write_position q - read_position q"

definition is_empty :: "'a spsc_queue \<Rightarrow> bool" where
  "is_empty q \<longleftrightarrow> size q = 0"

definition is_full :: "'a spsc_queue \<Rightarrow> bool" where
  "is_full q \<longleftrightarrow> size q = of_nat (slots q)"

definition free_slots :: "'a spsc_queue \<Rightarrow> cursor" where
  "free_slots q = of_nat (slots q) - (write_position_local q - read_position_cache q)"

definition has_room :: "cursor \<Rightarrow> 'a spsc_queue \<Rightarrow> bool \<times> 'a spsc_queue" where
  "has_room count q =
     (if free_slots q < count then
        let q' = q\<lparr>read_position_cache := read_position q\<rparr> in (free_slots q' \<ge> count, q')
      else (True, q))"

definition publish_write :: "cursor \<Rightarrow> 'a spsc_queue \<Rightarrow> 'a spsc_queue" where
  "publish_write new_write q = q\<lparr>write_position_local := new_write, write_position := new_write\<rparr>"

definition readable :: "'a spsc_queue \<Rightarrow> cursor \<times> 'a spsc_queue" where
  "readable q =
     (let q' = (if read_position_local q = write_position_cache q
                then q\<lparr>write_position_cache := write_position q\<rparr> else q) in
      (write_position_cache q' - read_position_local q', q'))"

definition publish_read :: "cursor \<Rightarrow> 'a spsc_queue \<Rightarrow> 'a spsc_queue" where
  "publish_read new_read q = q\<lparr>read_position_local := new_read, read_position := new_read\<rparr>"

section \<open>The producer\<close>

definition try_emplace :: "'a \<Rightarrow> 'a spsc_queue \<Rightarrow> (bool \<times> 'a spsc_queue) run" where
  "try_emplace x q =
     (let old_write = write_position_local q in
      case has_room 1 q of (room, q1) \<Rightarrow>
        if \<not> room then ok (False, q1)
        else if is_full q1 then abort Assert_Failed
        else chain (construct_at (calculate_index q1 old_write) x (storage q1)) (\<lambda>st.
          ok (True, publish_write (old_write + 1) (q1\<lparr>storage := st\<rparr>))))"

text \<open>
  \<open>memcpy\<close> of \<open>n\<close> elements from offset \<open>i\<close> of the source range to offset \<open>k\<close> of the ring: reading past
  the end of the source or writing past the end of the ring is \<open>Bad_Index\<close>.
\<close>

definition memcpy_in :: "nat \<Rightarrow> 'a list \<Rightarrow> nat \<Rightarrow> nat \<Rightarrow> 'a option list \<Rightarrow> 'a option list run" where
  "memcpy_in k src i n st =
     (if i + n \<le> length src \<and> k + n \<le> length st
      then ok (take k st @ map Some (take n (drop i src)) @ drop (k + n) st)
      else abort Bad_Index)"

text \<open>The element-wise branch: construct at successive cursors.\<close>

fun construct_from :: "cursor \<Rightarrow> 'a list \<Rightarrow> 'a option list \<Rightarrow> 'a option list run" where
  "construct_from pos [] st = ok st"
| "construct_from pos (x # xs) st =
     chain (construct_at (masked (length st) pos) x st) (\<lambda>st'. construct_from (pos + 1) xs st')"

definition try_emplace_range :: "traits \<Rightarrow> 'a list \<Rightarrow> 'a spsc_queue \<Rightarrow> (bool \<times> 'a spsc_queue) run" where
  "try_emplace_range tr r q =
     (let count = (of_nat (length r) :: cursor); old_write = write_position_local q in
      case has_room count q of (room, q1) \<Rightarrow>
        if \<not> room then ok (False, q1)
        else
          chain (if copyable tr then
              let write_index = calculate_index q1 old_write;
                  first_chunk = min (unat count) (slots q1 - write_index);
                  src = first_chunk in
              chain (memcpy_in write_index r src first_chunk (storage q1)) (\<lambda>st1.
                if first_chunk < unat count
                then memcpy_in 0 r src (unat count - first_chunk) st1 else ok st1)
            else construct_from old_write r (storage q1)) (\<lambda>st.
          ok (True, publish_write (old_write + count) (q1\<lparr>storage := st\<rparr>))))"

section \<open>The consumer\<close>

definition try_dequeue :: "traits \<Rightarrow> 'a spsc_queue \<Rightarrow> ('a option \<times> 'a spsc_queue) run" where
  "try_dequeue tr q =
     (let old_read = read_position_local q in
      case readable q of (n, q1) \<Rightarrow>
        if n = 0 then ok (None, q1)
        else if is_empty q1 then abort Assert_Failed
        else let cell = calculate_index q1 old_read in
          chain (read_cell cell (storage q1)) (\<lambda>x.
          chain (destroy_at (destructible tr) cell (storage q1)) (\<lambda>st.
          ok (Some x, publish_read (old_read + 1) (q1\<lparr>storage := st\<rparr>)))))"

text \<open>The overload with an output argument.\<close>

definition try_dequeue_into :: "traits \<Rightarrow> 'a \<Rightarrow> 'a spsc_queue \<Rightarrow> (bool \<times> 'a \<times> 'a spsc_queue) run" where
  "try_dequeue_into tr out q =
     (let old_read = read_position_local q in
      case readable q of (n, q1) \<Rightarrow>
        if n = 0 then ok (False, out, q1)
        else if is_empty q1 then abort Assert_Failed
        else let cell = calculate_index q1 old_read in
          chain (read_cell cell (storage q1)) (\<lambda>x.
          chain (destroy_at (destructible tr) cell (storage q1)) (\<lambda>st.
          ok (True, x, publish_read (old_read + 1) (q1\<lparr>storage := st\<rparr>)))))"

text \<open>\<open>memcpy\<close> of \<open>n\<close> cells from offset \<open>k\<close> of the ring to offset \<open>i\<close> of the buffer.\<close>

definition memcpy_out :: "nat \<Rightarrow> 'a list \<Rightarrow> nat \<Rightarrow> nat \<Rightarrow> 'a option list \<Rightarrow> 'a list run" where
  "memcpy_out i dst k n st =
     (if i + n \<le> length dst \<and> k + n \<le> length st then
        (if None \<in> set (take n (drop k st)) then abort Lifetime
         else ok (take i dst @ map the (take n (drop k st)) @ drop (i + n) dst))
      else abort Bad_Index)"

text \<open>The element-wise branch: \<open>n\<close> turns from index \<open>i\<close> of the buffer and cursor \<open>pos\<close>.\<close>

fun move_cells ::
  "bool \<Rightarrow> nat \<Rightarrow> nat \<Rightarrow> cursor \<Rightarrow> 'a list \<Rightarrow> 'a option list \<Rightarrow> ('a list \<times> 'a option list) run" where
  "move_cells triv 0 i pos dst st = ok (dst, st)"
| "move_cells triv (Suc n) i pos dst st =
     (let cell = masked (length st) pos in
      chain (read_cell cell st) (\<lambda>x.
      if i < length dst
      then chain (destroy_at triv cell st) (\<lambda>st'. move_cells triv n (Suc i) (pos + 1) (dst[i := x]) st')
      else abort Bad_Index))"

definition try_dequeue_range ::
  "traits \<Rightarrow> 'a list \<Rightarrow> 'a spsc_queue \<Rightarrow> (nat \<times> 'a list \<times> 'a spsc_queue) run" where
  "try_dequeue_range tr out q =
     (let old_read = read_position_local q in
      case readable q of (available, q1) \<Rightarrow>
        if available = 0 then ok (0, out, q1)
        else
          let count = min (unat available) (length out) in
          chain (if copyable tr then
              let read_index = calculate_index q1 old_read;
                  first = min count (slots q1 - read_index) in
              chain (memcpy_out 0 out read_index first (storage q1)) (\<lambda>dst.
              chain (if first \<noteq> count then memcpy_out first dst 0 (count - first) (storage q1)
                     else ok dst) (\<lambda>dst'. ok (dst', storage q1)))
            else move_cells (destructible tr) count 0 old_read out (storage q1)) (\<lambda>(dst, st).
          ok (count, dst, publish_read (old_read + of_nat count) (q1\<lparr>storage := st\<rparr>))))"

definition clear :: "traits \<Rightarrow> 'a spsc_queue \<Rightarrow> 'a spsc_queue run" where
  "clear tr q =
     (let write_end = write_position q in
      chain (destroy_range (destructible tr) (read_position_local q) write_end (storage q)) (\<lambda>st.
      ok (publish_read write_end (q\<lparr>storage := st, write_position_cache := write_end\<rparr>))))"

text \<open>
  The loop \<open>consume_all\<close> and \<open>consume_up_to\<close> share: \<open>n\<close> turns from cursor \<open>pos\<close>. The callback is a
  function on a state of the caller.
\<close>

fun consume_cells ::
  "bool \<Rightarrow> ('a \<Rightarrow> 's \<Rightarrow> 's) \<Rightarrow> nat \<Rightarrow> cursor \<Rightarrow> 's \<Rightarrow> 'a option list \<Rightarrow> (cursor \<times> 's \<times> 'a option list) run"
where
  "consume_cells triv fn 0 pos s st = ok (pos, s, st)"
| "consume_cells triv fn (Suc n) pos s st =
     (let cell = masked (length st) pos in
      chain (read_cell cell st) (\<lambda>x.
      chain (destroy_at triv cell st) (\<lambda>st'. consume_cells triv fn n (pos + 1) (fn x s) st')))"

definition consume_all ::
  "traits \<Rightarrow> ('a \<Rightarrow> 's \<Rightarrow> 's) \<Rightarrow> 's \<Rightarrow> 'a spsc_queue \<Rightarrow> (nat \<times> 's \<times> 'a spsc_queue) run" where
  "consume_all tr fn s q =
     (let old_read = read_position_local q in
      case readable q of (count, q1) \<Rightarrow>
        chain (consume_cells (destructible tr) fn (unat count) old_read s (storage q1)) (\<lambda>(pos, s', st).
        ok (unat count, s', publish_read pos (q1\<lparr>storage := st\<rparr>))))"

definition consume_up_to ::
  "traits \<Rightarrow> nat \<Rightarrow> ('a \<Rightarrow> 's \<Rightarrow> 's) \<Rightarrow> 's \<Rightarrow> 'a spsc_queue \<Rightarrow> (nat \<times> 's \<times> 'a spsc_queue) run" where
  "consume_up_to tr limit fn s q =
     (let old_read = read_position_local q in
      case readable q of (available, q1) \<Rightarrow>
        if available = 0 then ok (0, s, q1)
        else let count = min limit (unat available) in
          chain (consume_cells (destructible tr) fn count old_read s (storage q1)) (\<lambda>(pos, s', st).
          ok (count, s', publish_read pos (q1\<lparr>storage := st\<rparr>))))"

text \<open>The destructor.\<close>

definition spsc_delete :: "traits \<Rightarrow> 'a spsc_queue \<Rightarrow> 'a option list run" where
  "spsc_delete tr q = destroy_range (destructible tr) (read_position q) (write_position q) (storage q)"

end
