(* ===== verification/Spsc_Cells.thy ===== *)
theory Spsc_Cells
  imports Spsc_Queue
begin

text \<open>
  The loops and block copies of \<open>spsc_queue\<close> on a ring whose cells from cursor \<open>r\<close> on hold a list of
  elements: which elements they deliver and what the ring holds afterwards. \<open>tidy\<close> is the lifetime
  invariant: for a type whose destructor matters, every other cell is raw storage.
\<close>

definition tidy :: "bool \<Rightarrow> 'a option list \<Rightarrow> nat \<Rightarrow> 'a list \<Rightarrow> bool" where
  "tidy triv st r xs \<longleftrightarrow> (\<not> triv \<longrightarrow>
     (\<forall>j < length st. st ! j \<noteq> None \<longrightarrow> (\<exists>i < length xs. j = (r + i) mod length st)))"

definition drop_cell :: "bool \<Rightarrow> nat \<Rightarrow> 'a option list \<Rightarrow> 'a option list" where
  "drop_cell triv i st = (if triv then st else st[i := None])"

lemma length_drop_cell [simp]: "length (drop_cell triv i st) = length st"
  by (simp add: drop_cell_def)

section \<open>One cell\<close>

lemma front_cell:
  assumes "held st r (x # xs)" "length st > 0"
  shows "read_cell (r mod length st) st = ok x"
    and "destroy_at triv (r mod length st) st = ok (drop_cell triv (r mod length st) st)"
  using assms by (simp_all add: held_Cons read_cell_def destroy_at_def drop_cell_def)

lemma drop_front:
  assumes "held st r (x # xs)" "length xs < length st"
  shows "held (drop_cell triv (r mod length st) st) (Suc r) xs"
  using assms held_pop [OF assms, of None] by (simp add: drop_cell_def held_Cons)

lemma tidy_drop:
  assumes "tidy triv st r (x # xs)"
  shows "tidy triv (drop_cell triv (r mod length st) st) (Suc r) xs"
proof (cases triv)
  case False
  have "\<exists>i < length xs. j = (Suc r + i) mod length st"
    if j: "j < length st" "st ! j \<noteq> None" "j \<noteq> r mod length st" for j
  proof -
    obtain i where i: "i < Suc (length xs)" "j = (r + i) mod length st"
      using assms False j by (auto simp: tidy_def)
    with j(3) obtain k where "i = Suc k" by (cases i) auto
    with i show ?thesis by auto
  qed
  moreover have "j \<noteq> r mod length st \<and> st ! j \<noteq> None"
    if "j < length st" "st[r mod length st := None] ! j \<noteq> None" for j
    using that by (cases "j = r mod length st") auto
  ultimately show ?thesis using False by (simp add: tidy_def drop_cell_def)
qed (simp add: tidy_def)

lemma tidy_push:
  assumes "tidy triv st r xs"
  shows "tidy triv (st[(r + length xs) mod length st := Some x]) r (xs @ [x])"
proof (cases triv)
  case False
  show ?thesis
    unfolding tidy_def length_list_update
  proof (intro impI allI)
    fix j
    assume j: "j < length st" "st[(r + length xs) mod length st := Some x] ! j \<noteq> None"
    show "\<exists>i < length (xs @ [x]). j = (r + i) mod length st"
    proof (cases "j = (r + length xs) mod length st")
      case False
      with j have "st ! j \<noteq> None" by (simp add: nth_list_update)
      with assms \<open>\<not> triv\<close> j(1) show ?thesis by (auto simp: tidy_def intro: less_SucI)
    qed auto
  qed
qed (simp add: tidy_def)

section \<open>Loops\<close>

lemma consume_cells_spec:
  assumes "power_of_two (length st)" "held st r xs" "length xs \<le> length st" "n \<le> length xs"
    and "tidy triv st r xs"
  shows "\<exists>st'. consume_cells triv fn n (of_nat r) s st = ok (of_nat (r + n), fold fn (take n xs) s, st') \<and>
    length st' = length st \<and> held st' (r + n) (drop n xs) \<and> tidy triv st' (r + n) (drop n xs)"
  using assms
proof (induction n arbitrary: r xs s st)
  case (Suc n)
  then obtain x ys where xs: "xs = x # ys" by (cases xs) auto
  have pos: "0 < length st" using power_of_two_bounds [OF Suc.prems(1)] by simp
  let ?st = "drop_cell triv (r mod length st) st"
  note fc = front_cell [OF Suc.prems(2) [unfolded xs] pos]
  have nx: "of_nat r + 1 = (of_nat (Suc r) :: cursor)" by simp
  obtain st' where "consume_cells triv fn n (of_nat (Suc r)) (fn x s) ?st =
      ok (of_nat (Suc r + n), fold fn (take n ys) (fn x s), st')" "length st' = length ?st"
    "held st' (Suc r + n) (drop n ys)" "tidy triv st' (Suc r + n) (drop n ys)"
    using Suc.IH [of ?st "Suc r" ys "fn x s"] Suc.prems xs drop_front [of st r x ys] tidy_drop [of triv st r x ys]
    by auto
  then show ?case
    using fc xs nx masked_of_nat [OF Suc.prems(1), of r] by (simp add: Let_def ac_simps)
qed simp

lemma move_cells_spec:
  assumes "power_of_two (length st)" "held st r xs" "length xs \<le> length st" "n \<le> length xs"
    and "tidy triv st r xs" "i + n \<le> length dst"
  shows "\<exists>st'. move_cells triv n i (of_nat r) dst st = ok (take i dst @ take n xs @ drop (i + n) dst, st') \<and>
    length st' = length st \<and> held st' (r + n) (drop n xs) \<and> tidy triv st' (r + n) (drop n xs)"
  using assms
proof (induction n arbitrary: r xs i dst st)
  case (Suc n)
  then obtain x ys where xs: "xs = x # ys" by (cases xs) auto
  have pos: "0 < length st" using power_of_two_bounds [OF Suc.prems(1)] by simp
  let ?st = "drop_cell triv (r mod length st) st"
  note fc = front_cell [OF Suc.prems(2) [unfolded xs] pos]
  have nx: "of_nat r + 1 = (of_nat (Suc r) :: cursor)" by simp
  obtain st' where IH: "move_cells triv n (Suc i) (of_nat (Suc r)) (dst[i := x]) ?st =
      ok (take (Suc i) (dst[i := x]) @ take n ys @ drop (Suc i + n) (dst[i := x]), st')"
    "length st' = length ?st" "held st' (Suc r + n) (drop n ys)" "tidy triv st' (Suc r + n) (drop n ys)"
    using Suc.IH [of ?st "Suc r" ys "Suc i" "dst[i := x]"] Suc.prems xs drop_front [of st r x ys]
      tidy_drop [of triv st r x ys] by auto
  have "take (Suc i) (dst[i := x]) = take i dst @ [x]"
    using Suc.prems(6) by (simp add: take_Suc_conv_app_nth take_update_cancel)
  then show ?case
    using IH fc xs nx masked_of_nat [OF Suc.prems(1), of r] Suc.prems(6) by (simp add: Let_def ac_simps)
qed simp

lemma destroy_cells_spec:
  assumes "power_of_two (length st)" "held st r xs" "length xs \<le> length st"
    and "tidy False st r xs"
  shows "destroy_cells (of_nat r) (of_nat (r + length xs)) st = ok (replicate (length st) None)"
  using assms
proof (induction xs arbitrary: r st)
  case Nil
  then have "st = replicate (length st) None"
    by (intro nth_equalityI) (auto simp: tidy_def)
  then show ?case by (simp add: destroy_cells.simps)
next
  case (Cons x xs)
  note b = power_of_two_bounds [OF Cons.prems(1)]
  let ?st = "drop_cell False (r mod length st) st"
  have ne: "(of_nat r :: cursor) \<noteq> of_nat (r + length (x # xs))"
    using cursor_eq_iff [of r "r + length (x # xs)"] Cons.prems(3) b by simp
  have nx: "of_nat r + 1 = (of_nat (Suc r) :: cursor)" by simp
  have "destroy_cells (of_nat (Suc r)) (of_nat (Suc r + length xs)) ?st = ok (replicate (length ?st) None)"
    using Cons.prems drop_front [of st r x xs] tidy_drop [of False st r x xs] by (intro Cons.IH) auto
  then show ?case
    using front_cell(2) [OF Cons.prems(2), of False] b ne nx masked_of_nat [OF Cons.prems(1), of r]
    by (subst destroy_cells.simps) (simp add: ac_simps)
qed

lemma construct_from_spec:
  assumes "power_of_two (length st)" "held st r xs" "length xs + length ys \<le> length st"
    and "tidy triv st r xs"
  shows "\<exists>st'. construct_from (of_nat (r + length xs)) ys st = ok st' \<and> length st' = length st \<and>
    held st' r (xs @ ys) \<and> tidy triv st' r (xs @ ys)"
  using assms
proof (induction ys arbitrary: xs st)
  case (Cons y ys)
  let ?k = "(r + length xs) mod length st"
  have k: "?k < length st" using power_of_two_bounds [OF Cons.prems(1)] by simp
  have nx: "of_nat (r + length xs) + 1 = (of_nat (r + length (xs @ [y])) :: cursor)" by simp
  obtain st' where "construct_from (of_nat (r + length (xs @ [y]))) ys (st[?k := Some y]) = ok st'"
    "length st' = length st" "held st' r ((xs @ [y]) @ ys)" "tidy triv st' r ((xs @ [y]) @ ys)"
    using Cons.IH [of "st[?k := Some y]" "xs @ [y]"] Cons.prems held_push [of st r xs y]
      tidy_push [of triv st r xs y] by auto
  then show ?case
    using k nx masked_of_nat [OF Cons.prems(1), of "r + length xs"] by (auto simp: construct_at_def ac_simps)
qed auto

end
