(* ===== verification/Spsc_Correct.thy ===== *)
theory Spsc_Correct
  imports Spsc_Cells Simulation
begin

text \<open>
  \<open>spsc_queue\<close> is a bounded first-in first-out queue. The abstract state is the capacity, the
  elements in order, and how many of them the consumer's cached cursor already covers: that number
  decides how much a batch operation of the consumer delivers.
\<close>

section \<open>Representation\<close>

text \<open>
  The cursors stand for the numbers \<open>r\<close> of elements ever popped and \<open>w\<close> ever pushed; the cached
  cursors lag behind the real ones, and never so far that they lie.
\<close>

definition spsc_rep :: "'a spsc_queue \<Rightarrow> nat \<Rightarrow> nat \<Rightarrow> nat \<Rightarrow> 'a list \<Rightarrow> bool" where
  "spsc_rep q r rc wc xs \<longleftrightarrow> power_of_two (slots q) \<and> length xs \<le> slots q \<and>
     rc \<le> r \<and> r + length xs \<le> rc + slots q \<and> r \<le> wc \<and> wc \<le> r + length xs \<and>
     read_position q = of_nat r \<and> read_position_local q = of_nat r \<and>
     write_position q = of_nat (r + length xs) \<and> write_position_local q = of_nat (r + length xs) \<and>
     read_position_cache q = of_nat rc \<and> write_position_cache q = of_nat wc \<and>
     held (storage q) r xs"

definition spsc_good :: "traits \<Rightarrow> 'a spsc_queue \<Rightarrow> bool" where
  "spsc_good tr q \<longleftrightarrow> (\<exists>r rc wc xs. spsc_rep q r rc wc xs \<and> tidy (destructible tr) (storage q) r xs)"

definition spsc_items :: "'a spsc_queue \<Rightarrow> 'a list" where
  "spsc_items q = map (\<lambda>i. the (storage q ! calculate_index q (read_position q + of_nat i)))
     [0..<unat (size q)]"

definition spsc_seen :: "'a spsc_queue \<Rightarrow> nat" where
  "spsc_seen q = unat (write_position_cache q - read_position_local q)"

type_synonym 'a fifo_state = "nat \<times> 'a list \<times> nat"

definition spsc_abs :: "'a spsc_queue \<Rightarrow> 'a fifo_state" where
  "spsc_abs q = (slots q, spsc_items q, spsc_seen q)"

lemma slots_bounds: "spsc_rep q r rc wc xs \<Longrightarrow> 0 < slots q \<and> slots q < 2 ^ 64"
  using power_of_two_bounds by (auto simp: spsc_rep_def)

lemma rep_bounds:
  assumes "spsc_rep q r rc wc xs"
  shows "r \<le> wc" "wc \<le> r + length xs" "length xs \<le> slots q" "length xs < 2 ^ 64" "wc - r < 2 ^ 64"
    and "write_position_cache q - read_position_local q = of_nat (wc - r)"
    and "write_position q - read_position_local q = of_nat (length xs)"
    and "write_position q - read_position q = of_nat (length xs)"
proof -
  show l: "r \<le> wc" "wc \<le> r + length xs" "length xs \<le> slots q" using assms by (simp_all add: spsc_rep_def)
  then show "length xs < 2 ^ 64" "wc - r < 2 ^ 64" using slots_bounds [OF assms] by linarith+
  show "write_position_cache q - read_position_local q = of_nat (wc - r)"
    using assms cursor_diff_of_nat [OF l(1)] by (simp add: spsc_rep_def)
  show "write_position q - read_position_local q = of_nat (length xs)"
    "write_position q - read_position q = of_nat (length xs)" using assms by (simp_all add: spsc_rep_def)
qed

lemma rep_size: "spsc_rep q r rc wc xs \<Longrightarrow> unat (size q) = length xs"
  unfolding size_def by (simp only: rep_bounds(8) unat_cursor [OF rep_bounds(4)])

lemma rep_abs:
  assumes rep: "spsc_rep q r rc wc xs"
  shows "spsc_abs q = (slots q, xs, wc - r)"
proof -
  have "the (storage q ! calculate_index q (read_position q + of_nat i)) = xs ! i" if "i < length xs" for i
  proof -
    have "read_position q + of_nat i = of_nat (r + i)" using rep by (simp add: spsc_rep_def)
    then have "calculate_index q (read_position q + of_nat i) = (r + i) mod slots q"
      using masked_of_nat [of "slots q" "r + i"] rep by (simp add: calculate_index_def spsc_rep_def del: of_nat_add)
    with rep that show ?thesis by (simp add: spsc_rep_def held_def)
  qed
  note cell = this
  have "spsc_items q = xs"
  proof (rule nth_equalityI)
    show "length (spsc_items q) = length xs" by (simp add: spsc_items_def rep_size [OF rep])
    fix i
    assume "i < length (spsc_items q)"
    then have i: "i < length xs" by (simp add: spsc_items_def rep_size [OF rep])
    show "spsc_items q ! i = xs ! i"
      unfolding spsc_items_def rep_size [OF rep] using i cell [OF i] by (simp del: of_nat_add)
  qed
  moreover have "spsc_seen q = wc - r"
    unfolding spsc_seen_def rep_bounds(6) [OF rep] by (rule unat_cursor [OF rep_bounds(5) [OF rep]])
  ultimately show ?thesis by (simp add: spsc_abs_def)
qed

lemma rep_index:
  "spsc_rep q r rc wc xs \<Longrightarrow> calculate_index q (of_nat n) = n mod slots q"
  by (simp add: calculate_index_def spsc_rep_def masked_of_nat)

section \<open>Room and visible elements\<close>

lemma free_slots_nat:
  assumes "power_of_two (slots q)" "write_position_local q = of_nat w" "read_position_cache q = of_nat rc"
    and "rc \<le> w" "w \<le> rc + slots q"
  shows "unat (free_slots q) = slots q - (w - rc)"
proof -
  note b = power_of_two_bounds [OF assms(1)]
  have "(of_nat w - of_nat rc :: cursor) = of_nat (w - rc)" using assms(4) by (rule cursor_diff_of_nat)
  then have "free_slots q = of_nat (slots q) - of_nat (w - rc)" using assms(2,3) by (simp add: free_slots_def)
  moreover have "unat (of_nat (slots q) - of_nat (w - rc) :: cursor) = slots q - (w - rc)"
    using assms(5) b by (intro cursor_diff) auto
  ultimately show ?thesis by simp
qed

lemma has_room_spec:
  assumes rep: "spsc_rep q r rc wc xs" and n: "n < 2 ^ 64"
  shows "\<exists>q' rc'. has_room (of_nat n) q = (length xs + n \<le> slots q, q') \<and>
    spsc_rep q' r rc' wc xs \<and> storage q' = storage q"
proof -
  let ?q = "q\<lparr>read_position_cache := read_position q\<rparr>"
  have f: "unat (free_slots q) = slots q - (r + length xs - rc)"
    using rep by (intro free_slots_nat) (auto simp: spsc_rep_def)
  have f': "unat (free_slots ?q) = slots q - length xs"
    using free_slots_nat [of ?q "r + length xs" r] rep by (auto simp: spsc_rep_def)
  have rep': "spsc_rep ?q r r wc xs" using rep by (simp add: spsc_rep_def)
  have n': "unat (of_nat n :: cursor) = n" using n by (rule unat_cursor)
  show ?thesis
  proof (cases "free_slots q < of_nat n")
    case True
    have "of_nat n \<le> free_slots ?q \<longleftrightarrow> length xs + n \<le> slots q"
      using rep unfolding word_le_nat_alt f' n' by (auto simp: spsc_rep_def)
    with True rep' show ?thesis by (auto simp: has_room_def Let_def)
  next
    case False
    then have "n \<le> slots q - (r + length xs - rc)" unfolding word_less_nat_alt f n' by simp
    then have "length xs + n \<le> slots q" using rep by (auto simp: spsc_rep_def)
    with False rep show ?thesis by (auto simp: has_room_def)
  qed
qed

definition visible :: "'a list \<Rightarrow> nat \<Rightarrow> nat" where
  "visible xs seen = (if seen = 0 then length xs else seen)"

lemma readable_spec:
  assumes rep: "spsc_rep q r rc wc xs"
  shows "\<exists>q'. readable q = (of_nat (visible xs (wc - r)), q') \<and>
    spsc_rep q' r rc (r + visible xs (wc - r)) xs \<and> storage q' = storage q \<and>
    visible xs (wc - r) \<le> length xs \<and> unat (of_nat (visible xs (wc - r)) :: cursor) = visible xs (wc - r)"
proof -
  note b = rep_bounds [OF rep]
  have eq: "read_position_local q = write_position_cache q \<longleftrightarrow> wc - r = 0"
    using cursor_eq_iff [OF b(1,5)] b(1) rep by (simp add: spsc_rep_def) linarith
  have le: "visible xs (wc - r) \<le> length xs" using b by (auto simp: visible_def)
  then have u: "unat (of_nat (visible xs (wc - r)) :: cursor) = visible xs (wc - r)"
    using b(4) by (intro unat_cursor) linarith
  show ?thesis
  proof (cases "wc - r = 0")
    case True
    let ?q = "q\<lparr>write_position_cache := write_position q\<rparr>"
    have "readable q = (of_nat (length xs), ?q)" using True eq b(7) by (simp add: readable_def Let_def)
    moreover have "spsc_rep ?q r rc (r + length xs) xs" using rep b by (simp add: spsc_rep_def)
    ultimately show ?thesis using True le u by (simp add: visible_def)
  next
    case False
    then have "readable q = (of_nat (wc - r), q)" using eq b(6) by (simp add: readable_def Let_def)
    moreover have "r + (wc - r) = wc" using b(1) by simp
    ultimately show ?thesis using False rep le u by (simp add: visible_def del: of_nat_diff)
  qed
qed

lemma visible_0: "visible xs k = 0 \<longleftrightarrow> xs = [] \<and> k = 0"
  by (auto simp: visible_def)

text \<open>What a pop of \<open>n\<close> visible elements and a push leave behind.\<close>

lemma rep_after_pop:
  assumes rep: "spsc_rep q r rc wc xs" and "n \<le> wc - r" "length st = slots q"
    and "held st (r + n) (drop n xs)"
  shows "spsc_rep (publish_read (of_nat (r + n)) (q\<lparr>storage := st\<rparr>)) (r + n) rc wc (drop n xs)"
  using assms by (auto simp: spsc_rep_def publish_read_def min_def)

lemma rep_after_push:
  assumes rep: "spsc_rep q r rc wc xs" and "length xs + length ys \<le> slots q"
    and "r + length xs + length ys \<le> rc + slots q" "length st = slots q" "held st r (xs @ ys)"
  shows "spsc_rep (publish_write (of_nat (r + length xs + length ys)) (q\<lparr>storage := st\<rparr>)) r rc wc (xs @ ys)"
  using assms by (auto simp: spsc_rep_def publish_write_def)

lemma spsc_goodI: "spsc_rep q r rc wc xs \<Longrightarrow> tidy (destructible tr) (storage q) r xs \<Longrightarrow> spsc_good tr q"
  by (auto simp: spsc_good_def)

lemma publish_storage [simp]: "storage (publish_read c q) = storage q" "storage (publish_write c q) = storage q"
  by (simp_all add: publish_read_def publish_write_def)

lemma spsc_new_good:
  assumes "power_of_two n"
  shows "spsc_good tr (spsc_new n)" "spsc_abs (spsc_new n) = (n, [], 0)"
proof -
  have rep: "spsc_rep (spsc_new n) 0 0 0 []" using assms by (simp add: spsc_rep_def spsc_new_def)
  then show "spsc_good tr (spsc_new n)" by (rule spsc_goodI) (simp add: tidy_def spsc_new_def)
  show "spsc_abs (spsc_new n) = (n, [], 0)" using rep_abs [OF rep] by (simp add: spsc_new_def)
qed

section \<open>The producer\<close>

lemma rep_write_local: "spsc_rep q r rc wc xs \<Longrightarrow> write_position_local q = of_nat (r + length xs)"
  by (simp add: spsc_rep_def)

lemma rep_read_local: "spsc_rep q r rc wc xs \<Longrightarrow> read_position_local q = of_nat r"
  by (simp add: spsc_rep_def)

text \<open>Room was found, so the cached cursor of the reader is fresh enough.\<close>

lemma has_room_cache:
  assumes rep: "spsc_rep q r rc wc xs" and n: "n < 2 ^ 64" and hr: "has_room (of_nat n) q = (True, q')"
  shows "\<exists>rc'. spsc_rep q' r rc' wc xs \<and> r + length xs + n \<le> rc' + slots q \<and> storage q' = storage q \<and>
    length xs + n \<le> slots q"
proof -
  from has_room_spec [OF rep n] hr have s: "storage q' = storage q" "length xs + n \<le> slots q" by auto
  have n': "unat (of_nat n :: cursor) = n" using n by (rule unat_cursor)
  have f: "unat (free_slots q) = slots q - (r + length xs - rc)"
    using rep by (intro free_slots_nat) (auto simp: spsc_rep_def)
  show ?thesis
  proof (cases "free_slots q < of_nat n")
    case True
    then have "q' = q\<lparr>read_position_cache := read_position q\<rparr>" using hr by (auto simp: has_room_def Let_def)
    then have "spsc_rep q' r r wc xs" using rep by (simp add: spsc_rep_def)
    with s show ?thesis by (intro exI [of _ r]) simp
  next
    case False
    then have "q' = q" using hr by (auto simp: has_room_def)
    moreover have "n \<le> slots q - (r + length xs - rc)" using False unfolding word_less_nat_alt f n' by simp
    ultimately show ?thesis using rep s by (intro exI [of _ rc]) (auto simp: spsc_rep_def)
  qed
qed

lemma try_emplace_spec:
  assumes rep: "spsc_rep q r rc wc xs" and t: "tidy triv (storage q) r xs"
  shows "\<exists>q' rc'. try_emplace x q = ok (length xs < slots q, q') \<and> slots q' = slots q \<and>
    spsc_rep q' r rc' wc (if length xs < slots q then xs @ [x] else xs) \<and>
    tidy triv (storage q') r (if length xs < slots q then xs @ [x] else xs)"
proof -
  obtain q1 rc1 where hr: "has_room (of_nat 1) q = (length xs + 1 \<le> slots q, q1)"
    "spsc_rep q1 r rc1 wc xs" "storage q1 = storage q" using has_room_spec [OF rep, of 1] by auto
  note rep1 = hr(2)
  show ?thesis
  proof (cases "length xs < slots q")
    case False
    with hr t show ?thesis by (auto simp: try_emplace_def)
  next
    case True
    then have "has_room (of_nat 1) q = (True, q1)" using hr(1) by simp
    from has_room_cache [OF rep _ this] obtain rc2 where rep2: "spsc_rep q1 r rc2 wc xs"
      "r + length xs + 1 \<le> rc2 + slots q" by auto
    have nf: "\<not> is_full q1"
    proof
      assume "is_full q1"
      then have "unat (size q1) = slots q1" using slots_bounds [OF rep1]
        by (simp only: is_full_def unat_cursor)
      with rep_size [OF rep1] True hr(3) show False by simp
    qed
    let ?k = "(r + length xs) mod slots q"
    have k: "calculate_index q1 (write_position_local q) = ?k" "?k < slots q"
      using rep_index [OF rep1] rep_write_local [OF rep] hr(3) slots_bounds [OF rep]
      by (simp_all del: of_nat_add)
    let ?st = "(storage q)[?k := Some x]"
    have "held ?st r (xs @ [x])" using rep True by (intro held_push) (auto simp: spsc_rep_def)
    then have "spsc_rep (publish_write (of_nat (r + length xs + length [x])) (q1\<lparr>storage := ?st\<rparr>)) r rc2 wc (xs @ [x])"
      using rep2 True hr(3) by (intro rep_after_push) auto
    moreover have "tidy triv ?st r (xs @ [x])" using t by (rule tidy_push)
    moreover have "(of_nat (r + length xs + length [x]) :: cursor) = write_position_local q + 1"
      using rep_write_local [OF rep] by simp
    moreover have "try_emplace x q = ok (True, publish_write (write_position_local q + 1) (q1\<lparr>storage := ?st\<rparr>))"
      using hr(1,3) True nf k by (simp add: try_emplace_def construct_at_def Let_def)
    ultimately show ?thesis using True by (auto simp: add.commute)
  qed
qed

lemma try_emplace_range_spec:
  assumes rep: "spsc_rep q r rc wc xs" and t: "tidy triv (storage q) r xs"
    and len: "length ys < 2 ^ 64" and nt: "\<not> copyable tr"
  shows "\<exists>q' rc'. try_emplace_range tr ys q = ok (length xs + length ys \<le> slots q, q') \<and> slots q' = slots q \<and>
    spsc_rep q' r rc' wc (if length xs + length ys \<le> slots q then xs @ ys else xs) \<and>
    tidy triv (storage q') r (if length xs + length ys \<le> slots q then xs @ ys else xs)"
proof -
  obtain q1 rc1 where hr: "has_room (of_nat (length ys)) q = (length xs + length ys \<le> slots q, q1)"
    "spsc_rep q1 r rc1 wc xs" "storage q1 = storage q" using has_room_spec [OF rep len] by auto
  show ?thesis
  proof (cases "length xs + length ys \<le> slots q")
    case False
    with hr t show ?thesis by (auto simp: try_emplace_range_def Let_def)
  next
    case True
    then have "has_room (of_nat (length ys)) q = (True, q1)" using hr(1) by simp
    from has_room_cache [OF rep len this] obtain rc2 where rep2: "spsc_rep q1 r rc2 wc xs"
      "r + length xs + length ys \<le> rc2 + slots q" by auto
    have "power_of_two (slots q)" "held (storage q) r xs" using rep by (simp_all add: spsc_rep_def)
    from construct_from_spec [OF this True t] obtain st where
      st: "construct_from (of_nat (r + length xs)) ys (storage q) = ok st" "length st = slots q"
      "held st r (xs @ ys)" "tidy triv st r (xs @ ys)" by blast
    have "spsc_rep (publish_write (of_nat (r + length xs + length ys)) (q1\<lparr>storage := st\<rparr>)) r rc2 wc (xs @ ys)"
      using rep2 True hr(3) st by (intro rep_after_push) auto
    moreover have "try_emplace_range tr ys q =
        ok (True, publish_write (of_nat (r + length xs + length ys)) (q1\<lparr>storage := st\<rparr>))"
      using hr(1,3) True nt st(1) rep_write_local [OF rep] by (simp add: try_emplace_range_def Let_def)
    ultimately show ?thesis using True st by auto
  qed
qed

section \<open>The consumer\<close>

lemma not_empty:
  assumes "spsc_rep q r rc wc xs" "xs \<noteq> []"
  shows "\<not> is_empty q"
proof
  assume "is_empty q"
  with rep_size [OF assms(1)] assms(2) show False by (simp add: is_empty_def)
qed

text \<open>Both single-element overloads take the front element.\<close>

lemma take_front:
  assumes rep: "spsc_rep q r rc wc xs" and t: "tidy triv (storage q) r xs"
  shows "\<exists>n q1. readable q = (n, q1) \<and> storage q1 = storage q \<and> (n = 0 \<longleftrightarrow> xs = []) \<and>
    (case xs of
      [] \<Rightarrow> spsc_rep q1 r rc r []
    | x # ys \<Rightarrow> \<not> is_empty q1 \<and>
        read_cell (calculate_index q1 (read_position_local q)) (storage q1) = ok x \<and>
        (\<exists>st. destroy_at triv (calculate_index q1 (read_position_local q)) (storage q1) = ok st \<and>
          spsc_rep (publish_read (read_position_local q + 1) (q1\<lparr>storage := st\<rparr>)) (Suc r) rc
            (r + visible xs (wc - r)) ys \<and> length st = slots q \<and> tidy triv st (Suc r) ys))"
proof -
  obtain q1 where rd: "readable q = (of_nat (visible xs (wc - r)), q1)"
    "spsc_rep q1 r rc (r + visible xs (wc - r)) xs" "storage q1 = storage q"
    "unat (of_nat (visible xs (wc - r)) :: cursor) = visible xs (wc - r)" using readable_spec [OF rep] by blast
  have z: "(of_nat (visible xs (wc - r)) :: cursor) = 0 \<longleftrightarrow> xs = []"
  proof -
    have "wc - r = 0" if "xs = []" using rep_bounds [OF rep] that by simp
    moreover have "(of_nat (visible xs (wc - r)) :: cursor) = 0 \<longleftrightarrow> visible xs (wc - r) = 0"
      using unat_0_iff [of "of_nat (visible xs (wc - r)) :: cursor"] unfolding rd(4) by blast
    ultimately show ?thesis using visible_0 [of xs "wc - r"] by auto
  qed
  show ?thesis
  proof (cases xs)
    case Nil
    with rd z rep_bounds [OF rep] show ?thesis by (simp add: visible_def)
  next
    case (Cons x ys)
    have pos: "0 < slots q" and le: "length ys < slots q"
      using slots_bounds [OF rep] rep_bounds(3) [OF rep] Cons by auto
    have h: "held (storage q) r (x # ys)" using rep Cons by (simp add: spsc_rep_def)
    have i: "calculate_index q1 (read_position_local q) = r mod slots q"
      using rep_index [OF rd(2)] rep_read_local [OF rep] rd(3) by simp
    let ?st = "drop_cell triv (r mod slots q) (storage q)"
    note fc = front_cell [OF h pos]
    have hd: "held ?st (Suc r) ys" by (rule drop_front [OF h le])
    have td: "tidy triv ?st (Suc r) ys" using t Cons by (intro tidy_drop) simp
    have v: "1 \<le> r + visible xs (wc - r) - r" using visible_0 [of xs "wc - r"] Cons by simp
    have "spsc_rep (publish_read (of_nat (r + 1)) (q1\<lparr>storage := ?st\<rparr>)) (r + 1) rc
        (r + visible xs (wc - r)) (drop 1 xs)"
      using rd(2,3) v hd Cons by (intro rep_after_pop) auto
    then have "spsc_rep (publish_read (read_position_local q + 1) (q1\<lparr>storage := ?st\<rparr>)) (Suc r) rc
        (r + visible xs (wc - r)) ys"
      using Cons rep_read_local [OF rep] by (simp add: add.commute)
    with rd z Cons i fc td not_empty [OF rd(2)] show ?thesis by auto
  qed
qed

lemma try_dequeue_spec:
  assumes rep: "spsc_rep q r rc wc xs" and t: "tidy (destructible tr) (storage q) r xs"
  shows "\<exists>q'. try_dequeue tr q = ok (case xs of [] \<Rightarrow> None | x # _ \<Rightarrow> Some x, q') \<and> slots q' = slots q \<and>
    spsc_rep q' (r + length xs - length (tl xs)) rc (r + visible xs (wc - r)) (tl xs) \<and>
    tidy (destructible tr) (storage q') (r + length xs - length (tl xs)) (tl xs)"
proof (cases xs)
  case Nil
  with take_front [OF rep t] t rep_bounds(2) [OF rep] show ?thesis by (auto simp: try_dequeue_def visible_def)
next
  case (Cons x ys)
  with take_front [OF rep t] show ?thesis by (auto simp: try_dequeue_def Let_def)
qed

lemma try_dequeue_into_spec:
  assumes rep: "spsc_rep q r rc wc xs" and t: "tidy (destructible tr) (storage q) r xs"
  shows "\<exists>q'. try_dequeue_into tr out q = ok (xs \<noteq> [], case xs of [] \<Rightarrow> out | x # _ \<Rightarrow> x, q') \<and>
    slots q' = slots q \<and>
    spsc_rep q' (r + length xs - length (tl xs)) rc (r + visible xs (wc - r)) (tl xs) \<and>
    tidy (destructible tr) (storage q') (r + length xs - length (tl xs)) (tl xs)"
proof (cases xs)
  case Nil
  with take_front [OF rep t] t rep_bounds(2) [OF rep] show ?thesis
    by (auto simp: try_dequeue_into_def visible_def)
next
  case (Cons x ys)
  with take_front [OF rep t] show ?thesis by (auto simp: try_dequeue_into_def Let_def)
qed

text \<open>The shape the batch operations share: \<open>n\<close> visible elements go.\<close>

lemma visible_front:
  assumes rep: "spsc_rep q r rc wc xs"
  obtains q1 where "readable q = (of_nat (visible xs (wc - r)), q1)" "storage q1 = storage q"
    "unat (of_nat (visible xs (wc - r)) :: cursor) = visible xs (wc - r)"
    "visible xs (wc - r) \<le> length xs" "(of_nat (visible xs (wc - r)) :: cursor) = 0 \<longleftrightarrow> visible xs (wc - r) = 0"
    "spsc_rep q1 r rc (r + visible xs (wc - r)) xs"
    "\<And>n st. n \<le> visible xs (wc - r) \<Longrightarrow> length st = slots q \<Longrightarrow> held st (r + n) (drop n xs) \<Longrightarrow>
      spsc_rep (publish_read (of_nat (r + n)) (q1\<lparr>storage := st\<rparr>)) (r + n) rc (r + visible xs (wc - r)) (drop n xs)"
proof -
  obtain q1 where rd: "readable q = (of_nat (visible xs (wc - r)), q1)" "storage q1 = storage q"
    "unat (of_nat (visible xs (wc - r)) :: cursor) = visible xs (wc - r)" "visible xs (wc - r) \<le> length xs"
    "spsc_rep q1 r rc (r + visible xs (wc - r)) xs" using readable_spec [OF rep] by blast
  have z: "(of_nat (visible xs (wc - r)) :: cursor) = 0 \<longleftrightarrow> visible xs (wc - r) = 0"
    using unat_0_iff [of "of_nat (visible xs (wc - r)) :: cursor"] unfolding rd(3) by blast
  show thesis
    by (rule that [OF rd(1-4) z rd(5)], rule rep_after_pop [OF rd(5)]) (simp_all add: rd(2))
qed

lemma consume_cells_rep:
  assumes rep: "spsc_rep q r rc wc xs" and t: "tidy triv (storage q) r xs" and n: "n \<le> length xs"
  shows "\<exists>st. consume_cells triv fn n (read_position_local q) s (storage q) =
      ok (of_nat (r + n), fold fn (take n xs) s, st) \<and> length st = slots q \<and>
    held st (r + n) (drop n xs) \<and> tidy triv st (r + n) (drop n xs)"
  using consume_cells_spec [of "storage q" r xs n triv fn s] rep t n by (simp add: spsc_rep_def)

lemma consume_all_spec:
  assumes rep: "spsc_rep q r rc wc xs" and t: "tidy (destructible tr) (storage q) r xs"
  defines "n \<equiv> visible xs (wc - r)"
  shows "\<exists>q'. consume_all tr fn s q = ok (n, fold fn (take n xs) s, q') \<and> slots q' = slots q \<and>
    spsc_rep q' (r + n) rc (r + n) (drop n xs) \<and> tidy (destructible tr) (storage q') (r + n) (drop n xs)"
proof -
  obtain q1 where rd: "readable q = (of_nat n, q1)" "storage q1 = storage q" "unat (of_nat n :: cursor) = n"
    "n \<le> length xs"
    and go: "\<And>st. length st = slots q \<Longrightarrow> held st (r + n) (drop n xs) \<Longrightarrow>
      spsc_rep (publish_read (of_nat (r + n)) (q1\<lparr>storage := st\<rparr>)) (r + n) rc (r + n) (drop n xs)"
    using visible_front [OF rep] unfolding n_def by (metis order_refl)
  from consume_cells_rep [OF rep t rd(4), of fn s] go rd show ?thesis
    by (auto simp: consume_all_def Let_def simp del: of_nat_add)
qed

lemma consume_up_to_spec:
  assumes rep: "spsc_rep q r rc wc xs" and t: "tidy (destructible tr) (storage q) r xs"
  defines "v \<equiv> visible xs (wc - r)"
  shows "\<exists>q'. consume_up_to tr limit fn s q = ok (min limit v, fold fn (take (min limit v) xs) s, q') \<and>
    slots q' = slots q \<and> spsc_rep q' (r + min limit v) rc (r + v) (drop (min limit v) xs) \<and>
    tidy (destructible tr) (storage q') (r + min limit v) (drop (min limit v) xs)"
proof -
  let ?n = "min limit v"
  obtain q1 where rd: "readable q = (of_nat v, q1)" "storage q1 = storage q" "unat (of_nat v :: cursor) = v"
    "v \<le> length xs" and z: "(of_nat v :: cursor) = 0 \<longleftrightarrow> v = 0" and rep1: "spsc_rep q1 r rc (r + v) xs"
    and go: "\<And>st. length st = slots q \<Longrightarrow> held st (r + ?n) (drop ?n xs) \<Longrightarrow>
      spsc_rep (publish_read (of_nat (r + ?n)) (q1\<lparr>storage := st\<rparr>)) (r + ?n) rc (r + v) (drop ?n xs)"
    using visible_front [OF rep] unfolding v_def by (metis min.cobounded2)
  show ?thesis
  proof (cases "v = 0")
    case True
    with rd z rep1 t show ?thesis by (auto simp: consume_up_to_def)
  next
    case False
    have "?n \<le> length xs" using rd(4) by simp
    from consume_cells_rep [OF rep t this, of fn s] go rd z False show ?thesis
      by (auto simp: consume_up_to_def Let_def simp del: of_nat_add)
  qed
qed

lemma memcpy_out_block:
  assumes "take n (drop k st) = map Some ys" "i + n \<le> length dst" "k + n \<le> length st"
  shows "memcpy_out i dst k n st = ok (take i dst @ ys @ drop (i + n) dst)"
proof -
  have "None \<notin> set (take n (drop k st))" unfolding assms(1) by auto
  moreover have "map the (take n (drop k st)) = ys" unfolding assms(1) by (simp add: comp_def)
  ultimately show ?thesis using assms(2,3) by (simp add: memcpy_out_def del: take_drop drop_take)
qed

text \<open>The two \<open>memcpy\<close> of the trivially copyable branch deliver the first \<open>n\<close> elements in order.\<close>

lemma block_copy_out:
  assumes h: "held st r xs" and len: "length xs \<le> length st" "n \<le> length xs" "n \<le> length out"
    and pos: "0 < length st"
  defines "first \<equiv> min n (length st - r mod length st)"
  shows "chain (memcpy_out 0 out (r mod length st) first st) (\<lambda>dst.
      chain (if first \<noteq> n then memcpy_out first dst 0 (n - first) st else ok dst) (\<lambda>dst'. ok (dst', st))) =
    ok (take n xs @ drop n out, st)"
proof -
  note b = held_blocks [OF h len(1,2) pos, folded first_def]
  have fn: "first \<le> n" by (simp add: first_def)
  let ?dst = "take first xs @ drop first out"
  have c1: "memcpy_out 0 out (r mod length st) first st = ok ?dst"
    using memcpy_out_block [OF b(1) _ b(3), of 0 out] fn len(3) by simp
  show ?thesis
  proof (cases "first = n")
    case True
    with c1 show ?thesis by simp
  next
    case False
    have l: "first + (n - first) = n" "length (take first xs) = first" "length ?dst = length out"
      using fn len by auto
    have "memcpy_out first ?dst 0 (n - first) st =
        ok (take first ?dst @ drop first (take n xs) @ drop (first + (n - first)) ?dst)"
      using b(2) l len by (intro memcpy_out_block) simp_all
    moreover have "take first ?dst @ drop first (take n xs) @ drop (first + (n - first)) ?dst = take n xs @ drop n out"
    proof -
      have "take first xs @ drop first (take n xs) = take n xs"
        using fn by (metis append_take_drop_id min.absorb1 take_take)
      moreover have "take first ?dst = take first xs" "drop n ?dst = drop n out" using l(2) fn by auto
      ultimately show ?thesis using l(1) by (metis append.assoc)
    qed
    ultimately show ?thesis using c1 False by simp
  qed
qed

lemma try_dequeue_range_spec:
  fixes out :: "'a list"
  assumes rep: "spsc_rep q r rc wc xs" and t: "tidy (destructible tr) (storage q) r xs"
    and tr: "copyable tr \<longrightarrow> destructible tr"
  defines "n \<equiv> min (visible xs (wc - r)) (length out)"
  shows "\<exists>q'. try_dequeue_range tr out q = ok (n, take n xs @ drop n out, q') \<and> slots q' = slots q \<and>
    spsc_rep q' (r + n) rc (r + visible xs (wc - r)) (drop n xs) \<and>
    tidy (destructible tr) (storage q') (r + n) (drop n xs)"
proof -
  let ?v = "visible xs (wc - r)"
  obtain q1 where rd: "readable q = (of_nat ?v, q1)" "storage q1 = storage q" "unat (of_nat ?v :: cursor) = ?v"
    "?v \<le> length xs" and z: "(of_nat ?v :: cursor) = 0 \<longleftrightarrow> ?v = 0" and rep1: "spsc_rep q1 r rc (r + ?v) xs"
    and go: "\<And>st. length st = slots q \<Longrightarrow> held st (r + n) (drop n xs) \<Longrightarrow>
      spsc_rep (publish_read (of_nat (r + n)) (q1\<lparr>storage := st\<rparr>)) (r + n) rc (r + ?v) (drop n xs)"
    using visible_front [OF rep] unfolding n_def by (metis min.cobounded1)
  have n: "n \<le> length xs" "n \<le> length out" using rd(4) by (simp_all add: n_def)
  have h: "held (storage q) r xs" "length xs \<le> slots q" "power_of_two (slots q)" and pos: "0 < slots q"
    using rep slots_bounds [OF rep] by (simp_all add: spsc_rep_def)
  have rl: "read_position_local q + of_nat n = of_nat (r + n)" using rep_read_local [OF rep] by simp
  show ?thesis
  proof (cases "?v = 0")
    case True
    with rd(1,2) z rep1 t show ?thesis by (auto simp: try_dequeue_range_def n_def)
  next
    case False
    obtain st where st: "(if copyable tr then
        let read_index = calculate_index q1 (read_position_local q); first = min n (slots q1 - read_index) in
        chain (memcpy_out 0 out read_index first (storage q1)) (\<lambda>dst.
        chain (if first \<noteq> n then memcpy_out first dst 0 (n - first) (storage q1) else ok dst) (\<lambda>dst'. ok (dst', storage q1)))
      else move_cells (destructible tr) n 0 (read_position_local q) out (storage q1)) =
        ok (take n xs @ drop n out, st)" "length st = slots q" "held st (r + n) (drop n xs)"
      "tidy (destructible tr) st (r + n) (drop n xs)"
    proof (cases "copyable tr")
      case True
      have "calculate_index q1 (read_position_local q) = r mod slots q"
        using rep_index [OF rep1] rep_read_local [OF rep] rd(2) by simp
      moreover have "held (storage q) (r + n) (drop n xs)"
        using h(1) n(1) held_append [of "storage q" r "take n xs" "drop n xs"] by simp
      moreover have "tidy (destructible tr) (storage q) (r + n) (drop n xs)" using True tr by (simp add: tidy_def)
      ultimately show thesis
        using that [of "storage q"] block_copy_out [OF h(1,2) n pos] True rd(2) by (simp add: Let_def cong: if_cong)
    next
      case False
      obtain st where "move_cells (destructible tr) n 0 (of_nat r) out (storage q) =
          ok (take 0 out @ take n xs @ drop (0 + n) out, st)" "length st = slots q"
        "held st (r + n) (drop n xs)" "tidy (destructible tr) st (r + n) (drop n xs)"
        using move_cells_spec [OF h(3,1,2) n(1) t, of 0 out] n(2) by auto
      with False rd(2) rep_read_local [OF rep] that show thesis by simp
    qed
    from go [OF st(2,3)] st rd(1,3) z False rl show ?thesis
      by (auto simp: try_dequeue_range_def Let_def n_def [symmetric] simp del: of_nat_add)
  qed
qed

lemma destroy_range_spec:
  assumes rep: "spsc_rep q r rc wc xs" and t: "tidy triv (storage q) r xs"
  shows "\<exists>st. destroy_range triv (of_nat r) (of_nat (r + length xs)) (storage q) = ok st \<and>
    length st = slots q \<and> (\<not> triv \<longrightarrow> st = replicate (slots q) None)"
  using destroy_cells_spec [of "storage q" r xs] rep t
  by (cases triv) (auto simp: destroy_range_def spsc_rep_def simp del: of_nat_add)

lemma clear_spec:
  assumes rep: "spsc_rep q r rc wc xs" and t: "tidy (destructible tr) (storage q) r xs"
  shows "\<exists>q'. clear tr q = ok q' \<and> slots q' = slots q \<and>
    spsc_rep q' (r + length xs) rc (r + length xs) [] \<and> tidy (destructible tr) (storage q') (r + length xs) []"
proof -
  have e: "read_position_local q = of_nat r" "write_position q = of_nat (r + length xs)"
    using rep unfolding spsc_rep_def by blast+
  obtain st where st: "destroy_range (destructible tr) (of_nat r) (of_nat (r + length xs)) (storage q) = ok st"
    "length st = slots q" "\<not> destructible tr \<longrightarrow> st = replicate (slots q) None"
    using destroy_range_spec [OF rep t] by blast
  let ?q = "publish_read (of_nat (r + length xs)) (q\<lparr>storage := st, write_position_cache := of_nat (r + length xs)\<rparr>)"
  have "clear tr q = ok ?q" using st(1) by (simp add: clear_def Let_def e del: of_nat_add)
  moreover have "spsc_rep ?q (r + length xs) rc (r + length xs) []"
    using rep st(2) by (auto simp: spsc_rep_def publish_read_def)
  ultimately show ?thesis using st by (auto simp: tidy_def)
qed

section \<open>Starting anywhere\<close>

text \<open>
  An empty queue that has already passed \<open>n\<close> elements (modulo \<open>2 ^ 64\<close>): every cursor stands at \<open>c\<close>.
\<close>

definition spsc_after :: "cursor \<Rightarrow> nat \<Rightarrow> 'a spsc_queue" where
  "spsc_after c N = \<lparr>storage = replicate N None, read_position = c, read_position_local = c,
     write_position_cache = c, write_position = c, write_position_local = c, read_position_cache = c\<rparr>"

lemma spsc_after_good:
  assumes "power_of_two N"
  shows "spsc_good tr (spsc_after c N)" "spsc_abs (spsc_after c N) = (N, [], 0)"
proof -
  have "of_nat (unat c) = c" by simp
  then have rep: "spsc_rep (spsc_after c N) (unat c) (unat c) (unat c) []"
    using assms by (simp add: spsc_rep_def spsc_after_def)
  then show "spsc_good tr (spsc_after c N)" by (rule spsc_goodI) (simp add: tidy_def spsc_after_def)
  show "spsc_abs (spsc_after c N) = (N, [], 0)" using rep_abs [OF rep] by (simp add: spsc_after_def)
qed

lemma spsc_new_after: "spsc_new N = spsc_after 0 N"
  by (simp add: spsc_new_def spsc_after_def)

end
