(* ===== verification/Fifo.thy ===== *)
theory Fifo
  imports Prelude
begin

text \<open>
  The contract of a lossless first-in first-out queue with back-pressure, as a producer and a
  consumer use it one element at a time: a push is accepted and goes to the back or is refused
  without effect, a pop takes the front. Both queues of the program provide it.
\<close>

text \<open>A use of the queue: push an element, or pop.\<close>

datatype 'a use = Push 'a | Pop

text \<open>The elements a run of uses got accepted and the elements it got out, in order.\<close>

fun drive ::
  "('a \<Rightarrow> 's \<Rightarrow> (bool \<times> 's) run) \<Rightarrow> ('s \<Rightarrow> ('a option \<times> 's) run) \<Rightarrow> 'a use list \<Rightarrow> 's \<Rightarrow>
     ('a list \<times> 'a list \<times> 's) run"
where
  "drive push pop [] s = ok ([], [], s)"
| "drive push pop (Push x # us) s =
     chain (push x s) (\<lambda>(b, s1). chain (drive push pop us s1) (\<lambda>(ins, outs, s2).
       ok (if b then x # ins else ins, outs, s2)))"
| "drive push pop (Pop # us) s =
     chain (pop s) (\<lambda>(r, s1). chain (drive push pop us s1) (\<lambda>(ins, outs, s2).
       ok (ins, (case r of None \<Rightarrow> outs | Some x \<Rightarrow> x # outs), s2)))"

definition first_of :: "'a list \<Rightarrow> 'a option" where
  "first_of xs = (case xs of [] \<Rightarrow> None | x # _ \<Rightarrow> Some x)"

lemma first_of_simps [simp]: "first_of [] = None" "first_of (x # xs) = Some x"
  by (simp_all add: first_of_def)

locale fifo =
  fixes push :: "'a \<Rightarrow> 's \<Rightarrow> (bool \<times> 's) run"
    and pop :: "'s \<Rightarrow> ('a option \<times> 's) run"
    and inv :: "'s \<Rightarrow> bool"
    and items :: "'s \<Rightarrow> 'a list"
    and fits :: "'a \<Rightarrow> 's \<Rightarrow> bool"
    and valid :: "'a \<Rightarrow> bool"
  assumes push_law: "inv s \<Longrightarrow> valid x \<Longrightarrow> \<exists>s'. push x s = ok (fits x s, s') \<and> inv s' \<and>
      items s' = (if fits x s then items s @ [x] else items s)"
    and pop_law: "inv s \<Longrightarrow> \<exists>s'. pop s = ok (first_of (items s), s') \<and> inv s' \<and> items s' = tl (items s)"
begin

definition valid_use :: "'a use \<Rightarrow> bool" where
  "valid_use u = (case u of Push x \<Rightarrow> valid x | Pop \<Rightarrow> True)"

text \<open>
  Nothing is lost, duplicated or reordered: what came out, followed by what is still in the
  queue, is what was in the queue followed by what was accepted.
\<close>

lemma drive_fifo:
  assumes "inv s" "\<forall>u \<in> set us. valid_use u"
  shows "\<exists>ins outs s'. drive push pop us s = ok (ins, outs, s') \<and> inv s' \<and>
    outs @ items s' = items s @ ins"
  using assms
proof (induction us arbitrary: s)
  case (Cons u us)
  show ?case
  proof (cases u)
    case (Push x)
    with Cons.prems have "valid x" by (simp add: valid_use_def)
    from push_law [OF Cons.prems(1) this] obtain s1 where s1: "push x s = ok (fits x s, s1)" "inv s1"
      "items s1 = (if fits x s then items s @ [x] else items s)" by blast
    from Cons.IH [OF s1(2)] Cons.prems(2) obtain ins outs s' where
      "drive push pop us s1 = ok (ins, outs, s')" "inv s'" "outs @ items s' = items s1 @ ins" by auto
    with s1 Push show ?thesis by auto
  next
    case Pop
    from pop_law [OF Cons.prems(1)] obtain s1 where s1: "pop s = ok (first_of (items s), s1)" "inv s1"
      "items s1 = tl (items s)" by blast
    from Cons.IH [OF s1(2)] Cons.prems(2) obtain ins outs s' where
      "drive push pop us s1 = ok (ins, outs, s')" "inv s'" "outs @ items s' = items s1 @ ins" by auto
    with s1 Pop show ?thesis by (cases "items s") auto
  qed
qed simp

end

end
