(* ===== verification/Spsc_Properties.thy ===== *)
theory Spsc_Properties
  imports Spsc_Correct Fifo
begin

text \<open>
  The properties of \<open>spsc_queue\<close> as one thread drives it: it implements the bounded queue whatever
  the absolute cursors are, including across their wrap at \<open>2 ^ 64\<close>; it keeps the lifetimes of its
  cells; and where its batch insertion does not do what its documentation says.
\<close>

section \<open>Calls\<close>

datatype 'a queue_call =
    Emplace 'a
  | Emplace_Range "'a list"
  | Dequeue
  | Dequeue_Into 'a
  | Dequeue_Range "'a list"
  | Consume_Up_To nat
  | Consume_All
  | Clear
  | Size

datatype 'a answer =
    Accepted bool
  | Front "'a option"
  | Stored bool 'a
  | Batch nat "'a list"
  | Visited nat "'a list"
  | Done
  | Count nat

text \<open>The callback of the consuming calls records the elements it is given.\<close>

definition record_all :: "'a \<Rightarrow> 'a list \<Rightarrow> 'a list" where
  "record_all x seen = seen @ [x]"

fun spsc_exec :: "traits \<Rightarrow> 'a queue_call \<Rightarrow> 'a spsc_queue \<Rightarrow> ('a answer \<times> 'a spsc_queue) run" where
  "spsc_exec tr (Emplace x) q = chain (try_emplace x q) (\<lambda>(b, q'). ok (Accepted b, q'))"
| "spsc_exec tr (Emplace_Range ys) q = chain (try_emplace_range tr ys q) (\<lambda>(b, q'). ok (Accepted b, q'))"
| "spsc_exec tr Dequeue q = chain (try_dequeue tr q) (\<lambda>(r, q'). ok (Front r, q'))"
| "spsc_exec tr (Dequeue_Into out) q = chain (try_dequeue_into tr out q) (\<lambda>(b, x, q'). ok (Stored b x, q'))"
| "spsc_exec tr (Dequeue_Range out) q = chain (try_dequeue_range tr out q) (\<lambda>(n, dst, q'). ok (Batch n dst, q'))"
| "spsc_exec tr (Consume_Up_To l) q =
     chain (consume_up_to tr l record_all [] q) (\<lambda>(n, seen, q'). ok (Visited n seen, q'))"
| "spsc_exec tr Consume_All q = chain (consume_all tr record_all [] q) (\<lambda>(n, seen, q'). ok (Visited n seen, q'))"
| "spsc_exec tr Clear q = chain (clear tr q) (\<lambda>q'. ok (Done, q'))"
| "spsc_exec tr Size q = ok (Count (unat (size q)), q)"

text \<open>The bounded queue: capacity, elements, and how many of them the consumer has noticed.\<close>

fun fifo_spec :: "'a queue_call \<Rightarrow> 'a fifo_state \<Rightarrow> 'a answer \<times> 'a fifo_state" where
  "fifo_spec (Emplace x) (N, xs, k) =
     (Accepted (length xs < N), (N, if length xs < N then xs @ [x] else xs, k))"
| "fifo_spec (Emplace_Range ys) (N, xs, k) =
     (Accepted (length xs + length ys \<le> N), (N, if length xs + length ys \<le> N then xs @ ys else xs, k))"
| "fifo_spec Dequeue (N, xs, k) = (Front (first_of xs), (N, tl xs, visible xs k - 1))"
| "fifo_spec (Dequeue_Into out) (N, xs, k) =
     (Stored (xs \<noteq> []) (case xs of [] \<Rightarrow> out | x # _ \<Rightarrow> x), (N, tl xs, visible xs k - 1))"
| "fifo_spec (Dequeue_Range out) (N, xs, k) =
     (let n = min (visible xs k) (length out) in
      (Batch n (take n xs @ drop n out), (N, drop n xs, visible xs k - n)))"
| "fifo_spec (Consume_Up_To l) (N, xs, k) =
     (let n = min l (visible xs k) in (Visited n (take n xs), (N, drop n xs, visible xs k - n)))"
| "fifo_spec Consume_All (N, xs, k) =
     (let n = visible xs k in (Visited n (take n xs), (N, drop n xs, 0)))"
| "fifo_spec Clear (N, xs, k) = (Done, (N, [], 0))"
| "fifo_spec Size (N, xs, k) = (Count (length xs), (N, xs, k))"

text \<open>
  The batch insertion is only in the contract for element types that are not trivially copyable;
  for the others see \<open>batch_insert_reads_past_end\<close> below.
\<close>

fun spsc_allowed :: "traits \<Rightarrow> 'a queue_call \<Rightarrow> 'a fifo_state \<Rightarrow> bool" where
  "spsc_allowed tr (Emplace_Range ys) a \<longleftrightarrow> \<not> copyable tr \<and> length ys < 2 ^ 64"
| "spsc_allowed tr c a \<longleftrightarrow> True"

text \<open>Trivially copyable types are trivially destructible.\<close>

definition lawful :: "traits \<Rightarrow> bool" where
  "lawful tr \<longleftrightarrow> (copyable tr \<longrightarrow> destructible tr)"

lemma fold_record: "fold record_all xs seen = seen @ xs"
  by (induction xs arbitrary: seen) (simp_all add: record_all_def)

lemma rep_abs_popped:
  "spsc_rep q r' rc wc xs \<Longrightarrow> r' = r + n \<Longrightarrow> wc = r + v \<Longrightarrow> slots q = N \<Longrightarrow> (N, xs, v - n) = spsc_abs q"
  by (drule rep_abs) simp

lemma visible_tail:
  assumes "spsc_rep q r rc wc xs"
  shows "r + visible xs (wc - r) - (r + length xs - length (tl xs)) = visible xs (wc - r) - 1"
  using rep_bounds [OF assms] by (cases xs) (auto simp: visible_def)

text \<open>What a call does to a good queue, and one lemma per call that the code does it.\<close>

definition performs :: "traits \<Rightarrow> 'a queue_call \<Rightarrow> 'a spsc_queue \<Rightarrow> bool" where
  "performs tr c q \<longleftrightarrow>
     (\<exists>a q'. spsc_exec tr c q = ok (a, q') \<and> spsc_good tr q' \<and> fifo_spec c (spsc_abs q) = (a, spsc_abs q'))"

lemma performs_emplace:
  assumes rep: "spsc_rep q r rc wc xs" and t: "tidy (destructible tr) (storage q) r xs"
  shows "performs tr (Emplace x) q"
proof -
  note ab = rep_abs [OF rep] and good = spsc_goodI
  obtain q' rc' where e: "try_emplace x q = ok (length xs < slots q, q')" "slots q' = slots q"
    "spsc_rep q' r rc' wc (if length xs < slots q then xs @ [x] else xs)"
    "tidy (destructible tr) (storage q') r (if length xs < slots q then xs @ [x] else xs)"
    using try_emplace_spec [OF rep t] by blast
  with ab rep_abs [OF e(3)] good [OF e(3,4)] show ?thesis by (simp add: performs_def)
qed

lemma performs_emplace_range:
  assumes rep: "spsc_rep q r rc wc xs" and t: "tidy (destructible tr) (storage q) r xs" and len: "length ys < 2 ^ 64" "\<not> copyable tr"
  shows "performs tr (Emplace_Range ys) q"
proof -
  note ab = rep_abs [OF rep] and good = spsc_goodI
  obtain q' rc' where e: "try_emplace_range tr ys q = ok (length xs + length ys \<le> slots q, q')"
    "slots q' = slots q"
    "spsc_rep q' r rc' wc (if length xs + length ys \<le> slots q then xs @ ys else xs)"
    "tidy (destructible tr) (storage q') r (if length xs + length ys \<le> slots q then xs @ ys else xs)"
    using try_emplace_range_spec [OF rep t len] by blast
  with ab rep_abs [OF e(3)] good [OF e(3,4)] show ?thesis by (simp add: performs_def)
qed

lemma performs_dequeue:
  assumes rep: "spsc_rep q r rc wc xs" and t: "tidy (destructible tr) (storage q) r xs"
  shows "performs tr Dequeue q"
proof -
  note ab = rep_abs [OF rep] and good = spsc_goodI
  obtain q' where d: "try_dequeue tr q = ok (case xs of [] \<Rightarrow> None | x # _ \<Rightarrow> Some x, q')"
    "slots q' = slots q"
    "spsc_rep q' (r + length xs - length (tl xs)) rc (r + visible xs (wc - r)) (tl xs)"
    "tidy (destructible tr) (storage q') (r + length xs - length (tl xs)) (tl xs)"
    using try_dequeue_spec [OF rep t] by blast
  with ab rep_abs [OF d(3)] good [OF d(3,4)] visible_tail [OF rep] show ?thesis by (simp add: performs_def first_of_def)
qed

lemma performs_dequeue_into:
  assumes rep: "spsc_rep q r rc wc xs" and t: "tidy (destructible tr) (storage q) r xs"
  shows "performs tr (Dequeue_Into out) q"
proof -
  note ab = rep_abs [OF rep] and good = spsc_goodI
  obtain q' where d: "try_dequeue_into tr out q = ok (xs \<noteq> [], case xs of [] \<Rightarrow> out | x # _ \<Rightarrow> x, q')"
    "slots q' = slots q"
    "spsc_rep q' (r + length xs - length (tl xs)) rc (r + visible xs (wc - r)) (tl xs)"
    "tidy (destructible tr) (storage q') (r + length xs - length (tl xs)) (tl xs)"
    using try_dequeue_into_spec [OF rep t] by blast
  with ab rep_abs [OF d(3)] good [OF d(3,4)] visible_tail [OF rep] show ?thesis by (simp add: performs_def)
qed

lemma performs_dequeue_range:
  assumes rep: "spsc_rep q r rc wc xs" and t: "tidy (destructible tr) (storage q) r xs" and law: "copyable tr \<longrightarrow> destructible tr"
  shows "performs tr (Dequeue_Range out) q"
proof -
  note ab = rep_abs [OF rep] and good = spsc_goodI
  let ?n = "min (visible xs (wc - r)) (length out)"
  obtain q' where d: "try_dequeue_range tr out q = ok (?n, take ?n xs @ drop ?n out, q')" "slots q' = slots q"
    "spsc_rep q' (r + ?n) rc (r + visible xs (wc - r)) (drop ?n xs)"
    "tidy (destructible tr) (storage q') (r + ?n) (drop ?n xs)"
    using try_dequeue_range_spec [OF rep t law] by blast
  show ?thesis
    unfolding performs_def spsc_exec.simps ab fifo_spec.simps Let_def d(1) chain.simps prod.case
    by (intro exI [of _ "Batch ?n (take ?n xs @ drop ?n out)"] exI [of _ q'] conjI refl good [OF d(3,4)])
      (simp only: rep_abs_popped [OF d(3) refl refl d(2)])
qed

lemma performs_consume_up_to:
  assumes rep: "spsc_rep q r rc wc xs" and t: "tidy (destructible tr) (storage q) r xs"
  shows "performs tr (Consume_Up_To l) q"
proof -
  note ab = rep_abs [OF rep] and good = spsc_goodI
  let ?n = "min l (visible xs (wc - r))"
  obtain q' where d: "consume_up_to tr l record_all [] q = ok (?n, fold record_all (take ?n xs) [], q')"
    "slots q' = slots q" "spsc_rep q' (r + ?n) rc (r + visible xs (wc - r)) (drop ?n xs)"
    "tidy (destructible tr) (storage q') (r + ?n) (drop ?n xs)"
    using consume_up_to_spec [OF rep t, where limit = l and fn = record_all and s = "[]"] by blast
  show ?thesis
    unfolding performs_def spsc_exec.simps ab fifo_spec.simps Let_def d(1) chain.simps prod.case
      fold_record append_Nil
    by (intro exI [of _ "Visited ?n (take ?n xs)"] exI [of _ q'] conjI refl good [OF d(3,4)])
      (simp only: rep_abs_popped [OF d(3) refl refl d(2)])
qed

lemma performs_consume_all:
  assumes rep: "spsc_rep q r rc wc xs" and t: "tidy (destructible tr) (storage q) r xs"
  shows "performs tr Consume_All q"
proof -
  note ab = rep_abs [OF rep] and good = spsc_goodI
  let ?n = "visible xs (wc - r)"
  obtain q' where d: "consume_all tr record_all [] q = ok (?n, fold record_all (take ?n xs) [], q')"
    "slots q' = slots q" "spsc_rep q' (r + ?n) rc (r + ?n) (drop ?n xs)"
    "tidy (destructible tr) (storage q') (r + ?n) (drop ?n xs)"
    using consume_all_spec [OF rep t, where fn = record_all and s = "[]"] by blast
  have "spsc_abs q' = (slots q, drop ?n xs, 0)" using rep_abs [OF d(3)] d(2) by simp
  then show ?thesis
    unfolding performs_def spsc_exec.simps ab fifo_spec.simps Let_def d(1) chain.simps prod.case
      fold_record append_Nil
    by (intro exI [of _ "Visited ?n (take ?n xs)"] exI [of _ q'] conjI refl good [OF d(3,4)]) simp
qed

lemma performs_clear:
  assumes rep: "spsc_rep q r rc wc xs" and t: "tidy (destructible tr) (storage q) r xs"
  shows "performs tr Clear q"
proof -
  note ab = rep_abs [OF rep] and good = spsc_goodI
  obtain q' where d: "clear tr q = ok q'" "slots q' = slots q"
    "spsc_rep q' (r + length xs) rc (r + length xs) []"
    "tidy (destructible tr) (storage q') (r + length xs) []"
    using clear_spec [OF rep t] by blast
  with ab rep_abs [OF d(3)] good [OF d(3,4)] show ?thesis by (simp add: performs_def)
qed

lemma performs_size: "spsc_good tr q \<Longrightarrow> performs tr Size q"
  unfolding spsc_good_def performs_def using rep_size rep_abs by fastforce

lemma spsc_step:
  assumes "spsc_good tr q" "lawful tr" "spsc_allowed tr c (spsc_abs q)"
  shows "\<exists>a q'. spsc_exec tr c q = ok (a, q') \<and> spsc_good tr q' \<and> fifo_spec c (spsc_abs q) = (a, spsc_abs q')"
proof -
  obtain r rc wc xs where rep: "spsc_rep q r rc wc xs" "tidy (destructible tr) (storage q) r xs"
    using assms(1) by (auto simp: spsc_good_def)
  have "performs tr c q"
    using assms(2,3) performs_size [OF assms(1)]
    by (cases c) (auto simp: lawful_def intro: performs_emplace [OF rep] performs_emplace_range [OF rep]
      performs_dequeue [OF rep] performs_dequeue_into [OF rep] performs_dequeue_range [OF rep]
      performs_consume_up_to [OF rep] performs_consume_all [OF rep] performs_clear [OF rep])
  then show ?thesis by (simp add: performs_def)
qed

text \<open>The traits of the element type travel with the queue.\<close>

definition spsc_inv :: "traits \<Rightarrow> 'a spsc_queue \<Rightarrow> bool" where
  "spsc_inv tr q \<longleftrightarrow> spsc_good tr q \<and> lawful tr"

interpretation spsc: simulation "spsc_exec tr" fifo_spec "spsc_inv tr" spsc_abs "\<lambda>q. spsc_allowed tr" for tr
  by unfold_locales (use spsc_step in \<open>auto simp: spsc_inv_def\<close>)

text \<open>One element at a time, the queue is a lossless first-in first-out queue.\<close>

interpretation spsc_fifo: fifo try_emplace "try_dequeue tr" "spsc_good tr" spsc_items
    "\<lambda>x q. length (spsc_items q) < slots q" "\<lambda>_. True" for tr
proof
  fix q :: "'a spsc_queue" and x :: 'a
  assume "spsc_good tr q"
  then obtain r rc wc xs where rep: "spsc_rep q r rc wc xs" and t: "tidy (destructible tr) (storage q) r xs"
    by (auto simp: spsc_good_def)
  have it: "spsc_items q = xs" using rep_abs [OF rep] by (simp add: spsc_abs_def)
  obtain q' rc' where e: "try_emplace x q = ok (length xs < slots q, q')"
    "spsc_rep q' r rc' wc (if length xs < slots q then xs @ [x] else xs)"
    "tidy (destructible tr) (storage q') r (if length xs < slots q then xs @ [x] else xs)"
    using try_emplace_spec [OF rep t] by blast
  with rep_abs [OF e(2)] spsc_goodI [OF e(2,3)]
  show "\<exists>q'. try_emplace x q = ok (length (spsc_items q) < slots q, q') \<and> spsc_good tr q' \<and>
      spsc_items q' = (if length (spsc_items q) < slots q then spsc_items q @ [x] else spsc_items q)"
    by (simp add: it spsc_abs_def)
  obtain q' where d: "try_dequeue tr q = ok (case xs of [] \<Rightarrow> None | x # _ \<Rightarrow> Some x, q')"
    "spsc_rep q' (r + length xs - length (tl xs)) rc (r + visible xs (wc - r)) (tl xs)"
    "tidy (destructible tr) (storage q') (r + length xs - length (tl xs)) (tl xs)"
    using try_dequeue_spec [OF rep t] by blast
  with rep_abs [OF d(2)] spsc_goodI [OF d(2,3)]
  show "\<exists>q'. try_dequeue tr q = ok (first_of (spsc_items q), q') \<and> spsc_good tr q' \<and>
      spsc_items q' = tl (spsc_items q)"
    by (simp add: it spsc_abs_def first_of_def)
qed

section \<open>Sessions from any cursor\<close>

text \<open>
  Every session of calls, from an empty queue whose cursors stand anywhere in the 64-bit range, so also
  across their wrap to 0, runs without a fault, with the answers of \<open>fifo_spec\<close>.
\<close>

lemma spsc_session_seen:
  fixes cs :: "'a queue_call list"
  assumes "power_of_two N" "lawful tr" "\<forall>c \<in> set cs. \<forall>a. spsc_allowed tr c a"
  shows "\<exists>rs q. run_all (spsc_exec tr) cs (spsc_after c N) = ok (rs, q) \<and> spsc_good tr q \<and>
    spec_all fifo_spec cs (N, [], 0) = (rs, spsc_abs q)"
proof -
  let ?q = "spsc_after c N :: 'a spsc_queue"
  have "allowed_all (spsc_allowed tr) fifo_spec cs a" for a using assms(3) by (induction cs arbitrary: a) auto
  moreover have "spsc_inv tr ?q" using spsc_after_good(1) [OF assms(1)] assms(2) by (simp add: spsc_inv_def)
  moreover have "spsc_abs ?q = (N, [], 0)" by (rule spsc_after_good(2) [OF assms(1)])
  ultimately show ?thesis using spsc.run_sim [of tr ?q cs] by (auto simp: spsc_inv_def)
qed

definition owning :: traits where
  "owning = \<lparr>copyable = False, destructible = False\<rparr>"

definition plain :: traits where
  "plain = \<lparr>copyable = True, destructible = True\<rparr>"

text \<open>
  Lossless: along any sequence of \<open>try_emplace\<close> and \<open>try_dequeue\<close>, what came out followed by what
  is still queued is exactly what was queued before followed by what was accepted, in order.
\<close>

theorem spsc_lossless:
  assumes "spsc_good tr q"
  shows "\<exists>ins outs q'. drive try_emplace (try_dequeue tr) us q = ok (ins, outs, q') \<and> spsc_good tr q' \<and>
    outs @ spsc_items q' = spsc_items q @ ins"
  using spsc_fifo.drive_fifo [OF assms, of us] by (auto simp: spsc_fifo.valid_use_def split: use.splits)

theorem spsc_lossless_witness:
  "\<exists>ins outs q'. drive try_emplace (try_dequeue owning) [Push (1 :: nat), Push 2, Pop, Push 3] (spsc_new 2) =
    ok (ins, outs, q') \<and> outs @ spsc_items q' = ins"
proof -
  have p: "power_of_two 2" unfolding power_of_two_def by (rule exI [of _ 1]) simp
  have "spsc_items (spsc_new 2 :: nat spsc_queue) = []"
  proof -
    have "spsc_abs (spsc_new 2 :: nat spsc_queue) = (2, [], 0)" by (rule spsc_new_good(2) [OF p])
    then show ?thesis by (simp add: spsc_abs_def)
  qed
  with spsc_lossless [OF spsc_new_good(1) [OF p, of owning], where us = "[Push (1 :: nat), Push 2, Pop, Push 3]"]
  show ?thesis by (simp del: drive.simps) blast
qed

text \<open>The cells of a good queue that hold an element, and what its destructor leaves.\<close>

lemma live_cells:
  assumes "spsc_good tr q" "\<not> destructible tr"
  shows "spsc_delete tr q = ok (replicate (slots q) None) \<and>
    card {j. j < slots q \<and> storage q ! j \<noteq> None} = unat (size q)"
proof -
  obtain r rc wc xs where rep: "spsc_rep q r rc wc xs" and t: "tidy (destructible tr) (storage q) r xs"
    using assms(1) by (auto simp: spsc_good_def)
  have e: "read_position q = of_nat r" "write_position q = of_nat (r + length xs)"
    using rep unfolding spsc_rep_def by blast+
  have h: "held (storage q) r xs" "length xs \<le> slots q" using rep by (simp_all add: spsc_rep_def)
  note pos = slots_bounds [OF rep]
  have live: "{j. j < slots q \<and> storage q ! j \<noteq> None} = (\<lambda>i. (r + i) mod slots q) ` {..<length xs}"
    using h t assms(2) pos by (auto simp: tidy_def held_def image_iff)
  have "inj_on (\<lambda>i. (r + i) mod slots q) {..<length xs}"
  proof (rule inj_onI)
    fix i j
    assume ij: "i \<in> {..<length xs}" "j \<in> {..<length xs}" "(r + i) mod slots q = (r + j) mod slots q"
    show "i = j"
    proof (cases "i \<le> j")
      case True
      with ij h(2) show ?thesis by (intro mod_window_inj [of r i j "slots q"]) auto
    next
      case False
      with ij h(2) have "j = i" by (intro mod_window_inj [of r j i "slots q"]) auto
      then show ?thesis by simp
    qed
  qed
  then have "card {j. j < slots q \<and> storage q ! j \<noteq> None} = length xs" unfolding live by (simp add: card_image)
  then show ?thesis
    using destroy_range_spec [OF rep t] assms(2) rep_size [OF rep] by (simp add: spsc_delete_def e del: of_nat_add)
qed

section \<open>Where the code departs from its documentation\<close>

text \<open>
  C22: the batch insertion of trivially copyable elements is broken: it advances the source pointer
  by the first chunk before copying that chunk, so whenever a non-empty batch fits without wrapping
  around the end of the ring, the copy reads past the end of the source range.
\<close>

theorem batch_insert_reads_past_end:
  assumes "spsc_good tr q" "copyable tr" "ys \<noteq> []" "length (spsc_items q) + length ys \<le> slots q"
    and "calculate_index q (write_position_local q) + length ys \<le> slots q"
  shows "try_emplace_range tr ys q = abort Bad_Index"
proof -
  obtain r rc wc xs where rep: "spsc_rep q r rc wc xs" using assms(1) by (auto simp: spsc_good_def)
  have it: "spsc_items q = xs" using rep_abs [OF rep] by (simp add: spsc_abs_def)
  have len: "length ys < 2 ^ 64" using assms(4) slots_bounds [OF rep] by linarith
  obtain q1 rc1 where hr: "has_room (of_nat (length ys)) q = (True, q1)" "storage q1 = storage q"
    using has_room_spec [OF rep len] assms(4) it by auto
  have u: "unat (of_nat (length ys) :: cursor) = length ys" using len by (rule unat_cursor)
  have ci: "calculate_index q1 (write_position_local q) = calculate_index q (write_position_local q)"
    by (simp add: calculate_index_def hr(2))
  have f: "min (length ys) (slots q - calculate_index q (write_position_local q)) = length ys"
    using assms(5) by simp
  have m: "memcpy_in k ys (length ys) (length ys) st = abort Bad_Index" for k st
    using assms(3) by (simp add: memcpy_in_def)
  show ?thesis
    unfolding try_emplace_range_def Let_def hr(1) prod.case u ci hr(2) f m using assms(2) by simp
qed

theorem batch_insert_reads_past_end_witness:
  "try_emplace_range plain [1, 2, 3, 4] (spsc_new 8 :: nat spsc_queue) = abort Bad_Index"
proof -
  have p: "power_of_two 8" unfolding power_of_two_def by (rule exI [of _ 3]) simp
  have c: "copyable plain" "[1, 2, 3, 4] \<noteq> ([] :: nat list)"
    "length (spsc_items (spsc_new 8 :: nat spsc_queue)) + length [1, 2, 3, 4 :: nat] \<le> slots (spsc_new 8 :: nat spsc_queue)"
    "calculate_index (spsc_new 8 :: nat spsc_queue) (write_position_local (spsc_new 8 :: nat spsc_queue)) +
      length [1, 2, 3, 4 :: nat] \<le> slots (spsc_new 8 :: nat spsc_queue)" by code_simp+
  show ?thesis by (rule batch_insert_reads_past_end [OF spsc_new_good(1) [OF p] c])
qed

text \<open>
  When the batch does wrap and is long enough for the copies to stay inside the source, the
  first chunk is lost: of the batch 1, 2, 3 inserted at the last cell of a ring of four, the
  elements dequeued are 2, 2, 3.
\<close>

theorem batch_insert_loses_first_chunk:
  "\<exists>rs q. run_all (spsc_exec plain) [Emplace_Range [1, 2, 3], Dequeue_Range [0, 0, 0 :: nat]] (spsc_after 3 4) = ok (rs, q) \<and>
    rs = [Accepted True, Batch 3 [2, 2, 3]]"
  by (rule run_fst_eq) code_simp

end
