(* ===== verification/Spsc_Concurrent.thy ===== *)
theory Spsc_Concurrent
  imports Spsc_Properties
begin

text \<open>
  The producer and the consumer of \<open>spsc_queue\<close> running at the same time. Each call is cut at its
  accesses to what the two threads share: the load of the other side's cursor, the access to the
  cell, the store that publishes the own cursor. The steps of the two threads interleave freely.
  A load returns the newest store: these are the sequentially consistent executions. Theory
  \<open>Spsc_Weak\<close> has those of the C++ memory model, with all the operations.
\<close>

section \<open>Threads\<close>

text \<open>Where a thread is in \<open>try_emplace\<close> (with the element) and in \<open>try_dequeue\<close>.\<close>

datatype 'a producer_pc = P_Idle | P_Reload 'a | P_Construct 'a | P_Publish 'a

datatype 'a consumer_pc = C_Idle | C_Reload | C_Move | C_Destroy 'a | C_Publish 'a

text \<open>\<open>sent\<close> and \<open>received\<close> record the elements whose enqueueing and dequeueing were published.\<close>

record 'a system =
  queue :: "'a spsc_queue"
  prod :: "'a producer_pc"
  cons :: "'a consumer_pc"
  sent :: "'a list"
  received :: "'a list"

definition system_new :: "'a spsc_queue \<Rightarrow> 'a system" where
  "system_new q = \<lparr>queue = q, prod = P_Idle, cons = C_Idle, sent = [], received = []\<rparr>"

text \<open>One step of the producer; an idle producer calls \<open>try_emplace x\<close>.\<close>

definition producer_step :: "'a \<Rightarrow> 'a system \<Rightarrow> 'a system run" where
  "producer_step x s = (let q = queue s in
     case prod s of
       P_Idle \<Rightarrow> ok (s\<lparr>prod := if free_slots q < 1 then P_Reload x else P_Construct x\<rparr>)
     | P_Reload y \<Rightarrow>
         let q' = q\<lparr>read_position_cache := read_position q\<rparr> in
         ok (s\<lparr>queue := q', prod := if free_slots q' \<ge> 1 then P_Construct y else P_Idle\<rparr>)
     | P_Construct y \<Rightarrow>
         if is_full q then abort Assert_Failed
         else chain (construct_at (calculate_index q (write_position_local q)) y (storage q)) (\<lambda>st.
           ok (s\<lparr>queue := q\<lparr>storage := st\<rparr>, prod := P_Publish y\<rparr>))
     | P_Publish y \<Rightarrow>
         ok (s\<lparr>queue := publish_write (write_position_local q + 1) q, prod := P_Idle,
               sent := sent s @ [y]\<rparr>))"

text \<open>One step of the consumer; an idle consumer calls \<open>try_dequeue\<close>.\<close>

definition consumer_step :: "traits \<Rightarrow> 'a system \<Rightarrow> 'a system run" where
  "consumer_step tr s = (let q = queue s; cell = calculate_index q (read_position_local q) in
     case cons s of
       C_Idle \<Rightarrow>
         ok (s\<lparr>cons := if read_position_local q = write_position_cache q then C_Reload else C_Move\<rparr>)
     | C_Reload \<Rightarrow>
         let q' = q\<lparr>write_position_cache := write_position q\<rparr> in
         ok (s\<lparr>queue := q', cons := if write_position_cache q' - read_position_local q' = 0
                                   then C_Idle else C_Move\<rparr>)
     | C_Move \<Rightarrow>
         if is_empty q then abort Assert_Failed
         else chain (read_cell cell (storage q)) (\<lambda>x. ok (s\<lparr>cons := C_Destroy x\<rparr>))
     | C_Destroy x \<Rightarrow>
         chain (destroy_at (destructible tr) cell (storage q)) (\<lambda>st.
           ok (s\<lparr>queue := q\<lparr>storage := st\<rparr>, cons := C_Publish x\<rparr>))
     | C_Publish x \<Rightarrow>
         ok (s\<lparr>queue := publish_read (read_position_local q + 1) q, cons := C_Idle,
               received := received s @ [x]\<rparr>))"

inductive interleaved :: "traits \<Rightarrow> 'a system \<Rightarrow> 'a system \<Rightarrow> bool" for tr start where
  at_start: "interleaved tr start start"
| produce: "interleaved tr start s \<Longrightarrow> producer_step x s = ok s' \<Longrightarrow> interleaved tr start s'"
| consume: "interleaved tr start s \<Longrightarrow> consumer_step tr s = ok s' \<Longrightarrow> interleaved tr start s'"

inductive_cases interleavedE: "interleaved tr start s"

section \<open>Solo runs are the calls\<close>

text \<open>Without interference, the steps from idle to idle are the call as the code runs it.\<close>

primrec solo :: "('s \<Rightarrow> 's run) \<Rightarrow> nat \<Rightarrow> 's \<Rightarrow> 's run" where
  "solo step 0 s = ok s"
| "solo step (Suc n) s = chain (step s) (solo step n)"

lemma solo_producer:
  assumes "prod s = P_Idle" "try_emplace x (queue s) = ok (b, q')"
  shows "\<exists>n \<le> 4. solo (producer_step x) n s =
    ok (s\<lparr>queue := q', sent := sent s @ (if b then [x] else [])\<rparr>)"
proof (cases "free_slots (queue s) < 1")
  case False
  then obtain st where st: "\<not> is_full (queue s)"
    "construct_at (calculate_index (queue s) (write_position_local (queue s))) x (storage (queue s)) = ok st"
    "b" "q' = publish_write (write_position_local (queue s) + 1) ((queue s)\<lparr>storage := st\<rparr>)"
    using assms(2) by (auto simp: try_emplace_def has_room_def Let_def chain_eq_ok split: if_splits)
  have "solo (producer_step x) 3 s = ok (s\<lparr>queue := q', sent := sent s @ [x]\<rparr>)"
    using False st assms(1)
    by (cases s) (simp add: numeral_3_eq_3 producer_step_def Let_def publish_write_def)
  with st(3) show ?thesis by (intro exI [of _ 3]) simp
next
  case True
  let ?q = "(queue s)\<lparr>read_position_cache := read_position (queue s)\<rparr>"
  show ?thesis
  proof (cases "1 \<le> free_slots ?q")
    case no: False
    then have r: "\<not> b" "q' = ?q" using True assms(2) by (auto simp: try_emplace_def has_room_def Let_def)
    have "solo (producer_step x) 2 s = ok (s\<lparr>queue := q'\<rparr>)"
      using True no r assms(1) by (cases s) (simp add: numeral_2_eq_2 producer_step_def Let_def)
    with r show ?thesis by (intro exI [of _ 2]) (cases s, simp)
  next
    case yes: True
    with True obtain st where st: "\<not> is_full ?q"
      "construct_at (calculate_index ?q (write_position_local ?q)) x (storage ?q) = ok st"
      "b" "q' = publish_write (write_position_local (queue s) + 1) (?q\<lparr>storage := st\<rparr>)"
      using assms(2) by (auto simp: try_emplace_def has_room_def Let_def chain_eq_ok split: if_splits)
    have "solo (producer_step x) 4 s = ok (s\<lparr>queue := q', sent := sent s @ [x]\<rparr>)"
      using True yes st assms(1)
      by (cases s) (simp add: numeral_eq_Suc producer_step_def Let_def publish_write_def)
    with st(3) show ?thesis by (intro exI [of _ 4]) simp
  qed
qed

lemma solo_consumer:
  assumes "cons s = C_Idle" "try_dequeue tr (queue s) = ok (r, q')"
  shows "\<exists>n \<le> 5. solo (consumer_step tr) n s =
    ok (s\<lparr>queue := q', received := received s @ (case r of None \<Rightarrow> [] | Some x \<Rightarrow> [x])\<rparr>)"
proof (cases "read_position_local (queue s) = write_position_cache (queue s)")
  case False
  let ?q = "queue s"
  from False have "readable ?q = (write_position_cache ?q - read_position_local ?q, ?q)"
    "write_position_cache ?q - read_position_local ?q \<noteq> 0" by (auto simp: readable_def Let_def)
  with assms(2) obtain x st where st: "\<not> is_empty ?q"
    "read_cell (calculate_index ?q (read_position_local ?q)) (storage ?q) = ok x"
    "destroy_at (destructible tr) (calculate_index ?q (read_position_local ?q)) (storage ?q) = ok st"
    "r = Some x" "q' = publish_read (read_position_local ?q + 1) (?q\<lparr>storage := st\<rparr>)"
    by (auto simp: try_dequeue_def Let_def chain_eq_ok split: if_splits)
  have "solo (consumer_step tr) 4 s = ok (s\<lparr>queue := q', received := received s @ [x]\<rparr>)"
    using False st assms(1)
    by (cases s) (simp add: numeral_eq_Suc consumer_step_def Let_def publish_read_def)
  with st(4) show ?thesis by (intro exI [of _ 4]) simp
next
  case True
  let ?q = "(queue s)\<lparr>write_position_cache := write_position (queue s)\<rparr>"
  from True have rd: "readable (queue s) = (write_position (queue s) - read_position_local (queue s), ?q)"
    by (simp add: readable_def Let_def)
  show ?thesis
  proof (cases "write_position (queue s) - read_position_local (queue s) = 0")
    case none: True
    then have r: "r = None" "q' = ?q" using rd assms(2) by (auto simp: try_dequeue_def)
    have "solo (consumer_step tr) 2 s = ok (s\<lparr>queue := q'\<rparr>)"
      using True none r assms(1) by (cases s) (simp add: numeral_2_eq_2 consumer_step_def Let_def)
    with r show ?thesis by (intro exI [of _ 2]) (cases s, simp)
  next
    case some: False
    with rd assms(2) obtain x st where st: "\<not> is_empty ?q"
      "read_cell (calculate_index ?q (read_position_local ?q)) (storage ?q) = ok x"
      "destroy_at (destructible tr) (calculate_index ?q (read_position_local ?q)) (storage ?q) = ok st"
      "r = Some x" "q' = publish_read (read_position_local (queue s) + 1) (?q\<lparr>storage := st\<rparr>)"
      by (auto simp: try_dequeue_def Let_def chain_eq_ok split: if_splits)
    have "solo (consumer_step tr) 5 s = ok (s\<lparr>queue := q', received := received s @ [x]\<rparr>)"
      using True some st assms(1)
      by (cases s) (simp add: numeral_eq_Suc consumer_step_def Let_def publish_read_def)
    with st(4) show ?thesis by (intro exI [of _ 5]) simp
  qed
qed

section \<open>The invariant\<close>

text \<open>
  Of the numbers behind the cursors, \<open>r\<close> and \<open>w\<close> count the published pops and pushes; \<open>rc\<close> and \<open>wc\<close>
  are the cached ones.
\<close>

definition cursors :: "'a spsc_queue \<Rightarrow> nat \<Rightarrow> nat \<Rightarrow> nat \<Rightarrow> nat \<Rightarrow> bool" where
  "cursors q r w rc wc \<longleftrightarrow> power_of_two (slots q) \<and> rc \<le> r \<and> r \<le> wc \<and> wc \<le> w \<and> w \<le> rc + slots q \<and>
     read_position q = of_nat r \<and> read_position_local q = of_nat r \<and>
     write_position q = of_nat w \<and> write_position_local q = of_nat w \<and>
     read_position_cache q = of_nat rc \<and> write_position_cache q = of_nat wc"

text \<open>
  The elements in flight are \<open>xs\<close>; their cells hold them, except that the front cell is given up
  while the consumer is about to publish; a producer past its room check owns the cell behind them.
\<close>

definition producer_owns :: "'a option list \<Rightarrow> 'a producer_pc \<Rightarrow> nat \<Rightarrow> nat \<Rightarrow> bool" where
  "producer_owns st pc w rc \<longleftrightarrow> (case pc of
     P_Construct y \<Rightarrow> w < rc + length st
   | P_Publish y \<Rightarrow> w < rc + length st \<and> st ! (w mod length st) = Some y
   | _ \<Rightarrow> True)"

definition consumer_owns :: "'a option list \<Rightarrow> 'a consumer_pc \<Rightarrow> nat \<Rightarrow> nat \<Rightarrow> 'a list \<Rightarrow> bool" where
  "consumer_owns st pc r wc xs \<longleftrightarrow> (case pc of
     C_Move \<Rightarrow> r < wc \<and> held st r xs
   | C_Destroy x \<Rightarrow> r < wc \<and> held st r xs \<and> hd xs = x
   | C_Publish x \<Rightarrow> r < wc \<and> held st (Suc r) (tl xs) \<and> hd xs = x
   | _ \<Rightarrow> held st r xs)"

lemmas owns_defs = producer_owns_def consumer_owns_def

definition system_rep :: "'a system \<Rightarrow> nat \<Rightarrow> nat \<Rightarrow> nat \<Rightarrow> 'a list \<Rightarrow> bool" where
  "system_rep s r rc wc xs \<longleftrightarrow> cursors (queue s) r (r + length xs) rc wc \<and> sent s = received s @ xs \<and>
     producer_owns (storage (queue s)) (prod s) (r + length xs) rc \<and>
     consumer_owns (storage (queue s)) (cons s) r wc xs"

lemma cursors_bounds:
  assumes "cursors q r w rc wc"
  shows "0 < slots q" "slots q < 2 ^ 64" "r \<le> w" "w - r \<le> slots q" "wc - r < 2 ^ 64" "w - r < 2 ^ 64"
  using assms power_of_two_bounds [of "slots q"] by (auto simp: cursors_def)

lemma cursors_index: "cursors q r w rc wc \<Longrightarrow> calculate_index q (of_nat n) = n mod slots q"
  by (simp add: calculate_index_def cursors_def masked_of_nat)

lemma cursors_free: "cursors q r w rc wc \<Longrightarrow> unat (free_slots q) = slots q - (w - rc)"
  by (intro free_slots_nat) (auto simp: cursors_def)

lemma cursors_size: "cursors q r w rc wc \<Longrightarrow> unat (size q) = w - r"
  using cursor_diff [of r w] cursors_bounds(3,6) [of q r w rc wc] by (simp add: size_def cursors_def)

lemma cursors_repD:
  assumes "system_rep s r rc wc xs"
  shows "cursors (queue s) r (r + length xs) rc wc" "sent s = received s @ xs"
    "producer_owns (storage (queue s)) (prod s) (r + length xs) rc"
    "consumer_owns (storage (queue s)) (cons s) r wc xs"
    "0 < slots (queue s)" "slots (queue s) < 2 ^ 64" "length xs \<le> slots (queue s)" "wc - r < 2 ^ 64"
    "length xs < 2 ^ 64" "r \<le> wc" "wc \<le> r + length xs"
    "calculate_index (queue s) (read_position_local (queue s)) = r mod slots (queue s)"
    "r < wc \<Longrightarrow> \<exists>x ys. xs = x # ys"
proof -
  show c: "cursors (queue s) r (r + length xs) rc wc" and "sent s = received s @ xs"
    "producer_owns (storage (queue s)) (prod s) (r + length xs) rc"
    "consumer_owns (storage (queue s)) (cons s) r wc xs"
    using assms by (simp_all add: system_rep_def)
  show "0 < slots (queue s)" "slots (queue s) < 2 ^ 64" "length xs \<le> slots (queue s)" "wc - r < 2 ^ 64"
    "length xs < 2 ^ 64" using cursors_bounds [OF c] by simp_all
  show b: "r \<le> wc" "wc \<le> r + length xs" using c by (simp_all add: cursors_def)
  show "calculate_index (queue s) (read_position_local (queue s)) = r mod slots (queue s)"
    using cursors_index [OF c, of r] c by (simp add: cursors_def)
  show "\<exists>x ys. xs = x # ys" if "r < wc" using that b(2) by (cases xs) auto
qed

lemma producer_step_idle:
  assumes rep: "system_rep s r rc wc xs" and P_Idle: "prod s = P_Idle"
  shows "\<exists>s' rc' ys. producer_step x s = ok s' \<and> system_rep s' r rc' wc (xs @ ys)"
proof -
  let ?q = "queue s" and ?w = "r + length xs"
  note y = cursors_repD [OF rep]
  have "unat (1 :: cursor) = 1" by simp
  then have "free_slots ?q < 1 \<longleftrightarrow> \<not> ?w < rc + slots ?q"
    unfolding word_less_nat_alt cursors_free [OF y(1)] using y(1) by (auto simp: cursors_def)
  with P_Idle rep show ?thesis
    by (intro exI [of _ "s\<lparr>prod := if free_slots ?q < 1 then P_Reload x else P_Construct x\<rparr>"]
        exI [of _ rc] exI [of _ "[]"])
      (auto simp: producer_step_def Let_def system_rep_def producer_owns_def)
qed

lemma producer_step_reload:
  assumes rep: "system_rep s r rc wc xs" and P_Reload: "prod s = P_Reload y"
  shows "\<exists>s' rc' ys. producer_step x s = ok s' \<and> system_rep s' r rc' wc (xs @ ys)"
proof -
  let ?q = "queue s" and ?w = "r + length xs"
  note y = cursors_repD [OF rep]
  let ?q' = "?q\<lparr>read_position_cache := read_position ?q\<rparr>"
  have cur': "cursors ?q' r ?w r wc" using y(1) by (auto simp: cursors_def)
  have "unat (1 :: cursor) = 1" by simp
  then have "1 \<le> free_slots ?q' \<longleftrightarrow> ?w < r + slots ?q"
    unfolding word_le_nat_alt cursors_free [OF cur'] using y(1) by (auto simp: cursors_def)
  with P_Reload cur' y(2) y(4) show ?thesis
    by (intro exI [of _ "s\<lparr>queue := ?q', prod := if free_slots ?q' \<ge> 1 then P_Construct y else P_Idle\<rparr>"]
        exI [of _ r] exI [of _ "[]"])
      (auto simp: producer_step_def Let_def system_rep_def producer_owns_def)
qed

lemma producer_step_construct:
  assumes rep: "system_rep s r rc wc xs" and P_Construct: "prod s = P_Construct y"
  shows "\<exists>s' rc' ys. producer_step x s = ok s' \<and> system_rep s' r rc' wc (xs @ ys)"
proof -
  let ?q = "queue s" and ?w = "r + length xs"
  note y = cursors_repD [OF rep]
  let ?k = "?w mod slots ?q" and ?st = "(storage ?q)[?w mod slots ?q := Some y]"
  have room: "?w < rc + slots ?q" using y(3) P_Construct by (simp add: producer_owns_def)
  then have len: "length xs < slots ?q" using y(1) by (simp add: cursors_def)
  have nf: "\<not> is_full ?q"
  proof
    assume "is_full ?q"
    then have "unat (size ?q) = slots ?q" using y(6) by (simp only: is_full_def unat_cursor)
    with cursors_size [OF y(1)] len show False by simp
  qed
  have ix: "calculate_index ?q (write_position_local ?q) = ?k" "?k < slots ?q"
    using cursors_index [OF y(1), of ?w] y(1) y(5) by (simp_all add: cursors_def del: of_nat_add)
  have other: "(r + i) mod slots ?q \<noteq> ?k" if "i < length xs" for i
    using that len by (intro window_neq) auto
  have keep: "held ?st r ys" if "held (storage ?q) r ys" "length ys \<le> length xs" for ys
    using that other by (intro held_upd_other) auto
  have keep1: "held ?st (Suc r) (tl xs)" if "held (storage ?q) (Suc r) (tl xs)"
    using that other [of "Suc _"] by (intro held_upd_other) auto
  have "consumer_owns ?st (cons s) r wc xs"
    using y(4) keep keep1 by (auto simp: consumer_owns_def split: consumer_pc.splits)
  with P_Construct y(1) y(2) nf ix room show ?thesis
    by (intro exI [of _ "s\<lparr>queue := ?q\<lparr>storage := ?st\<rparr>, prod := P_Publish y\<rparr>"] exI [of _ rc] exI [of _ "[]"])
      (auto simp: producer_step_def Let_def system_rep_def producer_owns_def construct_at_def cursors_def)
qed

lemma producer_step_publish:
  assumes rep: "system_rep s r rc wc xs" and P_Publish: "prod s = P_Publish y"
  shows "\<exists>s' rc' ys. producer_step x s = ok s' \<and> system_rep s' r rc' wc (xs @ ys)"
proof -
  let ?q = "queue s" and ?w = "r + length xs"
  note y = cursors_repD [OF rep]
  let ?q' = "publish_write (write_position_local ?q + 1) ?q"
  have room: "?w < rc + slots ?q" and cell: "storage ?q ! (?w mod slots ?q) = Some y"
    using y(3) P_Publish by (simp_all add: producer_owns_def)
  have cur': "cursors ?q' r (r + length (xs @ [y])) rc wc"
    using y(1) room by (auto simp: cursors_def publish_write_def add.commute)
  have bk: "held (storage ?q) (r + length xs) [y]" using cell by (simp add: held_Cons)
  have "consumer_owns (storage ?q') (cons s) r wc (xs @ [y])"
    using y(4) bk y(1)
    by (cases xs) (auto simp: consumer_owns_def held_append held_Cons cursors_def split: consumer_pc.splits)
  with P_Publish cur' y(2) show ?thesis
    by (intro exI [of _ "s\<lparr>queue := ?q', prod := P_Idle, sent := sent s @ [y]\<rparr>"] exI [of _ rc] exI [of _ "[y]"])
      (auto simp: producer_step_def Let_def system_rep_def producer_owns_def)
qed

lemma producer_preserves:
  assumes "system_rep s r rc wc xs"
  shows "\<exists>s' rc' ys. producer_step x s = ok s' \<and> system_rep s' r rc' wc (xs @ ys)"
  using assms by (cases "prod s") (blast intro: producer_step_idle producer_step_reload producer_step_construct producer_step_publish)+

lemma consumer_step_idle:
  assumes rep: "system_rep s r rc wc xs" and C_Idle: "cons s = C_Idle"
  shows "\<exists>s' r' wc' ys. consumer_step tr s = ok s' \<and> system_rep s' r' rc wc' ys"
proof -
  let ?q = "queue s" and ?w = "r + length xs"
  note y = cursors_repD [OF rep]
  have "read_position_local ?q = write_position_cache ?q \<longleftrightarrow> r = wc"
    using cursor_eq_iff [OF y(10) y(8)] y(1) by (simp add: cursors_def)
  with C_Idle rep y(10,11) show ?thesis
    by (intro exI [of _ "s\<lparr>cons := if read_position_local ?q = write_position_cache ?q then C_Reload else C_Move\<rparr>"]
        exI [of _ r] exI [of _ wc] exI [of _ xs])
      (auto simp: consumer_step_def Let_def system_rep_def consumer_owns_def)
qed

lemma consumer_step_reload:
  assumes rep: "system_rep s r rc wc xs" and C_Reload: "cons s = C_Reload"
  shows "\<exists>s' r' wc' ys. consumer_step tr s = ok s' \<and> system_rep s' r' rc wc' ys"
proof -
  let ?q = "queue s" and ?w = "r + length xs"
  note y = cursors_repD [OF rep]
  let ?q' = "?q\<lparr>write_position_cache := write_position ?q\<rparr>"
  have cur': "cursors ?q' r ?w rc ?w" using y(1) by (simp add: cursors_def)
  have "write_position_cache ?q' - read_position_local ?q' = of_nat (length xs)"
    using y(1) by (simp add: cursors_def)
  moreover have "(of_nat (length xs) :: cursor) = 0 \<longleftrightarrow> xs = []"
    using cursor_eq_iff [of 0 "length xs"] y(9) by auto
  ultimately show ?thesis using C_Reload cur' y(2) y(3) y(4)
    by (intro exI [of _ "s\<lparr>queue := ?q', cons := if xs = [] then C_Idle else C_Move\<rparr>"]
        exI [of _ r] exI [of _ ?w] exI [of _ xs])
      (auto simp: consumer_step_def Let_def system_rep_def consumer_owns_def)
qed

lemma consumer_step_move:
  assumes rep: "system_rep s r rc wc xs" and C_Move: "cons s = C_Move"
  shows "\<exists>s' r' wc' ys. consumer_step tr s = ok s' \<and> system_rep s' r' rc wc' ys"
proof -
  let ?q = "queue s" and ?w = "r + length xs"
  note y = cursors_repD [OF rep]
  from y(4) C_Move obtain x ys where xs: "xs = x # ys" and h: "held (storage ?q) r (x # ys)" and lt: "r < wc"
    using y(13) by (auto simp: consumer_owns_def)
  have ne: "\<not> is_empty ?q"
  proof
    assume "is_empty ?q"
    with cursors_size [OF y(1)] xs show False by (simp add: is_empty_def)
  qed
  from C_Move ne h lt front_cell(1) [OF h y(5)] y(12) rep xs show ?thesis
    by (intro exI [of _ "s\<lparr>cons := C_Destroy x\<rparr>"] exI [of _ r] exI [of _ wc] exI [of _ xs])
      (auto simp: consumer_step_def Let_def system_rep_def consumer_owns_def)
qed

lemma consumer_step_destroy:
  assumes rep: "system_rep s r rc wc xs" and C_Destroy: "cons s = C_Destroy x"
  shows "\<exists>s' r' wc' ys. consumer_step tr s = ok s' \<and> system_rep s' r' rc wc' ys"
proof -
  let ?q = "queue s" and ?w = "r + length xs"
  note y = cursors_repD [OF rep]
  from y(4) C_Destroy obtain ys where xs: "xs = x # ys" and h: "held (storage ?q) r (x # ys)" and lt: "r < wc"
    using y(13) by (auto simp: consumer_owns_def)
  let ?st = "drop_cell (destructible tr) (r mod slots ?q) (storage ?q)"
  have len: "length ys < slots ?q" using y(7) xs by simp
  have "producer_owns ?st (prod s) ?w rc"
  proof (cases "prod s")
    case (P_Publish y)
    then have w: "?w < rc + slots ?q" using y(3) by (simp add: producer_owns_def)
    have "r mod slots ?q \<noteq> ?w mod slots ?q"
      using w y(1) xs by (intro window_neq) (auto simp: cursors_def)
    with P_Publish y(3) show ?thesis by (auto simp: producer_owns_def drop_cell_def)
  qed (use y(3) in \<open>auto simp: producer_owns_def\<close>)
  moreover have "consumer_owns ?st (C_Publish x) r wc xs"
    using drop_front [OF h len, of "destructible tr"] lt xs by (simp add: consumer_owns_def)
  moreover have "cursors (?q\<lparr>storage := ?st\<rparr>) r ?w rc wc" using y(1) by (simp add: cursors_def)
  ultimately show ?thesis
    using C_Destroy front_cell(2) [OF h y(5), of "destructible tr"] y(12) y(2)
    by (intro exI [of _ "s\<lparr>queue := ?q\<lparr>storage := ?st\<rparr>, cons := C_Publish x\<rparr>"] exI [of _ r] exI [of _ wc] exI [of _ xs])
      (auto simp: consumer_step_def Let_def system_rep_def)
qed

lemma consumer_step_publish:
  assumes rep: "system_rep s r rc wc xs" and C_Publish: "cons s = C_Publish x"
  shows "\<exists>s' r' wc' ys. consumer_step tr s = ok s' \<and> system_rep s' r' rc wc' ys"
proof -
  let ?q = "queue s" and ?w = "r + length xs"
  note y = cursors_repD [OF rep]
  from y(4) C_Publish obtain ys where xs: "xs = x # ys" and h: "held (storage ?q) (Suc r) ys" and lt: "r < wc"
    using y(13) by (auto simp: consumer_owns_def)
  let ?q' = "publish_read (read_position_local ?q + 1) ?q"
  have "cursors ?q' (Suc r) (Suc r + length ys) rc wc"
    using y(1) lt xs by (auto simp: cursors_def publish_read_def add.commute)
  with C_Publish y(2) y(3) h xs show ?thesis
    by (intro exI [of _ "s\<lparr>queue := ?q', cons := C_Idle, received := received s @ [x]\<rparr>"] exI [of _ "Suc r"]
        exI [of _ wc] exI [of _ ys])
      (auto simp: consumer_step_def Let_def system_rep_def consumer_owns_def)
qed

lemma consumer_preserves:
  assumes "system_rep s r rc wc xs"
  shows "\<exists>s' r' wc' ys. consumer_step tr s = ok s' \<and> system_rep s' r' rc wc' ys"
  using assms by (cases "cons s") (blast intro: consumer_step_idle consumer_step_reload consumer_step_move consumer_step_destroy consumer_step_publish)+

lemma system_start:
  assumes "spsc_rep q r rc wc []"
  shows "system_rep (system_new q) r rc wc []"
  using assms by (auto simp: system_rep_def system_new_def owns_defs cursors_def spsc_rep_def)

lemma interleaved_rep:
  assumes "interleaved tr start s" "system_rep start r rc wc xs"
  shows "\<exists>r rc wc xs. system_rep s r rc wc xs"
  using assms
proof (induction rule: interleaved.induct)
  case (produce s x s')
  then show ?case using producer_preserves [of s _ _ _ _ x] by fastforce
next
  case (consume s s')
  then show ?case using consumer_preserves [of s _ _ _ _ tr] by fastforce
qed blast

lemma system_new_rep:
  assumes "power_of_two N"
  shows "system_rep (system_new (spsc_after c N)) (unat c) (unat c) (unat c) []"
proof -
  have "of_nat (unat c) = c" by simp
  then have "spsc_rep (spsc_after c N) (unat c) (unat c) (unat c) []"
    using assms by (simp add: spsc_rep_def spsc_after_def)
  then show ?thesis by (rule system_start)
qed

lemma step_slots:
  "producer_step x s = ok s' \<Longrightarrow> slots (queue s') = slots (queue s)"
  "consumer_step tr s = ok s' \<Longrightarrow> slots (queue s') = slots (queue s)"
  by (auto simp: producer_step_def consumer_step_def Let_def chain_eq_ok construct_at_def destroy_at_def
      split: producer_pc.splits consumer_pc.splits if_splits)

lemma interleaved_slots: "interleaved tr start s \<Longrightarrow> slots (queue s) = slots (queue start)"
  by (induction rule: interleaved.induct) (simp_all add: step_slots)

section \<open>Properties\<close>

text \<open>
  First-in first-out under concurrency. However the steps of the producer and the consumer
  interleave, from an empty queue whose cursors stand anywhere, the elements received are a prefix
  of the elements sent, in order, and at most \<open>N\<close> elements are in flight: nothing is lost,
  duplicated, reordered or overwritten.
\<close>

theorem concurrent_fifo:
  assumes "power_of_two N" "interleaved tr (system_new (spsc_after c N)) s"
  shows "\<exists>xs. sent s = received s @ xs \<and> length xs \<le> N"
proof -
  obtain r rc wc xs where rep: "system_rep s r rc wc xs"
    using interleaved_rep [OF assms(2) system_new_rep [OF assms(1)]] by blast
  then have "sent s = received s @ xs" "length xs \<le> slots (queue s)"
    using cursors_bounds(4) by (fastforce simp: system_rep_def)+
  moreover have "slots (queue s) = N"
    using interleaved_slots [OF assms(2)] by (simp add: system_new_def spsc_after_def)
  ultimately show ?thesis by blast
qed

text \<open>A schedule: two elements sent, one received while the second is being written.\<close>

definition scheduled :: "nat system run" where
  "scheduled = chain (solo (producer_step 7) 3 (system_new (spsc_after (2 ^ 64 - 1) 2))) (\<lambda>s.
     chain (solo (producer_step 8) 1 s) (\<lambda>s. chain (solo (consumer_step owning) 3 s) (\<lambda>s.
     chain (solo (producer_step 8) 2 s) (\<lambda>s. solo (consumer_step owning) 2 s))))"

lemma solo_interleaved:
  "interleaved tr start s \<Longrightarrow> solo (producer_step x) n s = ok s' \<Longrightarrow> interleaved tr start s'"
  "interleaved tr start s \<Longrightarrow> solo (consumer_step tr) n s = ok s' \<Longrightarrow> interleaved tr start s'"
  by (induction n arbitrary: s) (auto simp: chain_eq_ok intro: produce consume)

lemma scheduled_run:
  "\<exists>s. scheduled = ok s \<and> interleaved owning (system_new (spsc_after (2 ^ 64 - 1) 2)) s \<and>
    sent s = [7, 8] \<and> received s = [7]"
proof -
  have e: "map_option (map_sum (\<lambda>e. e) (\<lambda>s. (sent s, received s))) scheduled = ok ([7, 8], [7])" by code_simp
  obtain s where s: "scheduled = ok s" "sent s = [7, 8]" "received s = [7]"
    using run_map [OF e] by auto
  have "interleaved owning (system_new (spsc_after (2 ^ 64 - 1) 2)) s"
  proof -
    from s(1) obtain s1 s2 s3 s4 where
      "solo (producer_step 7) 3 (system_new (spsc_after (2 ^ 64 - 1) 2)) = ok s1"
      "solo (producer_step 8) 1 s1 = ok s2" "solo (consumer_step owning) 3 s2 = ok s3"
      "solo (producer_step 8) 2 s3 = ok s4" "solo (consumer_step owning) 2 s4 = ok s"
      unfolding scheduled_def chain_eq_ok by blast
    then show ?thesis by (metis at_start solo_interleaved)
  qed
  with s show ?thesis by blast
qed

theorem concurrent_fifo_witness: "\<exists>s xs. scheduled = ok s \<and> sent s = [7, 8] \<and> sent s = received s @ xs \<and> length xs \<le> 2"
proof -
  have p: "power_of_two 2" unfolding power_of_two_def by (rule exI [of _ 1]) simp
  obtain s where s: "scheduled = ok s" "interleaved owning (system_new (spsc_after (2 ^ 64 - 1) 2)) s"
    "sent s = [7, 8]" using scheduled_run by blast
  from concurrent_fifo [OF p s(2)] s(1,3) show ?thesis by auto
qed

text \<open>
  No step of either thread ever faults: in every reachable state the asserted conditions hold,
  the producer constructs inside the ring, and the consumer reads and destroys a live element.
\<close>

theorem concurrent_no_fault:
  assumes "power_of_two N" "interleaved tr (system_new (spsc_after c N)) s"
  shows "(\<exists>s'. producer_step x s = ok s') \<and> (\<exists>s'. consumer_step tr s = ok s')"
proof -
  obtain r rc wc xs where rep: "system_rep s r rc wc xs"
    using interleaved_rep [OF assms(2) system_new_rep [OF assms(1)]] by blast
  from producer_preserves [OF rep] consumer_preserves [OF rep] show ?thesis by blast
qed

theorem concurrent_no_fault_witness:
  "\<exists>s s'. scheduled = ok s \<and> producer_step 9 s = ok s'"
proof -
  have p: "power_of_two 2" unfolding power_of_two_def by (rule exI [of _ 1]) simp
  obtain s where s: "scheduled = ok s" "interleaved owning (system_new (spsc_after (2 ^ 64 - 1) 2)) s"
    using scheduled_run by blast
  from concurrent_no_fault [OF p s(2), of 9] s(1) show ?thesis by blast
qed

text \<open>
  No data race: whenever the producer is about to construct an element while the consumer is
  about to move from or destroy one, they are at different cells.
\<close>

theorem concurrent_race_free:
  assumes "power_of_two N" "interleaved tr (system_new (spsc_after c N)) s"
    and "prod s = P_Construct y" "cons s = C_Move \<or> cons s = C_Destroy z"
  shows "calculate_index (queue s) (write_position_local (queue s)) \<noteq>
    calculate_index (queue s) (read_position_local (queue s))"
proof -
  obtain r rc wc xs where rep: "system_rep s r rc wc xs"
    using interleaved_rep [OF assms(2) system_new_rep [OF assms(1)]] by blast
  let ?w = "r + length xs"
  have cur: "cursors (queue s) r ?w rc wc" using rep by (simp add: system_rep_def)
  have "?w < rc + slots (queue s)" using rep assms(3) by (simp add: system_rep_def producer_owns_def)
  moreover have "r < wc" using rep assms(4) by (auto simp: system_rep_def consumer_owns_def)
  ultimately have "r mod slots (queue s) \<noteq> ?w mod slots (queue s)"
    using cur by (intro window_neq) (auto simp: cursors_def)
  moreover have "read_position_local (queue s) = of_nat r" "write_position_local (queue s) = of_nat ?w"
    using cur by (simp_all add: cursors_def)
  ultimately show ?thesis using cursors_index [OF cur] by (metis (no_types))
qed

text \<open>A schedule that stops where the producer is about to construct and the consumer to move.\<close>

definition contended :: "nat system run" where
  "contended = chain (solo (producer_step 7) 3 (system_new (spsc_after (2 ^ 64 - 1) 2))) (\<lambda>s.
     chain (solo (producer_step 8) 1 s) (\<lambda>s. solo (consumer_step owning) 2 s))"

theorem concurrent_race_free_witness:
  "\<exists>s. contended = ok s \<and> calculate_index (queue s) (write_position_local (queue s)) \<noteq>
    calculate_index (queue s) (read_position_local (queue s))"
proof -
  have e: "map_option (map_sum (\<lambda>e. e) (\<lambda>s. (prod s, cons s))) contended = ok (P_Construct 8, C_Move)" by code_simp
  obtain s where s: "contended = ok s" "prod s = P_Construct 8" "cons s = C_Move" using run_map [OF e] by auto
  from s(1) obtain s1 s2 where
    "solo (producer_step 7) 3 (system_new (spsc_after (2 ^ 64 - 1) 2)) = ok s1"
    "solo (producer_step 8) 1 s1 = ok s2" "solo (consumer_step owning) 2 s2 = ok s"
    unfolding contended_def chain_eq_ok by blast
  then have i: "interleaved owning (system_new (spsc_after (2 ^ 64 - 1) 2)) s" by (metis at_start solo_interleaved)
  have p: "power_of_two 2" unfolding power_of_two_def by (rule exI [of _ 1]) simp
  from concurrent_race_free [OF p i s(2) disjI1 [OF s(3)]] s(1) show ?thesis by blast
qed

text \<open>
  The consumer makes progress on its own: from any reachable state in which it is idle and an
  element is in flight, at most five of its steps deliver exactly the oldest such element, whatever
  the producer is in the middle of.
\<close>

theorem consumer_progress:
  assumes "power_of_two N" "interleaved tr (system_new (spsc_after c N)) s"
    and "cons s = C_Idle" "sent s \<noteq> received s"
  shows "\<exists>n s'. n \<le> 5 \<and> solo (consumer_step tr) n s = ok s' \<and>
    received s' = received s @ [sent s ! length (received s)]"
proof -
  obtain r rc wc xs where rep: "system_rep s r rc wc xs"
    using interleaved_rep [OF assms(2) system_new_rep [OF assms(1)]] by blast
  then have sp: "spsc_rep (queue s) r rc wc xs" and fifo: "sent s = received s @ xs"
    using assms(3) by (auto simp: system_rep_def consumer_owns_def cursors_def spsc_rep_def)
  with assms(4) obtain x ys where xs: "xs = x # ys" by (cases xs) auto
  have h: "held (storage (queue s)) r (x # ys)" using sp xs by (simp add: spsc_rep_def)
  have ix: "calculate_index (queue s) (read_position_local (queue s)) = r mod slots (queue s)"
    using rep_index [OF sp] rep_read_local [OF sp] by simp
  note fc = front_cell [OF h conjunct1 [OF slots_bounds [OF sp]]]
  have "tidy True (storage (queue s)) r xs" by (simp add: tidy_def)
  from take_front [OF sp this] xs ix fc obtain q' where "try_dequeue tr (queue s) = ok (Some x, q')"
    by (auto simp: try_dequeue_def Let_def calculate_index_def)
  from solo_consumer [OF assms(3) this] fifo xs show ?thesis by auto
qed

theorem consumer_progress_witness:
  "\<exists>s n s'. scheduled = ok s \<and> n \<le> 5 \<and> solo (consumer_step owning) n s = ok s' \<and> received s' = [7, 8]"
proof -
  have p: "power_of_two 2" unfolding power_of_two_def by (rule exI [of _ 1]) simp
  have e: "map_option (map_sum (\<lambda>e. e) cons) scheduled = ok C_Idle" by code_simp
  obtain s where s: "scheduled = ok s" "interleaved owning (system_new (spsc_after (2 ^ 64 - 1) 2)) s"
    "sent s = [7, 8]" "received s = [7]" using scheduled_run by blast
  obtain y where y: "scheduled = ok y" "cons y = C_Idle" using run_map [OF e] by blast
  have "y = s" using trans [OF sym [OF y(1)] s(1)] by simp
  with y(2) s(3,4) have i: "cons s = C_Idle" "sent s \<noteq> received s" by auto
  from consumer_progress [OF p s(2) i] s(1,3,4) show ?thesis by auto
qed

text \<open>
  Cut at its shared accesses, a call is still the call: when the producer runs its steps from
  idle to idle without interference, the queue is the one \<open>try_emplace\<close> returns, and the element
  counts as sent exactly when the call answers true.
\<close>

theorem solo_steps_are_try_emplace:
  assumes "prod s = P_Idle" "try_emplace x (queue s) = ok (b, q')"
  shows "\<exists>n s'. n \<le> 4 \<and> solo (producer_step x) n s = ok s' \<and> queue s' = q' \<and> prod s' = P_Idle \<and>
    sent s' = sent s @ (if b then [x] else [])"
  using solo_producer [OF assms] assms(1) by (auto split: if_splits)

theorem solo_steps_are_try_emplace_witness:
  "\<exists>n s'. n \<le> 4 \<and> solo (producer_step (5 :: nat)) n (system_new (spsc_new 1)) = ok s' \<and> sent s' = [5]"
proof -
  have e: "map_option (map_sum (\<lambda>e. e) fst) (try_emplace (5 :: nat) (spsc_new 1)) = ok True" by code_simp
  have n: "queue (system_new (spsc_new 1)) = (spsc_new 1 :: nat spsc_queue)"
    "prod (system_new (spsc_new 1) :: nat system) = P_Idle"
    "sent (system_new (spsc_new 1) :: nat system) = []" by (simp_all add: system_new_def)
  obtain q' where "try_emplace (5 :: nat) (queue (system_new (spsc_new 1))) = ok (True, q')"
    unfolding n using run_fst [OF e] by blast
  from solo_steps_are_try_emplace [OF n(2) this] obtain k s' where
    "k \<le> 4" "solo (producer_step (5 :: nat)) k (system_new (spsc_new 1)) = ok s'"
    "sent s' = sent (system_new (spsc_new 1)) @ (if True then [5] else [])" by blast
  with n(3) show ?thesis by (metis append_Nil)
qed

end
