(* ===== verification/Release_Acquire.thy ===== *)
theory Release_Acquire
  imports Ring
begin

text \<open>
  What the C++ memory model gives a ring buffer shared by two threads. Each thread owns one atomic
  cursor, which it alone stores, with \<open>memory_order_release\<close>, and which the other loads, with
  \<open>memory_order_acquire\<close>. A load may return a store that is not the newest one: any store not older
  than the newest one the thread has loaded before. Loading a store makes visible what the owner did
  before that store, and nothing else. Every read-from edge between the two threads is such a
  synchronisation, so the steps of an execution can be listed in an order that respects
  happens-before: this list is the order of steps in the models that use this theory.
\<close>

section \<open>Cursors as histories\<close>

text \<open>
  One owner's side: \<open>stores\<close> is the modification order of its cursor, \<open>seen\<close> the position in it of the
  newest store the other thread has loaded. \<open>marks\<close> records for each shared cell the owner's last
  access to it, by the number of stores made before: 0 is no access, and an access with mark \<open>m\<close>
  happens before the store at position \<open>m\<close> of the history.
\<close>

record channel =
  stores :: "cursor list"
  seen :: nat
  marks :: "nat list"

definition channel_new :: "nat \<Rightarrow> cursor \<Rightarrow> channel" where
  "channel_new n c = \<lparr>stores = [c], seen = 0, marks = replicate n 0\<rparr>"

text \<open>The owner's own value; \<open>store(c, release)\<close>.\<close>

definition newest :: "channel \<Rightarrow> cursor" where
  "newest ch = last (stores ch)"

definition release :: "cursor \<Rightarrow> channel \<Rightarrow> channel" where
  "release c ch = ch\<lparr>stores := stores ch @ [c]\<rparr>"

text \<open>\<open>load(acquire)\<close> by the other thread; \<open>k\<close> chooses among the stores it may return.\<close>

definition acquire :: "nat \<Rightarrow> channel \<Rightarrow> cursor \<times> channel" where
  "acquire k ch =
     (let j = min (seen ch + k) (length (stores ch) - 1) in (stores ch ! j, ch\<lparr>seen := j\<rparr>))"

text \<open>
  An access of a thread to a cell, where the other thread may have accessed it too. Unless the other's
  last access happens before it (the store that follows it has been loaded), it is a data race.
\<close>

definition access :: "nat \<Rightarrow> channel \<Rightarrow> channel \<Rightarrow> channel run" where
  "access i mine other =
     (if i < length (marks mine) \<and> i < length (marks other) then
        if marks other ! i \<le> seen other
        then ok (mine\<lparr>marks := (marks mine)[i := length (stores mine)]\<rparr>)
        else abort Data_Race
      else abort Bad_Index)"

section \<open>The numbers behind a history\<close>

text \<open>
  \<open>S\<close> are the natural numbers behind the stores, and the owner has accessed no cell beyond position
  \<open>b\<close>; the mark of a cell belongs to a position of that cell.
\<close>

definition marked :: "nat list \<Rightarrow> nat list \<Rightarrow> nat \<Rightarrow> nat \<Rightarrow> bool" where
  "marked ms S b i \<longleftrightarrow> ms ! i \<le> length S \<and>
     (ms ! i = 0 \<or> (\<exists>p < b. p mod length ms = i \<and> (\<forall>k < length S. p < S ! k \<longrightarrow> ms ! i \<le> k)))"

definition channel_rep :: "channel \<Rightarrow> nat \<Rightarrow> nat list \<Rightarrow> nat \<Rightarrow> bool" where
  "channel_rep ch n S b \<longleftrightarrow> stores ch = map of_nat S \<and> S \<noteq> [] \<and> sorted S \<and> seen ch < length S \<and>
     length (marks ch) = n \<and> (\<forall>i < n. marked (marks ch) S b i)"

text \<open>The number behind the newest store the other thread has loaded.\<close>

abbreviation loaded :: "channel \<Rightarrow> nat list \<Rightarrow> nat" where
  "loaded ch S \<equiv> S ! seen ch"

lemma sorted_last: "sorted S \<Longrightarrow> k < length S \<Longrightarrow> S ! k \<le> last S"
  by (cases S rule: rev_cases) (auto simp: sorted_append nth_append)

lemma channel_new_rep: "channel_rep (channel_new n (of_nat v)) n [v] b"
  by (simp add: channel_rep_def channel_new_def marked_def)

lemma newest_rep: "channel_rep ch n S b \<Longrightarrow> newest ch = of_nat (last S)"
  by (simp add: channel_rep_def newest_def last_map)

lemma loaded_last: "channel_rep ch n S b \<Longrightarrow> loaded ch S \<le> last S"
  by (simp add: channel_rep_def sorted_last)

text \<open>A load returns a number between the one loaded before and the newest.\<close>

lemma acquire_rep:
  assumes "channel_rep ch n S b"
  obtains j where "acquire k ch = (of_nat (S ! j), ch\<lparr>seen := j\<rparr>)" "channel_rep (ch\<lparr>seen := j\<rparr>) n S b"
    "loaded ch S \<le> S ! j" "S ! j \<le> last S"
proof -
  let ?j = "min (seen ch + k) (length (stores ch) - 1)"
  have s: "stores ch = map of_nat S" "sorted S" "seen ch < length S" "S \<noteq> []"
    using assms by (simp_all add: channel_rep_def)
  then have j: "?j < length S" "seen ch \<le> ?j" by auto
  then have "acquire k ch = (of_nat (S ! ?j), ch\<lparr>seen := ?j\<rparr>)" using s(1) by (simp add: acquire_def Let_def)
  moreover have "channel_rep (ch\<lparr>seen := ?j\<rparr>) n S b" using assms j(1) by (simp add: channel_rep_def)
  moreover have "loaded ch S \<le> S ! ?j" using s(2) j by (intro sorted_nth_mono)
  moreover have "S ! ?j \<le> last S" using s(2) j(1) by (rule sorted_last)
  ultimately show ?thesis by (rule that)
qed

text \<open>Enough patience loads the newest store.\<close>

lemma acquire_newest:
  assumes "channel_rep ch n S b" "length S \<le> k"
  shows "acquire k ch = (newest ch, ch\<lparr>seen := length S - 1\<rparr>)"
proof -
  have s: "stores ch = map of_nat S" "S \<noteq> []" using assms(1) by (simp_all add: channel_rep_def)
  then have "min (seen ch + k) (length (stores ch) - 1) = length S - 1" using assms(2) by simp
  with s show ?thesis by (simp add: acquire_def newest_def Let_def last_conv_nth)
qed

lemma release_rep:
  assumes "channel_rep ch n S b" "last S \<le> v"
  shows "channel_rep (release (of_nat v) ch) n (S @ [v]) b"
proof -
  have S: "S \<noteq> []" "sorted S" using assms(1) by (simp_all add: channel_rep_def)
  then have "sorted (S @ [v])" using assms(2) by (auto simp: sorted_append intro: order_trans [OF sorted_last] simp: in_set_conv_nth)
  moreover have "marked (marks ch) (S @ [v]) b i" if "marked (marks ch) S b i" for i
    using that by (auto simp: marked_def nth_append less_Suc_eq)
  moreover have "(S @ [v]) ! seen ch = S ! seen ch" if "seen ch < length S"
    using that by (simp add: nth_append)
  ultimately show ?thesis using assms(1) by (auto simp: channel_rep_def release_def)
qed

lemma release_loaded: "channel_rep ch n S b \<Longrightarrow> loaded (release c ch) (S @ [v]) = loaded ch S"
  by (simp add: release_def channel_rep_def nth_append)

lemma channel_rep_mono: "channel_rep ch n S b \<Longrightarrow> b \<le> b' \<Longrightarrow> channel_rep ch n S b'"
  unfolding channel_rep_def marked_def by (meson order_less_le_trans)

text \<open>
  An access at position \<open>p\<close>, which the owner has not yet published, is no race if every position of
  the cell the other thread has accessed is one it has published and the owner loaded.
\<close>

lemma access_rep:
  assumes mine: "channel_rep mine n S b" and other: "channel_rep other n T d"
    and p: "last S \<le> p" "p < b'" "b \<le> b'" and n: "0 < n"
    and before: "\<And>q. q < d \<Longrightarrow> q mod n = p mod n \<Longrightarrow> q < loaded other T"
  shows "\<exists>mine'. access (p mod n) mine other = ok mine' \<and> channel_rep mine' n S b' \<and>
    seen mine' = seen mine \<and> stores mine' = stores mine"
proof -
  let ?i = "p mod n"
  have i: "?i < length (marks mine)" "?i < length (marks other)"
    using mine other n by (simp_all add: channel_rep_def)
  have "marked (marks other) T d ?i" "length (marks other) = n" "seen other < length T"
    using other n by (simp_all add: channel_rep_def)
  then have "marks other ! ?i \<le> seen other" using before by (auto simp: marked_def)
  then have "access ?i mine other = ok (mine\<lparr>marks := (marks mine)[?i := length (stores mine)]\<rparr>)"
    using i by (simp add: access_def)
  moreover have "marked ((marks mine)[?i := length (stores mine)]) S b' j" if "j < n" for j
  proof (cases "j = ?i")
    case True
    have "\<not> p < S ! k" if "k < length S" for k
      using sorted_last [OF _ that] mine p(1) by (fastforce simp: channel_rep_def)
    with True i(1) mine p(2) show ?thesis by (auto simp: marked_def channel_rep_def)
  next
    case False
    then have "(marks mine)[?i := length (stores mine)] ! j = marks mine ! j" by simp
    moreover have "marked (marks mine) S b' j"
      using channel_rep_mono [OF mine p(3)] that by (simp add: channel_rep_def)
    ultimately show ?thesis by (simp add: marked_def)
  qed
  ultimately show ?thesis using mine by (auto simp: channel_rep_def)
qed

text \<open>
  The two sides of a ring of \<open>n\<close> cells. The side that fills it accesses a position less than \<open>n\<close> ahead of
  what it has seen drained; the side that drains it accesses a position it has seen filled, while
  the other is at most \<open>n\<close> ahead.
\<close>

lemma cell_behind:
  fixes p q n :: nat
  assumes "q < d" "q mod n = p mod n" "d \<le> p" "p < l + n"
  shows "q < l"
proof -
  have "\<not> p < q + n" using window_neq [of q p n] assms(1-3) by auto
  with assms(4) show ?thesis by linarith
qed

lemma cell_reached:
  fixes p q n :: nat
  assumes "q < d" "q mod n = p mod n" "d \<le> p + n" "p < l"
  shows "q < l"
proof -
  have "\<not> p < q" using window_neq [of p q n] assms(1-3) by auto
  with assms(4) show ?thesis by linarith
qed

lemma fill_access:
  assumes "channel_rep mine n S b" "channel_rep other n T d" "last S \<le> p" "b \<le> Suc p" "0 < n"
    and "d \<le> p" "p < loaded other T + n"
  shows "\<exists>mine'. access (p mod n) mine other = ok mine' \<and> channel_rep mine' n S (Suc p) \<and>
    seen mine' = seen mine \<and> stores mine' = stores mine"
  using access_rep [OF assms(1-3) _ assms(4,5)] cell_behind [OF _ _ assms(6,7)] by simp

lemma drain_access:
  assumes "channel_rep mine n S b" "channel_rep other n T d" "last S \<le> p" "b \<le> Suc p" "0 < n"
    and "d \<le> p + n" "p < loaded other T"
  shows "\<exists>mine'. access (p mod n) mine other = ok mine' \<and> channel_rep mine' n S (Suc p) \<and>
    seen mine' = seen mine \<and> stores mine' = stores mine"
  using access_rep [OF assms(1-3) _ assms(4,5)] cell_reached [OF _ _ assms(6,7)] by simp

text \<open>Accesses to \<open>k\<close> successive cells.\<close>

fun access_range :: "nat \<Rightarrow> cursor \<Rightarrow> nat \<Rightarrow> channel \<Rightarrow> channel \<Rightarrow> channel run" where
  "access_range n pos 0 mine other = ok mine"
| "access_range n pos (Suc k) mine other =
     chain (access (masked n pos) mine other) (\<lambda>mine'. access_range n (pos + 1) k mine' other)"

lemma access_range_rep:
  assumes "power_of_two n" "channel_rep mine n S p" "channel_rep other n T d" "last S \<le> p"
    and "d \<le> p \<and> p + k \<le> loaded other T + n \<or> d \<le> p + n \<and> p + k \<le> loaded other T"
  shows "\<exists>mine'. access_range n (of_nat p) k mine other = ok mine' \<and> channel_rep mine' n S (p + k) \<and>
    seen mine' = seen mine \<and> stores mine' = stores mine"
  using assms(2,4,5)
proof (induction k arbitrary: p mine)
  case (Suc k)
  have n: "0 < n" using power_of_two_bounds [OF assms(1)] by simp
  have "d \<le> p \<and> p < loaded other T + n \<or> d \<le> p + n \<and> p < loaded other T" using Suc.prems(3) by linarith
  then obtain m where m: "access (p mod n) mine other = ok m" "channel_rep m n S (Suc p)" "seen m = seen mine"
    "stores m = stores mine"
    using fill_access [OF Suc.prems(1) assms(3) Suc.prems(2) _ n] drain_access [OF Suc.prems(1) assms(3) Suc.prems(2) _ n]
    by (metis le_SucI order_refl)
  have "last S \<le> Suc p" using Suc.prems(2) by simp
  moreover have "d \<le> Suc p \<and> Suc p + k \<le> loaded other T + n \<or> d \<le> Suc p + n \<and> Suc p + k \<le> loaded other T"
    using Suc.prems(3) by auto
  ultimately obtain m' where "access_range n (of_nat (Suc p)) k m other = ok m'" "channel_rep m' n S (Suc p + k)"
    "seen m' = seen m" "stores m' = stores m" using Suc.IH [OF m(2)] by blast
  then show ?case using m masked_of_nat [OF assms(1), of p] by (simp add: add.commute)
qed simp

end
