(* ===== verification/Spsc_Weak.thy ===== *)
theory Spsc_Weak
  imports Spsc_Concurrent Release_Acquire
begin

text \<open>
  \<open>spsc_queue\<close> with every operation of its two threads, under the memory orders the code asks for. A
  load of the other side's cursor returns any store the memory model allows, the checks of the
  assertions load too, cells are constructed, read and destroyed one at a time, and an access to a
  cell that is not ordered after the other thread's last access to it is the fault \<open>Data_Race\<close>.
  A \<open>memcpy\<close> makes the same accesses as the loop over the cells: reading several cells without
  destroying them, or writing several cells.
\<close>

section \<open>State\<close>

datatype 'a put = Put_One 'a | Put_Range "'a list"

fun items :: "'a put \<Rightarrow> 'a list" where
  "items (Put_One x) = [x]"
| "items (Put_Range xs) = xs"

text \<open>
  The consumer's calls: \<open>try_dequeue\<close> (both overloads); \<open>consume_up_to n\<close>, and \<open>try_dequeue_range\<close> into \<open>n\<close> slots;
  \<open>consume_all\<close>; \<open>clear\<close>.
\<close>

datatype take = Take_One | Take_Up_To cursor | Take_All | Clear_All

text \<open>
  Where the producer is: between calls; before the second load of \<open>has_room\<close>; before the assertion of
  \<open>try_emplace\<close>; before the \<open>memcpy\<close> of a batch; with so many of the elements constructed.
\<close>

datatype 'a producer_at = P_Ready | P_Recheck "'a put" | P_Assert 'a | P_Copy "'a list" | P_Fill "'a list" nat

text \<open>
  Where the consumer is: between calls; before the load of \<open>readable\<close>; before the assertion of
  \<open>try_dequeue\<close>; with so many elements still to take and those taken; with one of them read and not
  yet destroyed; inside \<open>clear\<close> with the end it loaded and the elements discarded so far.
\<close>

datatype 'a consumer_at = C_Ready | C_Readable take | C_Assert | C_Take nat "'a list" | C_Drop nat 'a "'a list"
  | C_Wipe cursor "'a list"

text \<open>
  Three fields are not in the code: the producer's calls for which \<open>has_room\<close> answered yes, with the
  elements their caller passed; the elements written into the cells and published; the elements
  the consumer took out.
\<close>

record 'a threads =
  cells :: "'a option list"
  writes :: channel
  reads :: channel
  w_local :: cursor
  r_cache :: cursor
  r_local :: cursor
  w_cache :: cursor
  p_at :: "'a producer_at"
  c_at :: "'a consumer_at"
  accepted :: "'a put list"
  stored :: "'a list"
  removed :: "'a list"

text \<open>A queue that has been used: empty, its cursors anywhere, no thread inside a call.\<close>

definition threads_new :: "cursor \<Rightarrow> nat \<Rightarrow> 'a threads" where
  "threads_new c n = \<lparr>cells = replicate n None, writes = channel_new n c, reads = channel_new n c,
     w_local = c, r_cache = c, r_local = c, w_cache = c, p_at = P_Ready, c_at = C_Ready,
     accepted = [], stored = [], removed = []\<rparr>"

text \<open>What the producer's caller has enqueued: every element of every accepted call, in order.\<close>

definition enqueued :: "'a threads \<Rightarrow> 'a list" where
  "enqueued s = concat (map items (accepted s))"

section \<open>The producer\<close>

text \<open>\<open>has_room(count)\<close> on the cached cursor of the consumer.\<close>

definition room_for :: "'a put \<Rightarrow> 'a threads \<Rightarrow> bool" where
  "room_for c s \<longleftrightarrow> \<not> of_nat (length (cells s)) - (w_local s - r_cache s) < of_nat (length (items c))"

fun admit :: "traits \<Rightarrow> 'a put \<Rightarrow> 'a producer_at" where
  "admit tr (Put_One x) = P_Assert x"
| "admit tr (Put_Range xs) = (if copyable tr then P_Copy xs else P_Fill xs 0)"

text \<open>The check \<open>has_room(count)\<close> of a call: on to its writes, or to \<open>no\<close>.\<close>

definition answer_room :: "traits \<Rightarrow> 'a put \<Rightarrow> 'a producer_at \<Rightarrow> 'a threads \<Rightarrow> 'a threads" where
  "answer_room tr c no s =
     (if room_for c s then s\<lparr>p_at := admit tr c, accepted := accepted s @ [c]\<rparr> else s\<lparr>p_at := no\<rparr>)"

text \<open>
  What the two \<open>memcpy\<close> of a batch write, as the code computes its source: both read from \<open>first_chunk\<close>
  elements behind the start of the range, and reading past its end is the fault \<open>Bad_Index\<close>.
\<close>

definition copy_source :: "nat \<Rightarrow> nat \<Rightarrow> 'a list \<Rightarrow> 'a list run" where
  "copy_source N write_index xs =
     (let first_chunk = min (length xs) (N - write_index); src = first_chunk in
      if src + first_chunk \<le> length xs
      then ok (take first_chunk (drop src xs) @ take (length xs - first_chunk) (drop src xs))
      else abort Bad_Index)"

text \<open>One step of the producer, which calls \<open>c\<close> when it is between calls; \<open>k\<close> chooses what a load returns.\<close>

definition producer_move :: "traits \<Rightarrow> nat \<Rightarrow> 'a put \<Rightarrow> 'a threads \<Rightarrow> 'a threads run" where
  "producer_move tr k c s = (case p_at s of
     P_Ready \<Rightarrow> ok (answer_room tr c (P_Recheck c) s)
   | P_Recheck d \<Rightarrow>
       (case acquire k (reads s) of (r, ch) \<Rightarrow>
        ok (answer_room tr d P_Ready (s\<lparr>reads := ch, r_cache := r\<rparr>)))
   | P_Assert x \<Rightarrow>
       (case acquire k (reads s) of (r, ch) \<Rightarrow>
        if newest (writes s) - r = of_nat (length (cells s)) then abort Assert_Failed
        else ok (s\<lparr>reads := ch, p_at := P_Fill [x] 0\<rparr>))
   | P_Copy xs \<Rightarrow>
       chain (copy_source (length (cells s)) (masked (length (cells s)) (w_local s)) xs) (\<lambda>ys.
       ok (s\<lparr>p_at := P_Fill ys 0\<rparr>))
   | P_Fill xs i \<Rightarrow>
       if i < length xs then
         let cell = masked (length (cells s)) (w_local s + of_nat i) in
         chain (access cell (writes s) (reads s)) (\<lambda>ch.
         chain (construct_at cell (xs ! i) (cells s)) (\<lambda>st.
         ok (s\<lparr>cells := st, writes := ch, p_at := P_Fill xs (Suc i)\<rparr>)))
       else
         let new_write = w_local s + of_nat (length xs) in
         ok (s\<lparr>w_local := new_write, writes := release new_write (writes s), p_at := P_Ready,
               stored := stored s @ xs\<rparr>))"

section \<open>The consumer\<close>

text \<open>What a call does once \<open>readable()\<close> has returned \<open>n\<close>.\<close>

definition begin_take :: "take \<Rightarrow> cursor \<Rightarrow> 'a consumer_at" where
  "begin_take c n = (case c of
     Take_One \<Rightarrow> if n = 0 then C_Ready else C_Assert
   | Take_Up_To limit \<Rightarrow> if n = 0 then C_Ready else C_Take (unat (min limit n)) []
   | Take_All \<Rightarrow> C_Take (unat n) []
   | Clear_All \<Rightarrow> C_Ready)"

text \<open>The cell the consumer is at after taking \<open>ys\<close>.\<close>

definition cell_at :: "'a threads \<Rightarrow> 'a list \<Rightarrow> nat" where
  "cell_at s ys = masked (length (cells s)) (r_local s + of_nat (length ys))"

text \<open>
  \<open>std::destroy_at\<close> of a cell: an access, unless the destructor is trivial.
\<close>

definition destroy_access :: "traits \<Rightarrow> nat \<Rightarrow> 'a threads \<Rightarrow> 'a threads run" where
  "destroy_access tr cell s =
     chain (if destructible tr then ok (reads s) else access cell (reads s) (writes s)) (\<lambda>ch.
     chain (destroy_at (destructible tr) cell (cells s)) (\<lambda>st. ok (s\<lparr>cells := st, reads := ch\<rparr>)))"

definition consumer_move :: "traits \<Rightarrow> nat \<Rightarrow> take \<Rightarrow> 'a threads \<Rightarrow> 'a threads run" where
  "consumer_move tr k c s = (case c_at s of
     C_Ready \<Rightarrow>
       (if c = Clear_All then
          case acquire k (writes s) of (w, ch) \<Rightarrow> ok (s\<lparr>writes := ch, c_at := C_Wipe w []\<rparr>)
        else ok (s\<lparr>c_at := if r_local s = w_cache s then C_Readable c else begin_take c (w_cache s - r_local s)\<rparr>))
   | C_Readable d \<Rightarrow>
       (case acquire k (writes s) of (w, ch) \<Rightarrow>
        ok (s\<lparr>writes := ch, w_cache := w, c_at := begin_take d (w - r_local s)\<rparr>))
   | C_Assert \<Rightarrow>
       (case acquire k (writes s) of (w, ch) \<Rightarrow>
        if w - newest (reads s) = 0 then abort Assert_Failed
        else ok (s\<lparr>writes := ch, c_at := C_Take 1 []\<rparr>))
   | C_Take n ys \<Rightarrow>
       (case n of
          0 \<Rightarrow> let new_read = r_local s + of_nat (length ys) in
            ok (s\<lparr>r_local := new_read, reads := release new_read (reads s), c_at := C_Ready,
                  removed := removed s @ ys\<rparr>)
        | Suc m \<Rightarrow>
            chain (access (cell_at s ys) (reads s) (writes s)) (\<lambda>ch.
            chain (read_cell (cell_at s ys) (cells s)) (\<lambda>x.
            ok (s\<lparr>reads := ch, c_at := C_Drop m x ys\<rparr>))))
   | C_Drop n x ys \<Rightarrow>
       chain (destroy_access tr (cell_at s ys) s) (\<lambda>s'. ok (s'\<lparr>c_at := C_Take n (ys @ [x])\<rparr>))
   | C_Wipe write_end ys \<Rightarrow>
       if r_local s + of_nat (length ys) = write_end then
         ok (s\<lparr>w_cache := write_end, r_local := write_end, reads := release write_end (reads s), c_at := C_Ready,
               removed := removed s @ ys\<rparr>)
       else
         chain (read_cell (cell_at s ys) (cells s)) (\<lambda>x.
         chain (destroy_access tr (cell_at s ys) s) (\<lambda>s'. ok (s'\<lparr>c_at := C_Wipe write_end (ys @ [x])\<rparr>))))"

text \<open>
  \<open>size()\<close> called by the producer and by the consumer between their calls: a side loads its own
  cursor, which it knows, and the other's.
\<close>

definition producer_size :: "nat \<Rightarrow> 'a threads \<Rightarrow> cursor \<times> 'a threads" where
  "producer_size k s = (case acquire k (reads s) of (r, ch) \<Rightarrow> (newest (writes s) - r, s\<lparr>reads := ch\<rparr>))"

definition consumer_size :: "nat \<Rightarrow> 'a threads \<Rightarrow> cursor \<times> 'a threads" where
  "consumer_size k s = (case acquire k (writes s) of (w, ch) \<Rightarrow> (w - newest (reads s), s\<lparr>writes := ch\<rparr>))"

text \<open>
  All executions. (A range has a \<open>size_t\<close> size, so fewer than \<open>2 ^ 64\<close> elements.)
\<close>

inductive executes :: "traits \<Rightarrow> 'a threads \<Rightarrow> 'a threads \<Rightarrow> bool" for tr start where
  ex_start: "executes tr start start"
| ex_produce: "executes tr start s \<Longrightarrow> length (items c) < 2 ^ 64 \<Longrightarrow> producer_move tr k c s = ok s' \<Longrightarrow> executes tr start s'"
| ex_consume: "executes tr start s \<Longrightarrow> consumer_move tr k d s = ok s' \<Longrightarrow> executes tr start s'"
| ex_producer_size: "executes tr start s \<Longrightarrow> p_at s = P_Ready \<Longrightarrow> producer_size k s = (n, s') \<Longrightarrow> executes tr start s'"
| ex_consumer_size: "executes tr start s \<Longrightarrow> c_at s = C_Ready \<Longrightarrow> consumer_size k s = (n, s') \<Longrightarrow> executes tr start s'"

end
