(* ===== verification/Spsc_Weak_Correct.thy ===== *)
theory Spsc_Weak_Correct
  imports Spsc_Weak
begin

text \<open>
  The invariant of all executions of \<open>Spsc_Weak\<close> and that every step keeps it: who may access which
  position of the ring, what its cells hold, and what the histories of the two cursors say about
  the order of accesses.
\<close>

section \<open>The invariant\<close>

text \<open>How far a side has gone beyond its published cursor.\<close>

fun filled :: "'a producer_at \<Rightarrow> nat" where
  "filled (P_Fill xs i) = i"
| "filled _ = 0"

fun touched :: "'a consumer_at \<Rightarrow> nat" where
  "touched (C_Take n ys) = length ys"
| "touched (C_Drop n x ys) = Suc (length ys)"
| "touched (C_Wipe e ys) = length ys"
| "touched _ = 0"

text \<open>
  \<open>r\<close> and \<open>w\<close> are the numbers behind the newest stores, \<open>rc\<close> and \<open>wc\<close> those behind the cached cursors.
  A producer past its room check owns the cells from \<open>w\<close> on, a consumer past its check those from \<open>r\<close>.
\<close>

definition producer_holds :: "'a option list \<Rightarrow> nat \<Rightarrow> nat \<Rightarrow> 'a producer_at \<Rightarrow> bool" where
  "producer_holds st w rc pc \<longleftrightarrow> (case pc of
     P_Ready \<Rightarrow> True
   | P_Recheck c \<Rightarrow> length (items c) < 2 ^ 64
   | P_Assert x \<Rightarrow> w < rc + length st
   | P_Copy ys \<Rightarrow> w + length ys \<le> rc + length st
   | P_Fill ys i \<Rightarrow> i \<le> length ys \<and> w + length ys \<le> rc + length st \<and> held st w (take i ys))"

definition taken :: "'a option list \<Rightarrow> nat \<Rightarrow> 'a list \<Rightarrow> 'a list \<Rightarrow> bool" where
  "taken st r xs ys \<longleftrightarrow> (\<exists>zs. xs = ys @ zs \<and> held st (r + length ys) zs)"

definition consumer_holds :: "'a option list \<Rightarrow> nat \<Rightarrow> nat \<Rightarrow> nat \<Rightarrow> 'a list \<Rightarrow> 'a consumer_at \<Rightarrow> bool" where
  "consumer_holds st r wc wl xs pc \<longleftrightarrow> (case pc of
     C_Assert \<Rightarrow> r < wc \<and> held st r xs
   | C_Take n ys \<Rightarrow> r + length ys + n \<le> wc \<and> taken st r xs ys
   | C_Drop n x ys \<Rightarrow> r + length ys + Suc n \<le> wc \<and> taken st r xs ys \<and> xs ! length ys = x
   | C_Wipe e ys \<Rightarrow> (\<exists>m \<le> wl. r + length ys \<le> m \<and> e = of_nat m) \<and> taken st r xs ys
   | _ \<Rightarrow> held st r xs)"

definition threads_rep :: "'a threads \<Rightarrow> nat list \<Rightarrow> nat list \<Rightarrow> nat \<Rightarrow> nat \<Rightarrow> 'a list \<Rightarrow> bool" where
  "threads_rep s R W rc wc xs \<longleftrightarrow>
     (let n = length (cells s); r = last R; w = last W in
      power_of_two n \<and> r + length xs = w \<and> rc \<le> loaded (reads s) R \<and> wc \<le> loaded (writes s) W \<and>
      r \<le> wc \<and> w \<le> rc + n \<and>
      w_local s = of_nat w \<and> r_cache s = of_nat rc \<and> r_local s = of_nat r \<and> w_cache s = of_nat wc \<and>
      channel_rep (writes s) n W (w + filled (p_at s)) \<and> channel_rep (reads s) n R (r + touched (c_at s)) \<and>
      producer_holds (cells s) w rc (p_at s) \<and>
      consumer_holds (cells s) r wc (loaded (writes s) W) xs (c_at s) \<and>
      stored s = removed s @ xs)"

lemmas holds_defs = producer_holds_def consumer_holds_def

lemma threads_repD:
  assumes "threads_rep s R W rc wc xs"
  defines "n \<equiv> length (cells s)"
  shows "power_of_two n" "0 < n" "n < 2 ^ 64" "last R + length xs = last W" "rc \<le> loaded (reads s) R"
    "loaded (reads s) R \<le> last R" "last R \<le> wc" "wc \<le> loaded (writes s) W" "loaded (writes s) W \<le> last W"
    "last W \<le> rc + n" "channel_rep (writes s) n W (last W + filled (p_at s))"
    "channel_rep (reads s) n R (last R + touched (c_at s))"
  using assms(1) power_of_two_bounds [of "length (cells s)"]
    loaded_last [of "reads s" "length (cells s)" R "last R + touched (c_at s)"]
    loaded_last [of "writes s" "length (cells s)" W "last W + filled (p_at s)"]
  unfolding threads_rep_def Let_def n_def by simp_all

lemma threads_new_rep:
  assumes "power_of_two N"
  shows "threads_rep (threads_new c N) [unat c] [unat c] (unat c) (unat c) []"
proof -
  have "of_nat (unat c) = c" by simp
  then show ?thesis using assms channel_new_rep [of N "unat c" "unat c"]
    by (simp add: threads_rep_def threads_new_def holds_defs) (simp add: channel_new_def)
qed

section \<open>The producer\<close>

lemma room_for_nat:
  assumes "w_local s = of_nat w" "r_cache s = of_nat rc" "rc \<le> w" "w \<le> rc + length (cells s)"
    and "length (cells s) < 2 ^ 64" "length (items c) < 2 ^ 64"
  shows "room_for c s \<longleftrightarrow> w + length (items c) \<le> rc + length (cells s)"
proof -
  let ?n = "length (cells s)"
  have "(of_nat ?n - (w_local s - r_cache s) :: cursor) = of_nat (?n - (w - rc))"
    using assms(1-4) by (simp add: of_nat_diff)
  then have "unat (of_nat ?n - (w_local s - r_cache s) :: cursor) = ?n - (w - rc)"
    using assms(5) by (simp only: unat_cursor less_imp_diff_less)
  then show ?thesis using assms(3,4) unat_cursor [OF assms(6)]
    by (auto simp: room_for_def word_less_nat_alt)
qed

lemma answer_room_simps [simp]:
  "cells (answer_room tr c no s) = cells s" "writes (answer_room tr c no s) = writes s"
  "reads (answer_room tr c no s) = reads s" "w_local (answer_room tr c no s) = w_local s"
  "r_cache (answer_room tr c no s) = r_cache s" "r_local (answer_room tr c no s) = r_local s"
  "w_cache (answer_room tr c no s) = w_cache s" "c_at (answer_room tr c no s) = c_at s"
  "stored (answer_room tr c no s) = stored s" "removed (answer_room tr c no s) = removed s"
  "p_at (answer_room tr c no s) = (if room_for c s then admit tr c else no)"
  "accepted (answer_room tr c no s) = accepted s @ (if room_for c s then [c] else [])"
  by (simp_all add: answer_room_def)

lemma admit_holds:
  assumes "w + length (items c) \<le> rc + length st"
  shows "producer_holds st w rc (admit tr c)" "filled (admit tr c) = 0"
  using assms by (cases c; simp add: producer_holds_def)+

lemma taken_upd:
  assumes "taken st r xs ys" "\<And>i. i < length xs \<Longrightarrow> (r + i) mod length st \<noteq> k"
  shows "taken (st[k := v]) r xs ys"
proof -
  obtain zs where zs: "xs = ys @ zs" "held st (r + length ys) zs" using assms(1) by (auto simp: taken_def)
  have "held (st[k := v]) (r + length ys) zs"
    using assms(2) [of "length ys + _"] zs by (intro held_upd_other) (auto simp: add.assoc)
  with zs show ?thesis by (auto simp: taken_def)
qed

lemma consumer_holds_upd:
  assumes "consumer_holds st r wc wl xs pc" "\<And>i. i < length xs \<Longrightarrow> (r + i) mod length st \<noteq> k"
  shows "consumer_holds (st[k := v]) r wc wl xs pc"
  using assms by (auto simp: consumer_holds_def intro: taken_upd held_upd_other split: consumer_at.splits)

lemma taken_append:
  "taken st r xs ys \<Longrightarrow> held st (r + length xs) zs \<Longrightarrow> taken st r (xs @ zs) ys"
  by (auto simp: taken_def held_append add.assoc)

lemma consumer_holds_append:
  assumes "consumer_holds st r wc wl xs pc" "held st (r + length xs) zs" "wc \<le> r + length xs"
  shows "consumer_holds st r wc wl (xs @ zs) pc"
  using assms by (auto simp: consumer_holds_def held_append nth_append intro: taken_append split: consumer_at.splits)

lemma touched_le:
  assumes "threads_rep s R W rc wc xs"
  shows "last R + touched (c_at s) \<le> last W"
  using assms threads_repD(7-9) [OF assms]
  by (auto simp: threads_rep_def Let_def consumer_holds_def split: consumer_at.splits)

text \<open>The producer may access the cell of any position it has room for.\<close>

lemma producer_access:
  assumes rep: "threads_rep s R W rc wc xs" and m: "last W + filled (p_at s) = m" "m < rc + length (cells s)"
  shows "\<exists>ch. access (m mod length (cells s)) (writes s) (reads s) = ok ch \<and>
    channel_rep ch (length (cells s)) W (Suc m) \<and> seen ch = seen (writes s)"
proof -
  note d = threads_repD [OF rep]
  have "last R + touched (c_at s) \<le> m" using touched_le [OF rep] m(1) by linarith
  with fill_access [OF d(11,12), of m] d(2,5) m show ?thesis by auto
qed

text \<open>What the cases of the producer's step share.\<close>

lemma producer_facts:
  assumes rep: "threads_rep s R W rc wc xs"
  shows "w_local s = of_nat (last W)" "r_cache s = of_nat rc" "stored s = removed s @ xs"
    "producer_holds (cells s) (last W) rc (p_at s)"
    "consumer_holds (cells s) (last R) wc (loaded (writes s) W) xs (c_at s)" "rc \<le> last W"
proof -
  show "rc \<le> last W" using threads_repD(4-9) [OF rep] by linarith
qed (use rep in \<open>simp_all add: threads_rep_def Let_def\<close>)

lemma producer_ready:
  assumes rep: "threads_rep s R W rc wc xs" and P_Ready: "p_at s = P_Ready" and c: "length (items c) < 2 ^ 64"
  shows "\<exists>s' W' rc' ys. producer_move tr k c s = ok s' \<and> threads_rep s' R W' rc' wc (xs @ ys)"
proof -
  let ?n = "length (cells s)" and ?w = "last W"
  note d = threads_repD [OF rep] and loc = producer_facts(1-3) [OF rep] and ph = producer_facts(4) [OF rep]
    and ch = producer_facts(5) [OF rep] and rcw = producer_facts(6) [OF rep]
  let ?s = "answer_room tr c (P_Recheck c) s"
  have "producer_move tr k c s = ok ?s" by (simp only: producer_move_def P_Ready producer_at.case)
  moreover have "room_for c s \<longleftrightarrow> ?w + length (items c) \<le> rc + ?n"
    using room_for_nat loc rcw d(3,10) c by blast
  then have "threads_rep ?s R W rc wc (xs @ [])"
    using P_Ready rep c admit_holds [of ?w c rc "cells s"]
    by (auto simp: threads_rep_def Let_def producer_holds_def)
  ultimately show ?thesis by blast
qed

lemma producer_recheck:
  assumes rep: "threads_rep s R W rc wc xs" and P_Recheck: "p_at s = P_Recheck e"
  shows "\<exists>s' W' rc' ys. producer_move tr k c s = ok s' \<and> threads_rep s' R W' rc' wc (xs @ ys)"
proof -
  let ?n = "length (cells s)" and ?w = "last W"
  note d = threads_repD [OF rep] and loc = producer_facts(1-3) [OF rep] and ph = producer_facts(4) [OF rep]
    and ch = producer_facts(5) [OF rep] and rcw = producer_facts(6) [OF rep]
  obtain j where j: "acquire k (reads s) = (of_nat (R ! j), (reads s)\<lparr>seen := j\<rparr>)"
    "channel_rep ((reads s)\<lparr>seen := j\<rparr>) ?n R (last R + touched (c_at s))" "loaded (reads s) R \<le> R ! j" "R ! j \<le> last R"
    by (rule acquire_rep [OF d(12)])
  let ?s = "s\<lparr>reads := (reads s)\<lparr>seen := j\<rparr>, r_cache := of_nat (R ! j)\<rparr>"
  have e: "length (items e) < 2 ^ 64" using ph P_Recheck by (simp add: producer_holds_def)
  have "room_for e ?s \<longleftrightarrow> ?w + length (items e) \<le> R ! j + ?n"
    using room_for_nat [of ?s ?w "R ! j" e] d(3,4,5,10) j(3,4) e loc by simp
  with P_Recheck rep j d(5,10) show ?thesis
    using admit_holds [of ?w e "R ! j" "cells s"]
    by (intro exI [of _ "answer_room tr e P_Ready ?s"] exI [of _ W] exI [of _ "R ! j"] exI [of _ "[]"])
      (auto simp: producer_move_def threads_rep_def Let_def producer_holds_def)
qed

lemma producer_assert:
  assumes rep: "threads_rep s R W rc wc xs" and P_Assert: "p_at s = P_Assert x"
  shows "\<exists>s' W' rc' ys. producer_move tr k c s = ok s' \<and> threads_rep s' R W' rc' wc (xs @ ys)"
proof -
  let ?n = "length (cells s)" and ?w = "last W"
  note d = threads_repD [OF rep] and loc = producer_facts(1-3) [OF rep] and ph = producer_facts(4) [OF rep]
    and ch = producer_facts(5) [OF rep] and rcw = producer_facts(6) [OF rep]
  obtain j where j: "acquire k (reads s) = (of_nat (R ! j), (reads s)\<lparr>seen := j\<rparr>)"
    "channel_rep ((reads s)\<lparr>seen := j\<rparr>) ?n R (last R + touched (c_at s))" "loaded (reads s) R \<le> R ! j" "R ! j \<le> last R"
    by (rule acquire_rep [OF d(12)])
  have w: "?w < rc + ?n" using ph P_Assert by (simp add: producer_holds_def)
  have "R ! j \<le> ?w" "?w - R ! j < ?n" using j(3,4) d(4,5) w by linarith+
  then have "unat (newest (writes s) - of_nat (R ! j)) \<noteq> ?n"
    using newest_rep [OF d(11)] cursor_diff [of "R ! j" ?w] d(3) by simp
  then have "newest (writes s) - of_nat (R ! j) \<noteq> of_nat ?n" using unat_cursor [OF d(3)] by metis
  with P_Assert rep j w d(5) show ?thesis
    by (intro exI [of _ "s\<lparr>reads := (reads s)\<lparr>seen := j\<rparr>, p_at := P_Fill [x] 0\<rparr>"] exI [of _ W] exI [of _ rc] exI [of _ "[]"])
      (auto simp: producer_move_def threads_rep_def Let_def producer_holds_def)
qed

lemma producer_fill:
  assumes rep: "threads_rep s R W rc wc xs" and P_Fill: "p_at s = P_Fill ys i"
  shows "\<exists>s' W' rc' ys. producer_move tr k c s = ok s' \<and> threads_rep s' R W' rc' wc (xs @ ys)"
proof -
  let ?n = "length (cells s)" and ?w = "last W"
  note d = threads_repD [OF rep] and loc = producer_facts(1-3) [OF rep] and ph = producer_facts(4) [OF rep]
    and ch = producer_facts(5) [OF rep] and rcw = producer_facts(6) [OF rep]
  from P_Fill have f: "i \<le> length ys" "?w + length ys \<le> rc + ?n" "held (cells s) ?w (take i ys)"
    using ph by (simp_all add: producer_holds_def)
  show ?thesis
  proof (cases "i < length ys")
    case True
    let ?m = "?w + i" and ?st = "(cells s)[(?w + i) mod ?n := Some (ys ! i)]"
    have m: "?m < rc + ?n" using True f(2) by linarith
    obtain wch where a: "access (?m mod ?n) (writes s) (reads s) = ok wch" "channel_rep wch ?n W (Suc ?m)"
      "seen wch = seen (writes s)"
      using producer_access [OF rep _ m] P_Fill by auto
    have ix: "masked ?n (w_local s + of_nat i) = ?m mod ?n"
      using masked_of_nat [OF d(1), of ?m] loc(1) by simp
    have "length (take i ys) < ?n" using m d(5-7) f(1) True d(4) by simp
    from held_push [OF f(3) this, of "ys ! i"] have "held ?st ?w (take (Suc i) ys)"
      using True by (simp add: take_Suc_conv_app_nth)
    moreover have "consumer_holds ?st (last R) wc (loaded (writes s) W) xs (c_at s)"
      using d(4-6) m by (intro consumer_holds_upd [OF ch] window_neq) auto
    moreover have "?m mod ?n < ?n" using d(2) by simp
    ultimately show ?thesis using P_Fill True f rep a ix
      by (intro exI [of _ "s\<lparr>cells := ?st, writes := wch, p_at := P_Fill ys (Suc i)\<rparr>"] exI [of _ W] exI [of _ rc] exI [of _ "[]"])
        (auto simp: producer_move_def threads_rep_def Let_def producer_holds_def construct_at_def)
  next
    case False
    then have i: "i = length ys" using f(1) by simp
    let ?v = "?w + length ys"
    have c1: "channel_rep (release (of_nat ?v) (writes s)) ?n (W @ [?v]) ?v"
      using release_rep [OF d(11), of ?v] P_Fill i by simp
    note ld = release_loaded [OF d(11)]
    have "consumer_holds (cells s) (last R) wc (loaded (writes s) W) (xs @ ys) (c_at s)"
      using f(3) i d(4,8,9) by (intro consumer_holds_append [OF ch]) auto
    then show ?thesis using P_Fill i rep f(2) c1 ld loc
      by (intro exI [of _ "s\<lparr>w_local := of_nat ?v, writes := release (of_nat ?v) (writes s), p_at := P_Ready,
            stored := stored s @ ys\<rparr>"] exI [of _ "W @ [?v]"] exI [of _ rc] exI [of _ ys])
        (auto simp: producer_move_def threads_rep_def Let_def producer_holds_def)
  qed
qed

text \<open>The \<open>memcpy\<close> of a batch either overruns its source or leaves as many elements to write.\<close>

definition overruns :: "'a threads \<Rightarrow> bool" where
  "overruns s \<longleftrightarrow> (case p_at s of
     P_Copy xs \<Rightarrow> length xs < 2 * min (length xs) (length (cells s) - masked (length (cells s)) (w_local s))
   | _ \<Rightarrow> False)"

lemma producer_overruns: "overruns s \<Longrightarrow> producer_move tr k c s = abort Bad_Index"
  by (auto simp: overruns_def producer_move_def copy_source_def Let_def split: producer_at.splits)

lemma producer_copy:
  assumes rep: "threads_rep s R W rc wc xs" and P_Copy: "p_at s = P_Copy ys" and fits: "\<not> overruns s"
  shows "\<exists>s' W' rc' ys. producer_move tr k c s = ok s' \<and> threads_rep s' R W' rc' wc (xs @ ys)"
proof -
  obtain zs where z: "copy_source (length (cells s)) (masked (length (cells s)) (w_local s)) ys = ok zs" "length zs = length ys"
    using fits P_Copy by (auto simp: overruns_def copy_source_def Let_def)
  with P_Copy rep show ?thesis
    by (intro exI [of _ "s\<lparr>p_at := P_Fill zs 0\<rparr>"] exI [of _ W] exI [of _ rc] exI [of _ "[]"])
      (auto simp: producer_move_def threads_rep_def Let_def producer_holds_def)
qed

lemma producer_move_preserves:
  assumes rep: "threads_rep s R W rc wc xs" and c: "length (items c) < 2 ^ 64" and fits: "\<not> overruns s"
  shows "\<exists>s' W' rc' ys. producer_move tr k c s = ok s' \<and> threads_rep s' R W' rc' wc (xs @ ys)"
  by (cases "p_at s") (rule producer_ready [OF rep _ c] producer_recheck [OF rep] producer_assert [OF rep]
    producer_copy [OF rep _ fits] producer_fill [OF rep], assumption)+

lemma moved_fits: "producer_move tr k c s = ok s' \<Longrightarrow> \<not> overruns s"
  using producer_overruns [of s tr k c] by auto

section \<open>The consumer\<close>

lemma filled_le:
  assumes "threads_rep s R W rc wc xs"
  shows "last W + filled (p_at s) \<le> rc + length (cells s)"
  using assms by (auto simp: threads_rep_def Let_def producer_holds_def split: producer_at.splits)

text \<open>The consumer may access the cell of any position whose publication it has loaded.\<close>

lemma consumer_access:
  assumes rep: "threads_rep s R W rc wc xs" and m: "last R \<le> m" "last R + touched (c_at s) \<le> Suc m"
    and l: "m < loaded (writes s) W"
  shows "\<exists>ch. access (m mod length (cells s)) (reads s) (writes s) = ok ch \<and>
    channel_rep ch (length (cells s)) R (Suc m) \<and> seen ch = seen (reads s)"
proof -
  note d = threads_repD [OF rep]
  have "last W + filled (p_at s) \<le> m + length (cells s)" using filled_le [OF rep] d(5,6) m(1) by linarith
  with drain_access [OF d(12,11) m d(2)] l show ?thesis by blast
qed

lemma destroy_access_ok:
  assumes rep: "threads_rep s R W rc wc xs" and m: "last R \<le> m" "last R + touched (c_at s) \<le> Suc m"
    and l: "m < loaded (writes s) W" and h: "held (cells s) m (x # zs)"
  shows "\<exists>ch. destroy_access tr (m mod length (cells s)) s =
      ok (s\<lparr>cells := drop_cell (destructible tr) (m mod length (cells s)) (cells s), reads := ch\<rparr>) \<and>
    channel_rep ch (length (cells s)) R (Suc m) \<and> seen ch = seen (reads s)"
proof -
  note d = threads_repD [OF rep]
  note fc = front_cell(2) [OF h d(2), of "destructible tr"]
  show ?thesis
  proof (cases "destructible tr")
    case True
    then show ?thesis using fc channel_rep_mono [OF d(12) m(2)]
      by (intro exI [of _ "reads s"]) (cases s, simp add: destroy_access_def)
  next
    case False
    obtain ch where "access (m mod length (cells s)) (reads s) (writes s) = ok ch"
      "channel_rep ch (length (cells s)) R (Suc m)" "seen ch = seen (reads s)"
      using consumer_access [OF rep m l] by blast
    with False fc show ?thesis by (intro exI [of _ ch]) (simp add: destroy_access_def)
  qed
qed

text \<open>Destroying the cell the consumer is at leaves the producer's cells alone.\<close>

lemma producer_holds_drop:
  assumes "producer_holds st w rc pc" "m < w" "rc \<le> m"
  shows "producer_holds (drop_cell triv (m mod length st) st) w rc pc"
proof (cases pc)
  case (P_Fill ys i)
  have "(w + j) mod length st \<noteq> m mod length st" if "j < length (take i ys)" for j
    using that assms P_Fill window_neq [of m "w + j" "length st"] by (auto simp: producer_holds_def)
  then have "held (drop_cell triv (m mod length st) st) w (take i ys)" if "held st w (take i ys)"
    using that held_upd_other [of st w "take i ys" "m mod length st" None] by (simp add: drop_cell_def)
  with P_Fill assms(1) show ?thesis by (simp add: producer_holds_def)
qed (use assms(1) in \<open>simp_all add: producer_holds_def\<close>)

lemma begin_take_holds:
  fixes xs :: "'a list"
  assumes "r \<le> wc" "wc - r < 2 ^ 64" "held st r xs"
  shows "consumer_holds st r wc wl xs (begin_take c (of_nat wc - of_nat r))"
    and "touched (begin_take c (of_nat wc - of_nat r) :: 'a consumer_at) = 0"
proof -
  let ?d = "of_nat wc - of_nat r :: cursor"
  have u: "unat ?d = wc - r" by (rule cursor_diff [OF assms(1,2)])
  then have z: "?d = 0 \<longleftrightarrow> wc = r" using assms(1) unat_0_iff [of ?d] by simp
  have "unat (min l ?d) \<le> wc - r" for l :: cursor using u by (auto simp: min_def word_le_nat_alt)
  then have "r + unat (min l ?d) \<le> wc" for l :: cursor using assms(1) by (metis Nat.le_diff_conv2 add.commute)
  then show "consumer_holds st r wc wl xs (begin_take c ?d)"
    using assms(1,3) u z by (cases c) (auto simp: begin_take_def consumer_holds_def taken_def)
  show "touched (begin_take c ?d :: 'a consumer_at) = 0" by (cases c) (simp_all add: begin_take_def)
qed

lemma taken_next:
  assumes "taken st r xs ys" "length ys < length xs" "length xs \<le> length st" "0 < length st"
  obtains x zs where "xs ! length ys = x" "held st (r + length ys) (x # zs)" "read_cell ((r + length ys) mod length st) st = ok x"
    "\<And>triv. taken (drop_cell triv ((r + length ys) mod length st) st) r xs (ys @ [x])"
proof -
  obtain us where us: "xs = ys @ us" "held st (r + length ys) us" using assms(1) by (auto simp: taken_def)
  then obtain x zs where u: "us = x # zs" using assms(2) by (cases us) auto
  with us assms(3) have l: "length zs < length st" by simp
  show ?thesis
  proof (rule that)
    show "held st (r + length ys) (x # zs)" using us u by simp
    show "xs ! length ys = x" using us u by simp
    show "read_cell ((r + length ys) mod length st) st = ok x"
      by (rule front_cell(1) [OF us(2) [unfolded u] assms(4)])
    show "taken (drop_cell triv ((r + length ys) mod length st) st) r xs (ys @ [x])" for triv
    proof -
      have "held (drop_cell triv ((r + length ys) mod length st) st) (Suc (r + length ys)) zs"
        using us(2) l unfolding u by (rule drop_front)
      then show ?thesis unfolding taken_def us(1) u by (intro exI [of _ zs]) simp
    qed
  qed
qed

text \<open>What the cases of the consumer's step share.\<close>

lemma consumer_facts:
  assumes rep: "threads_rep s R W rc wc xs"
  shows "r_local s = of_nat (last R)" "w_cache s = of_nat wc" "stored s = removed s @ xs"
    "producer_holds (cells s) (last W) rc (p_at s)"
    "consumer_holds (cells s) (last R) wc (loaded (writes s) W) xs (c_at s)"
    "wc - last R < 2 ^ 64" "length xs \<le> length (cells s)" "loaded (writes s) W - last R < 2 ^ 64"
    "cell_at s ys = (last R + length ys) mod length (cells s)"
proof -
  note d = threads_repD [OF rep]
  show loc: "r_local s = of_nat (last R)" "w_cache s = of_nat wc" "stored s = removed s @ xs"
    and "producer_holds (cells s) (last W) rc (p_at s)"
    and "consumer_holds (cells s) (last R) wc (loaded (writes s) W) xs (c_at s)"
    using rep by (simp_all add: threads_rep_def Let_def)
  show "wc - last R < 2 ^ 64" "length xs \<le> length (cells s)" "loaded (writes s) W - last R < 2 ^ 64"
    using d(3-10) by linarith+
  show "cell_at s ys = (last R + length ys) mod length (cells s)"
    using masked_of_nat [OF d(1), of "last R + length ys"] loc(1) by (simp add: cell_at_def)
qed

lemma consumer_acquire:
  assumes rep: "threads_rep s R W rc wc xs"
  obtains j where "acquire k (writes s) = (of_nat (W ! j), (writes s)\<lparr>seen := j\<rparr>)"
    "channel_rep ((writes s)\<lparr>seen := j\<rparr>) (length (cells s)) W (last W + filled (p_at s))"
    "loaded (writes s) W \<le> W ! j" "W ! j \<le> last W" "last R \<le> W ! j" "W ! j - last R < 2 ^ 64"
proof -
  note d = threads_repD [OF rep]
  obtain j where j: "acquire k (writes s) = (of_nat (W ! j), (writes s)\<lparr>seen := j\<rparr>)"
    "channel_rep ((writes s)\<lparr>seen := j\<rparr>) (length (cells s)) W (last W + filled (p_at s))"
    "loaded (writes s) W \<le> W ! j" "W ! j \<le> last W"
    by (rule acquire_rep [OF d(11)])
  moreover have "last R \<le> W ! j" "W ! j - last R < 2 ^ 64" using j(3,4) d(3-10) by linarith+
  ultimately show ?thesis by (rule that)
qed

lemma publish_read_rep:
  assumes rep: "threads_rep s R W rc wc xs" and v: "last R + touched (c_at s) = v"
  shows "channel_rep (release (of_nat v) (reads s)) (length (cells s)) (R @ [v]) v"
    "loaded (release (of_nat v) (reads s)) (R @ [v]) = loaded (reads s) R"
proof -
  note d = threads_repD(12) [OF rep]
  show "channel_rep (release (of_nat v) (reads s)) (length (cells s)) (R @ [v]) v"
    using release_rep [OF d, of v] v by simp
  show "loaded (release (of_nat v) (reads s)) (R @ [v]) = loaded (reads s) R"
    by (rule release_loaded [OF d])
qed

lemma consumer_ready:
  fixes s :: "'a threads"
  assumes rep: "threads_rep s R W rc wc xs" and C_Ready: "c_at s = C_Ready"
  shows "\<exists>s' R' wc' ys. consumer_move tr k c s = ok s' \<and> threads_rep s' R' W rc wc' ys"
proof -
  let ?n = "length (cells s)" and ?r = "last R"
  note d = threads_repD [OF rep] and loc = consumer_facts(1-3) [OF rep] and ph = consumer_facts(4) [OF rep]
    and ch = consumer_facts(5) [OF rep] and sp = consumer_facts(6-8) [OF rep] and ix = consumer_facts(9) [OF rep]
  obtain j where j: "acquire k (writes s) = (of_nat (W ! j), (writes s)\<lparr>seen := j\<rparr>)"
    "channel_rep ((writes s)\<lparr>seen := j\<rparr>) ?n W (last W + filled (p_at s))"
    "loaded (writes s) W \<le> W ! j" "W ! j \<le> last W" "?r \<le> W ! j" "W ! j - ?r < 2 ^ 64"
    by (rule consumer_acquire [OF rep])
  note wj = j(5,6)
  from C_Ready have h: "held (cells s) ?r xs" using ch by (simp add: consumer_holds_def)
  show ?thesis
  proof (cases "c = Clear_All")
    case True
    with C_Ready rep j wj d(7,8) h show ?thesis
      by (intro exI [of _ "s\<lparr>writes := (writes s)\<lparr>seen := j\<rparr>, c_at := C_Wipe (of_nat (W ! j)) []\<rparr>"] exI [of _ R]
          exI [of _ wc] exI [of _ xs])
        (auto simp: consumer_move_def threads_rep_def Let_def consumer_holds_def taken_def)
  next
    case False
    let ?pc = "if (of_nat ?r :: cursor) = of_nat wc then C_Readable c else begin_take c (of_nat wc - of_nat ?r) :: 'a consumer_at"
    have "consumer_holds (cells s) ?r wc (loaded (writes s) W) xs ?pc \<and> touched ?pc = 0"
      using begin_take_holds(1) [OF d(7) sp(1) h, of "loaded (writes s) W" c]
        begin_take_holds(2) [OF d(7) sp(1) h, of c] h
      by (simp add: consumer_holds_def)
    with C_Ready False rep show ?thesis
      by (intro exI [of _ "s\<lparr>c_at := ?pc\<rparr>"] exI [of _ R] exI [of _ wc] exI [of _ xs])
        (simp add: consumer_move_def threads_rep_def Let_def)
  qed
qed

lemma consumer_readable:
  fixes s :: "'a threads"
  assumes rep: "threads_rep s R W rc wc xs" and C_Readable: "c_at s = C_Readable e"
  shows "\<exists>s' R' wc' ys. consumer_move tr k c s = ok s' \<and> threads_rep s' R' W rc wc' ys"
proof -
  let ?n = "length (cells s)" and ?r = "last R"
  note d = threads_repD [OF rep] and loc = consumer_facts(1-3) [OF rep] and ph = consumer_facts(4) [OF rep]
    and ch = consumer_facts(5) [OF rep] and sp = consumer_facts(6-8) [OF rep] and ix = consumer_facts(9) [OF rep]
  obtain j where j: "acquire k (writes s) = (of_nat (W ! j), (writes s)\<lparr>seen := j\<rparr>)"
    "channel_rep ((writes s)\<lparr>seen := j\<rparr>) ?n W (last W + filled (p_at s))"
    "loaded (writes s) W \<le> W ! j" "W ! j \<le> last W" "?r \<le> W ! j" "W ! j - ?r < 2 ^ 64"
    by (rule consumer_acquire [OF rep])
  note wj = j(5,6)
  from C_Readable have h: "held (cells s) ?r xs" using ch by (simp add: consumer_holds_def)
  let ?pc = "begin_take e (of_nat (W ! j) - of_nat ?r) :: 'a consumer_at"
  have "consumer_holds (cells s) ?r (W ! j) (W ! j) xs ?pc" "touched ?pc = 0"
    using begin_take_holds [OF wj h] by simp_all
  with C_Readable rep j wj loc(1) show ?thesis
    by (intro exI [of _ "s\<lparr>writes := (writes s)\<lparr>seen := j\<rparr>, w_cache := of_nat (W ! j), c_at := ?pc\<rparr>"]
        exI [of _ R] exI [of _ "W ! j"] exI [of _ xs])
      (simp add: consumer_move_def threads_rep_def Let_def)
qed

lemma consumer_assert:
  fixes s :: "'a threads"
  assumes rep: "threads_rep s R W rc wc xs" and C_Assert: "c_at s = C_Assert"
  shows "\<exists>s' R' wc' ys. consumer_move tr k c s = ok s' \<and> threads_rep s' R' W rc wc' ys"
proof -
  let ?n = "length (cells s)" and ?r = "last R"
  note d = threads_repD [OF rep] and loc = consumer_facts(1-3) [OF rep] and ph = consumer_facts(4) [OF rep]
    and ch = consumer_facts(5) [OF rep] and sp = consumer_facts(6-8) [OF rep] and ix = consumer_facts(9) [OF rep]
  obtain j where j: "acquire k (writes s) = (of_nat (W ! j), (writes s)\<lparr>seen := j\<rparr>)"
    "channel_rep ((writes s)\<lparr>seen := j\<rparr>) ?n W (last W + filled (p_at s))"
    "loaded (writes s) W \<le> W ! j" "W ! j \<le> last W" "?r \<le> W ! j" "W ! j - ?r < 2 ^ 64"
    by (rule consumer_acquire [OF rep])
  note wj = j(5,6)
  from C_Assert have h: "held (cells s) ?r xs" "?r < wc" using ch by (simp_all add: consumer_holds_def)
  have "of_nat (W ! j) - newest (reads s) \<noteq> 0"
    using cursor_eq_iff [OF wj] newest_rep [OF d(12)] h(2) j(3) d(8) by auto
  with C_Assert rep j h d(8) show ?thesis
    by (intro exI [of _ "s\<lparr>writes := (writes s)\<lparr>seen := j\<rparr>, c_at := C_Take 1 []\<rparr>"]
        exI [of _ R] exI [of _ wc] exI [of _ xs])
      (auto simp: consumer_move_def threads_rep_def Let_def consumer_holds_def taken_def)
qed

lemma consumer_take:
  fixes s :: "'a threads"
  assumes rep: "threads_rep s R W rc wc xs" and C_Take: "c_at s = C_Take n ys"
  shows "\<exists>s' R' wc' ys. consumer_move tr k c s = ok s' \<and> threads_rep s' R' W rc wc' ys"
proof -
  let ?n = "length (cells s)" and ?r = "last R"
  note d = threads_repD [OF rep] and loc = consumer_facts(1-3) [OF rep] and ph = consumer_facts(4) [OF rep]
    and ch = consumer_facts(5) [OF rep] and sp = consumer_facts(6-8) [OF rep] and ix = consumer_facts(9) [OF rep]
  from C_Take have t: "taken (cells s) ?r xs ys" "?r + length ys + n \<le> wc" using ch by (simp_all add: consumer_holds_def)
  show ?thesis
  proof (cases n)
    case 0
    obtain zs where zs: "xs = ys @ zs" "held (cells s) (?r + length ys) zs" using t(1) by (auto simp: taken_def)
    let ?v = "?r + length ys"
    have c1: "last R + touched (c_at s) = ?v" using C_Take by simp
    from publish_read_rep [OF rep c1] C_Take 0 rep zs t(2) loc show ?thesis
      by (intro exI [of _ "s\<lparr>r_local := of_nat ?v, reads := release (of_nat ?v) (reads s), c_at := C_Ready,
            removed := removed s @ ys\<rparr>"] exI [of _ "R @ [?v]"] exI [of _ wc] exI [of _ zs])
        (auto simp: consumer_move_def threads_rep_def Let_def consumer_holds_def)
  next
    case (Suc m)
    let ?p = "?r + length ys"
    have l: "length ys < length xs" "?p < loaded (writes s) W" using t(2) Suc d(4,8,9) by linarith+
    obtain x zs where x: "xs ! length ys = x" "read_cell (?p mod ?n) (cells s) = ok x"
      using taken_next [OF t(1) l(1) sp(2) d(2)] by metis
    obtain ch' where a: "access (?p mod ?n) (reads s) (writes s) = ok ch'"
      "channel_rep ch' ?n R (Suc ?p)" "seen ch' = seen (reads s)"
      using consumer_access [OF rep _ _ l(2)] C_Take by auto
    with C_Take Suc rep x t ix show ?thesis
      by (intro exI [of _ "s\<lparr>reads := ch', c_at := C_Drop m x ys\<rparr>"] exI [of _ R] exI [of _ wc] exI [of _ xs])
        (auto simp: consumer_move_def threads_rep_def Let_def consumer_holds_def)
  qed
qed

lemma consumer_drop:
  fixes s :: "'a threads"
  assumes rep: "threads_rep s R W rc wc xs" and C_Drop: "c_at s = C_Drop n x ys"
  shows "\<exists>s' R' wc' ys. consumer_move tr k c s = ok s' \<and> threads_rep s' R' W rc wc' ys"
proof -
  let ?n = "length (cells s)" and ?r = "last R"
  note d = threads_repD [OF rep] and loc = consumer_facts(1-3) [OF rep] and ph = consumer_facts(4) [OF rep]
    and ch = consumer_facts(5) [OF rep] and sp = consumer_facts(6-8) [OF rep] and ix = consumer_facts(9) [OF rep]
  let ?p = "?r + length ys"
  from C_Drop have t: "taken (cells s) ?r xs ys" "?p + Suc n \<le> wc" "xs ! length ys = x"
    using ch by (simp_all add: consumer_holds_def)
  have l: "length ys < length xs" "?p < loaded (writes s) W" using t(2) d(4,8,9) by linarith+
  obtain zs where z: "held (cells s) ?p (x # zs)"
    "\<And>triv. taken (drop_cell triv (?p mod ?n) (cells s)) ?r xs (ys @ [x])"
    using taken_next [OF t(1) l(1) sp(2) d(2)] t(3) by metis
  obtain ch' where a: "destroy_access tr (?p mod ?n) s =
      ok (s\<lparr>cells := drop_cell (destructible tr) (?p mod ?n) (cells s), reads := ch'\<rparr>)"
    "channel_rep ch' ?n R (Suc ?p)" "seen ch' = seen (reads s)"
    using destroy_access_ok [OF rep _ _ l(2) z(1)] C_Drop by auto
  have "producer_holds (drop_cell (destructible tr) (?p mod ?n) (cells s)) (last W) rc (p_at s)"
    using l(2) d(5,6,9) by (intro producer_holds_drop [OF ph]) linarith+
  with C_Drop rep t z a ix show ?thesis
    by (intro exI [of _ "s\<lparr>cells := drop_cell (destructible tr) (?p mod ?n) (cells s), reads := ch',
        c_at := C_Take n (ys @ [x])\<rparr>"] exI [of _ R] exI [of _ wc] exI [of _ xs])
      (auto simp: consumer_move_def threads_rep_def Let_def consumer_holds_def)
qed

lemma consumer_wipe:
  fixes s :: "'a threads"
  assumes rep: "threads_rep s R W rc wc xs" and C_Wipe: "c_at s = C_Wipe e ys"
  shows "\<exists>s' R' wc' ys. consumer_move tr k c s = ok s' \<and> threads_rep s' R' W rc wc' ys"
proof -
  let ?n = "length (cells s)" and ?r = "last R"
  note d = threads_repD [OF rep] and loc = consumer_facts(1-3) [OF rep] and ph = consumer_facts(4) [OF rep]
    and ch = consumer_facts(5) [OF rep] and sp = consumer_facts(6-8) [OF rep] and ix = consumer_facts(9) [OF rep]
  let ?p = "?r + length ys"
  from C_Wipe obtain m where t: "taken (cells s) ?r xs ys" "?p \<le> m" "e = of_nat m" "m \<le> loaded (writes s) W"
    using ch by (auto simp: consumer_holds_def)
  have "m - ?p < 2 ^ 64" using t(4) sp(3) by linarith
  from cursor_eq_iff [OF t(2) this] have e: "r_local s + of_nat (length ys) = e \<longleftrightarrow> ?p = m" using loc(1) t(3) by simp
  show ?thesis
  proof (cases "?p = m")
    case True
    obtain zs where zs: "xs = ys @ zs" "held (cells s) m zs" using t(1) True by (auto simp: taken_def)
    have c1: "last R + touched (c_at s) = m" using C_Wipe True by simp
    from publish_read_rep [OF rep c1] C_Wipe True e rep zs t loc show ?thesis
      by (intro exI [of _ "s\<lparr>w_cache := e, r_local := e, reads := release e (reads s), c_at := C_Ready,
            removed := removed s @ ys\<rparr>"] exI [of _ "R @ [m]"] exI [of _ m] exI [of _ zs])
        (auto simp: consumer_move_def threads_rep_def Let_def consumer_holds_def)
  next
    case False
    have l: "length ys < length xs" "?p < loaded (writes s) W" using False t(2,4) d(4,9) by linarith+
    obtain x zs where z: "held (cells s) ?p (x # zs)" "read_cell (?p mod ?n) (cells s) = ok x"
      "\<And>triv. taken (drop_cell triv (?p mod ?n) (cells s)) ?r xs (ys @ [x])"
      using taken_next [OF t(1) l(1) sp(2) d(2)] by metis
    obtain ch' where a: "destroy_access tr (?p mod ?n) s =
        ok (s\<lparr>cells := drop_cell (destructible tr) (?p mod ?n) (cells s), reads := ch'\<rparr>)"
      "channel_rep ch' ?n R (Suc ?p)" "seen ch' = seen (reads s)"
      using destroy_access_ok [OF rep _ _ l(2) z(1)] C_Wipe by auto
    have "producer_holds (drop_cell (destructible tr) (?p mod ?n) (cells s)) (last W) rc (p_at s)"
      using l(2) d(5,6,9) by (intro producer_holds_drop [OF ph]) linarith+
    moreover have "\<exists>m' \<le> loaded (writes s) W. Suc ?p \<le> m' \<and> e = of_nat m'" using t False by (metis Suc_leI le_neq_implies_less)
    ultimately show ?thesis using C_Wipe False e rep z a ix
      by (intro exI [of _ "s\<lparr>cells := drop_cell (destructible tr) (?p mod ?n) (cells s), reads := ch',
          c_at := C_Wipe e (ys @ [x])\<rparr>"] exI [of _ R] exI [of _ wc] exI [of _ xs])
        (auto simp: consumer_move_def threads_rep_def Let_def consumer_holds_def)
  qed
qed

lemma consumer_move_preserves:
  fixes s :: "'a threads"
  assumes rep: "threads_rep s R W rc wc xs"
  shows "\<exists>s' R' wc' ys. consumer_move tr k c s = ok s' \<and> threads_rep s' R' W rc wc' ys"
  by (cases "c_at s") (rule consumer_ready [OF rep] consumer_readable [OF rep] consumer_assert [OF rep]
    consumer_take [OF rep] consumer_drop [OF rep] consumer_wipe [OF rep], assumption)+

end
