(* ===== verification/Spsc_Weak_Calls.thy ===== *)
theory Spsc_Weak_Calls
  imports Spsc_Weak_Correct
begin

text \<open>
  The reachable states of \<open>Spsc_Weak\<close>, and its steps put together again: when one thread runs alone and
  loads the newest cursors, its steps from call to call are the operations of \<open>Spsc_Queue\<close>.
\<close>

section \<open>Reachable states\<close>

lemma sizes_preserve:
  assumes "threads_rep s R W rc wc xs"
  shows "\<exists>m s'. producer_size k s = (of_nat m, s') \<and> threads_rep s' R W rc wc xs \<and>
      length xs \<le> m \<and> m \<le> length (cells s)"
    and "c_at s = C_Ready \<Longrightarrow> \<exists>m s'. consumer_size k s = (of_nat m, s') \<and> threads_rep s' R W rc wc xs \<and> m \<le> length xs"
proof -
  note d = threads_repD [OF assms]
  obtain i where i: "acquire k (reads s) = (of_nat (R ! i), (reads s)\<lparr>seen := i\<rparr>)"
    "channel_rep ((reads s)\<lparr>seen := i\<rparr>) (length (cells s)) R (last R + touched (c_at s))"
    "loaded (reads s) R \<le> R ! i" "R ! i \<le> last R" by (rule acquire_rep [OF d(12)])
  have "newest (writes s) - of_nat (R ! i) = of_nat (last W - R ! i)"
    using newest_rep [OF d(11)] i(4) d(4) by (simp add: of_nat_diff)
  moreover have "length xs \<le> last W - R ! i" "last W - R ! i \<le> length (cells s)" using d(4-10) i(3,4) by linarith+
  ultimately show "\<exists>m s'. producer_size k s = (of_nat m, s') \<and> threads_rep s' R W rc wc xs \<and>
      length xs \<le> m \<and> m \<le> length (cells s)"
    using i assms
    by (intro exI [of _ "last W - R ! i"] exI [of _ "s\<lparr>reads := (reads s)\<lparr>seen := i\<rparr>\<rparr>"])
      (simp add: producer_size_def threads_rep_def Let_def)
  obtain j where j: "acquire k (writes s) = (of_nat (W ! j), (writes s)\<lparr>seen := j\<rparr>)"
    "channel_rep ((writes s)\<lparr>seen := j\<rparr>) (length (cells s)) W (last W + filled (p_at s))"
    "loaded (writes s) W \<le> W ! j" "W ! j \<le> last W" by (rule acquire_rep [OF d(11)])
  have "of_nat (W ! j) - newest (reads s) = of_nat (W ! j - last R)"
    using newest_rep [OF d(12)] j(3) d(7,8) by (simp add: of_nat_diff)
  moreover have "W ! j - last R \<le> length xs" using d(4) j(4) by linarith
  moreover assume "c_at s = C_Ready"
  ultimately show "\<exists>m s'. consumer_size k s = (of_nat m, s') \<and> threads_rep s' R W rc wc xs \<and> m \<le> length xs"
    using j assms
    by (intro exI [of _ "W ! j - last R"] exI [of _ "s\<lparr>writes := (writes s)\<lparr>seen := j\<rparr>\<rparr>"])
      (auto simp: consumer_size_def threads_rep_def Let_def consumer_holds_def)
qed

lemma executes_rep:
  assumes "executes tr start s" "threads_rep start R W rc wc xs"
  shows "\<exists>R W rc wc xs. threads_rep s R W rc wc xs"
  using assms
proof (induction rule: executes.induct)
  case (ex_produce s c k s')
  from ex_produce.IH [OF ex_produce.prems] obtain R W rc wc xs where "threads_rep s R W rc wc xs" by blast
  from producer_move_preserves [OF this ex_produce.hyps(2) moved_fits [OF ex_produce.hyps(3)], of tr k] ex_produce.hyps(3)
  show ?case by fastforce
next
  case (ex_consume s k d s')
  then show ?case using consumer_move_preserves [of s _ _ _ _ _ tr k d] by fastforce
next
  case (ex_producer_size s k n s')
  then show ?case using sizes_preserve(1) [of s _ _ _ _ _ k] by fastforce
next
  case (ex_consumer_size s k n s')
  then show ?case using sizes_preserve(2) [of s _ _ _ _ _ k] by fastforce
qed blast

lemma move_cells_length:
  "producer_move tr k c s = ok s' \<Longrightarrow> length (cells s') = length (cells s)"
  "consumer_move tr k d s = ok s' \<Longrightarrow> length (cells s') = length (cells s)"
  "producer_size k s = (n, s') \<Longrightarrow> length (cells s') = length (cells s)"
  "consumer_size k s = (n, s') \<Longrightarrow> length (cells s') = length (cells s)"
  by (auto simp: producer_move_def consumer_move_def producer_size_def consumer_size_def Let_def chain_eq_ok
      construct_at_def destroy_at_def destroy_access_def
      split: producer_at.splits consumer_at.splits if_splits prod.splits nat.splits)

lemma executes_cells: "executes tr start s \<Longrightarrow> length (cells s) = length (cells start)"
  by (induction rule: executes.induct) (simp_all add: move_cells_length)

lemma executes_new:
  assumes "power_of_two N" "executes tr (threads_new c N) s"
  shows "\<exists>R W rc wc xs. threads_rep s R W rc wc xs" "length (cells s) = N"
  using executes_rep [OF assms(2) threads_new_rep [OF assms(1)]] executes_cells [OF assms(2)]
  by (simp_all add: threads_new_def)

text \<open>Only a batch of trivially copyable elements is copied, so only it can overrun its source.\<close>

lemma producer_move_copies:
  "producer_move tr k c s = ok s' \<Longrightarrow> p_at s' = P_Copy xs \<Longrightarrow> copyable tr \<or> p_at s = P_Copy xs"
proof -
  have "admit tr d = P_Copy xs \<Longrightarrow> copyable tr" for d by (cases d) (auto split: if_splits)
  then show "producer_move tr k c s = ok s' \<Longrightarrow> p_at s' = P_Copy xs \<Longrightarrow> copyable tr \<or> p_at s = P_Copy xs"
    by (auto simp: producer_move_def Let_def chain_eq_ok split: producer_at.splits if_splits prod.splits)
qed

lemma other_moves_p_at:
  "consumer_move tr k d s = ok s' \<Longrightarrow> p_at s' = p_at s"
  "producer_size k s = (n, s') \<Longrightarrow> p_at s' = p_at s"
  "consumer_size k s = (n, s') \<Longrightarrow> p_at s' = p_at s"
  by (auto simp: consumer_move_def producer_size_def consumer_size_def Let_def chain_eq_ok destroy_access_def
      split: consumer_at.splits if_splits prod.splits nat.splits)

lemma executes_copies:
  assumes "executes tr (threads_new c N) s" "overruns s"
  shows "copyable tr"
proof -
  have "p_at s = P_Copy xs \<Longrightarrow> copyable tr" for xs
    using assms(1)
  proof (induction arbitrary: xs rule: executes.induct)
    case ex_start
    then show ?case by (simp add: threads_new_def)
  qed (auto simp: other_moves_p_at dest: producer_move_copies)
  with assms(2) show ?thesis by (auto simp: overruns_def split: producer_at.splits)
qed

section \<open>Undisturbed calls\<close>

text \<open>The queue object, with the newest value of each atomic.\<close>

definition as_queue :: "'a threads \<Rightarrow> 'a spsc_queue" where
  "as_queue s = \<lparr>storage = cells s, read_position = newest (reads s), read_position_local = r_local s,
     write_position_cache = w_cache s, write_position = newest (writes s), write_position_local = w_local s,
     read_position_cache = r_cache s\<rparr>"

fun call_put :: "traits \<Rightarrow> 'a put \<Rightarrow> 'a spsc_queue \<Rightarrow> (bool \<times> 'a spsc_queue) run" where
  "call_put tr (Put_One x) = try_emplace x"
| "call_put tr (Put_Range xs) = try_emplace_range tr xs"

lemma access_stores: "access i mine other = ok ch \<Longrightarrow> stores ch = stores mine"
  by (auto simp: access_def split: if_splits)

lemma newest_release [simp]: "newest (release c ch) = c"
  by (simp add: newest_def release_def)

text \<open>A batch is written by the loop over its elements, or by the two \<open>memcpy\<close>: the same cells.\<close>

lemma construct_from_append:
  "construct_from pos (xs @ ys) st = chain (construct_from pos xs st) (construct_from (pos + of_nat (length xs)) ys)"
proof (induction xs arbitrary: pos st)
  case (Cons x xs)
  show ?case by (simp add: chain_assoc ext [OF Cons.IH] add.assoc)
qed simp

lemma construct_from_run:
  assumes "power_of_two (length st)" "r mod length st + length ys \<le> length st"
  shows "construct_from (of_nat r) ys st =
    ok (take (r mod length st) st @ map Some ys @ drop (r mod length st + length ys) st)"
  using assms
proof (induction ys arbitrary: r st)
  case (Cons y ys)
  let ?n = "length st" and ?k = "r mod length st"
  have k: "?k < ?n" using Cons.prems(2) by simp
  have c: "construct_at (masked ?n (of_nat r)) y st = ok (st[?k := Some y])"
    using k masked_of_nat [OF Cons.prems(1), of r] by (simp add: construct_at_def)
  have nx: "of_nat r + 1 = (of_nat (Suc r) :: cursor)" by simp
  show ?case
  proof (cases ys)
    case Nil
    with c k show ?thesis by (simp add: upd_conv_take_nth_drop)
  next
    case (Cons z zs)
    then have "Suc ?k < ?n" using Cons.prems(2) by simp
    then have m: "Suc r mod ?n = Suc ?k" by (simp add: mod_Suc)
    have "construct_from (of_nat (Suc r)) ys (st[?k := Some y]) =
        ok (take (Suc ?k) (st[?k := Some y]) @ map Some ys @ drop (Suc ?k + length ys) (st[?k := Some y]))"
      using Cons.IH [of "st[?k := Some y]" "Suc r"] Cons.prems m by simp
    then show ?thesis using c k by (simp add: nx take_Suc_conv_app_nth)
  qed
qed simp

lemma copy_is_construct:
  assumes p: "power_of_two (length st)" and le: "length xs \<le> length st"
    and src: "copy_source (length st) (r mod length st) xs = ok ys"
  defines "first \<equiv> min (length xs) (length st - r mod length st)"
  shows "chain (memcpy_in (r mod length st) xs first first st) (\<lambda>st1.
      if first < length xs then memcpy_in 0 xs first (length xs - first) st1 else ok st1) = construct_from (of_nat r) ys st"
proof -
  let ?n = "length st" and ?k = "r mod length st"
  have pos: "?k < ?n" using power_of_two_bounds [OF p] by simp
  define as bs st1 where "as = take first (drop first xs)" and "bs = take (length xs - first) (drop first xs)"
    and "st1 = take ?k st @ map Some as @ drop (?k + first) st"
  have f: "first + first \<le> length xs" and ys: "ys = as @ bs"
    using src by (auto simp: copy_source_def first_def as_def bs_def Let_def split: if_splits)
  have la: "length as = first" "length bs = length xs - first" using f by (simp_all add: as_def bs_def)
  have fk: "?k + first \<le> ?n" using pos by (simp add: first_def)
  have m1: "memcpy_in ?k xs first first st = ok st1" using f fk by (simp add: memcpy_in_def st1_def as_def)
  have c1: "construct_from (of_nat r) as st = ok st1"
    using construct_from_run [OF p, of r as] fk la(1) by (simp add: st1_def)
  have ls: "length st1 = ?n" using fk pos la by (simp add: st1_def)
  show ?thesis
  proof (cases "first < length xs")
    case False
    then have "bs = []" using la(2) by simp
    with False show ?thesis unfolding ys m1 by (simp add: c1)
  next
    case True
    then have "?k + first = ?n" using pos by (simp add: first_def)
    then have z: "(r + first) mod ?n = 0" by (metis mod_add_left_eq mod_self)
    have c: "construct_from (of_nat (r + first)) bs st1 = ok (map Some bs @ drop (length bs) st1)"
      using construct_from_run [of st1 "r + first" bs] p ls z le la(2) by simp
    have m: "memcpy_in 0 xs first (length xs - first) st1 = ok (map Some bs @ drop (length bs) st1)"
      unfolding memcpy_in_def bs_def [symmetric] la(2) ls using f le by simp
    have "construct_from (of_nat r) ys st = construct_from (of_nat (r + first)) bs st1"
      unfolding ys construct_from_append c1 by (simp add: la(1))
    then show ?thesis unfolding m1 c using True m by simp
  qed
qed

lemma solo_fill:
  assumes "threads_rep s R W rc wc xs" "p_at s = P_Fill ys i" "length (items e) < 2 ^ 64"
  shows "\<exists>s' st. solo (producer_move tr k e) (Suc (length ys - i)) s = ok s' \<and>
    construct_from (w_local s + of_nat i) (drop i ys) (cells s) = ok st \<and>
    as_queue s' = publish_write (w_local s + of_nat (length ys)) ((as_queue s)\<lparr>storage := st\<rparr>) \<and>
    p_at s' = P_Ready \<and> stored s' = stored s @ ys"
  using assms(1,2)
proof (induction "length ys - i" arbitrary: s i xs rc W)
  case 0
  have "i \<le> length ys" using 0(2,3) by (simp add: threads_rep_def Let_def producer_holds_def)
  with 0(1,3) show ?case
    by (simp add: producer_move_def Let_def as_queue_def publish_write_def)
next
  case (Suc m)
  then have i: "i < length ys" by simp
  obtain s1 W1 rc1 zs where s1: "producer_move tr k e s = ok s1" "threads_rep s1 R W1 rc1 wc (xs @ zs)"
    using producer_move_preserves [OF Suc.prems(1) assms(3), of tr k] Suc.prems(2) by (auto simp: overruns_def)
  let ?cell = "masked (length (cells s)) (w_local s + of_nat i)"
  from s1(1) i Suc.prems(2) obtain ch st1 where a: "access ?cell (writes s) (reads s) = ok ch"
    "construct_at ?cell (ys ! i) (cells s) = ok st1" "s1 = s\<lparr>cells := st1, writes := ch, p_at := P_Fill ys (Suc i)\<rparr>"
    by (auto simp: producer_move_def Let_def chain_eq_ok)
  have q: "as_queue s1 = (as_queue s)\<lparr>storage := st1\<rparr>" "length st1 = length (cells s)"
    using access_stores [OF a(1)] a(2,3) by (auto simp: as_queue_def newest_def construct_at_def split: if_splits)
  have "m = length ys - Suc i" "p_at s1 = P_Fill ys (Suc i)" using Suc.hyps(2) a(3) by simp_all
  from Suc.hyps(1) [OF this(1) s1(2) this(2)] obtain s' st where
    "solo (producer_move tr k e) (Suc (length ys - Suc i)) s1 = ok s'"
    "construct_from (w_local s1 + of_nat (Suc i)) (drop (Suc i) ys) (cells s1) = ok st"
    "as_queue s' = publish_write (w_local s1 + of_nat (length ys)) ((as_queue s1)\<lparr>storage := st\<rparr>)"
    "p_at s' = P_Ready" "stored s' = stored s1 @ ys" by blast
  moreover have "drop i ys = ys ! i # drop (Suc i) ys" using i by (simp add: Cons_nth_drop_Suc)
  moreover have "Suc (length ys - i) = Suc (Suc (length ys - Suc i))" using i by simp
  ultimately show ?case using s1(1) a q by (simp add: ac_simps)
qed

text \<open>The elements a call writes once it is admitted, unless it reads past the end of its range.\<close>

definition written :: "traits \<Rightarrow> 'a threads \<Rightarrow> 'a put \<Rightarrow> 'a list run" where
  "written tr s d = (case d of
     Put_One x \<Rightarrow> ok [x]
   | Put_Range xs \<Rightarrow>
       if copyable tr then copy_source (length (cells s)) (masked (length (cells s)) (w_local s)) xs else ok xs)"

lemma copy_source_cases:
  obtains ys where "copy_source n i xs = ok ys" "length ys = length xs" | "copy_source n i xs = abort Bad_Index"
  by (cases "copy_source n i xs = abort Bad_Index") (auto simp: copy_source_def Let_def split: if_splits)

lemma written_cases:
  obtains zs where "written tr s d = ok zs" "length zs = length (items d)" | "written tr s d = abort Bad_Index"
proof (cases d)
  case (Put_One x)
  then show thesis using that(1) [of "[x]"] by (simp add: written_def)
next
  case (Put_Range xs)
  show thesis
    by (rule copy_source_cases [of "length (cells s)" "masked (length (cells s)) (w_local s)" xs])
      (use Put_Range that in \<open>cases "copyable tr"; simp add: written_def\<close>)+
qed

lemma written_cong: "length (cells t) = length (cells s) \<Longrightarrow> w_local t = w_local s \<Longrightarrow> written tr t d = written tr s d"
  by (cases d) (simp_all add: written_def)

text \<open>Once a call is admitted, its steps write these elements and publish them, or fail where it does.\<close>

lemma solo_admitted:
  assumes rep: "threads_rep s R W rc wc xs" and p: "p_at s = admit tr d" and e: "length (items e) < 2 ^ 64"
    and k: "length R \<le> k" and w: "written tr s d = ok zs"
  shows "\<exists>n s' st. solo (producer_move tr k e) n s = ok s' \<and> construct_from (w_local s) zs (cells s) = ok st \<and>
    as_queue s' = publish_write (w_local s + of_nat (length zs)) ((as_queue s)\<lparr>storage := st\<rparr>) \<and>
    p_at s' = P_Ready \<and> stored s' = stored s @ zs \<and> (\<forall>x. d = Put_One x \<longrightarrow> \<not> is_full (as_queue s))"
proof -
  have step: ?thesis if m: "producer_move tr k e s = ok s1" "p_at s1 = P_Fill zs 0" "as_queue s1 = as_queue s"
    and same: "stored s1 = stored s" and full: "\<forall>x. d = Put_One x \<longrightarrow> \<not> is_full (as_queue s)" for s1
  proof -
    obtain W1 rc1 ys where r1: "threads_rep s1 R W1 rc1 wc (xs @ ys)"
      using producer_move_preserves [OF rep e moved_fits [OF m(1)], of tr k] m(1) by auto
    have q: "w_local s1 = w_local s" "cells s1 = cells s"
      using m(3) by (simp_all add: as_queue_def)
    from solo_fill [OF r1 m(2) e, of tr k] obtain s' st where "solo (producer_move tr k e) (Suc (length zs)) s1 = ok s'"
      "construct_from (w_local s) zs (cells s) = ok st"
      "as_queue s' = publish_write (w_local s + of_nat (length zs)) ((as_queue s)\<lparr>storage := st\<rparr>)"
      "p_at s' = P_Ready" "stored s' = stored s @ zs" using q m(3) same by auto
    with m(1) full show ?thesis
      by (intro exI [of _ "Suc (Suc (length zs))"] exI [of _ s'] exI [of _ st]) simp
  qed
  show ?thesis
  proof (cases d)
    case (Put_One x)
    have "\<not> overruns s" using p Put_One by (simp add: overruns_def)
    from producer_move_preserves [OF rep e this, of tr k] obtain s1 where s1: "producer_move tr k e s = ok s1" by blast
    then have n: "newest (writes s) - newest (reads s) \<noteq> of_nat (length (cells s))"
      and e1: "s1 = s\<lparr>reads := (reads s)\<lparr>seen := length R - 1\<rparr>, p_at := P_Fill [x] 0\<rparr>"
      using p Put_One acquire_newest [OF threads_repD(12) [OF rep] k] by (auto simp: producer_move_def split: if_splits)
    have "\<not> is_full (as_queue s)" using n by (simp add: is_full_def size_def as_queue_def)
    then show ?thesis using w Put_One e1 by (intro step [OF s1]) (auto simp: written_def as_queue_def newest_def)
  next
    case (Put_Range ys)
    show ?thesis
    proof (cases "copyable tr")
      case True
      then have "producer_move tr k e s = ok (s\<lparr>p_at := P_Fill zs 0\<rparr>)"
        using p w Put_Range by (simp add: producer_move_def written_def)
      from step [OF this] Put_Range show ?thesis by (simp add: as_queue_def)
    next
      case False
      then have "p_at s = P_Fill zs 0" using p w Put_Range by (simp add: written_def)
      from solo_fill [OF rep this e, of tr k] Put_Range show ?thesis by fastforce
    qed
  qed
qed

lemma solo_overrun:
  assumes p: "p_at s = admit tr d" and w: "written tr s d = abort Bad_Index"
  shows "solo (producer_move tr k e) (Suc 0) s = abort Bad_Index"
  using assms by (cases d) (auto simp: written_def producer_move_def split: if_splits)

text \<open>The call on the queue object, by the room check of its two forms.\<close>

lemma admitted_fits:
  assumes "threads_rep t R W rc wc xs" "p_at t = admit tr d"
  shows "length (items d) \<le> length (cells t)" "w_local t = of_nat (last W)" "power_of_two (length (cells t))"
proof -
  have "last W + length (items d) \<le> rc + length (cells t)"
    using producer_facts(4) [OF assms(1)] assms(2) by (cases d) (auto simp: producer_holds_def split: if_splits)
  then show "length (items d) \<le> length (cells t)" using producer_facts(6) [OF assms(1)] by linarith
qed (use producer_facts(1) [OF assms(1)] threads_repD(1) [OF assms(1)] in simp_all)

lemma call_put_admitted:
  assumes rep: "threads_rep t R W rc wc xs" and p: "p_at t = admit tr d" and w: "w_local t = w_local s"
    and room: "has_room (of_nat (length (items d))) (as_queue s) = (True, as_queue t)"
    and zs: "written tr t d = ok zs" "construct_from (w_local t) zs (cells t) = ok st"
    and full: "\<forall>x. d = Put_One x \<longrightarrow> \<not> is_full (as_queue t)"
  shows "call_put tr d (as_queue s) = ok (True, publish_write (w_local t + of_nat (length zs)) ((as_queue t)\<lparr>storage := st\<rparr>))"
proof -
  note f = admitted_fits [OF rep p]
  have q: "write_position_local (as_queue s) = w_local t" "storage (as_queue t) = cells t" using w by (simp_all add: as_queue_def)
  show ?thesis
  proof (cases d)
    case (Put_One x)
    then have "construct_at (calculate_index (as_queue t) (w_local t)) x (cells t) = ok st" "length zs = 1"
      using zs q(2) by (auto simp: written_def chain_eq_ok calculate_index_def)
    with Put_One room full q show ?thesis by (simp add: try_emplace_def)
  next
    case (Put_Range ys)
    have l: "length zs = length ys"
      using zs(1) Put_Range by (auto simp: written_def copy_source_def Let_def split: if_splits)
    show ?thesis
    proof (cases "copyable tr")
      case True
      have "length ys < 2 ^ 64" using f(1) threads_repD(3) [OF rep] Put_Range by simp
      then have u: "unat (of_nat (length ys) :: cursor) = length ys" by (rule unat_cursor)
      have i: "masked (length (cells t)) (w_local t) = last W mod length (cells t)"
        using masked_of_nat [OF f(3), of "last W"] f(2) by simp
      have "copy_source (length (cells t)) (last W mod length (cells t)) ys = ok zs"
        using zs(1) True Put_Range i by (simp add: written_def)
      from copy_is_construct [OF f(3) _ this] f(1,2) zs(2) Put_Range
      have c: "chain (memcpy_in (last W mod length (cells t)) ys (min (length ys) (length (cells t) - last W mod length (cells t)))
          (min (length ys) (length (cells t) - last W mod length (cells t))) (cells t)) (\<lambda>st1.
          if min (length ys) (length (cells t) - last W mod length (cells t)) < length ys
          then memcpy_in 0 ys (min (length ys) (length (cells t) - last W mod length (cells t)))
            (length ys - min (length ys) (length (cells t) - last W mod length (cells t))) st1 else ok st1) = ok st" by simp
      show ?thesis using room Put_Range True q l
        by (simp only: call_put.simps try_emplace_range_def Let_def items.simps prod.case if_True not_True_eq_False
            if_False u calculate_index_def i c chain.simps)
    next
      case False
      with zs Put_Range have "zs = ys" by (simp add: written_def)
      with False zs(2) Put_Range room q show ?thesis by (simp add: try_emplace_range_def Let_def)
    qed
  qed
qed

lemma call_put_overrun:
  assumes rep: "threads_rep t R W rc wc xs" and p: "p_at t = admit tr d" and w: "w_local t = w_local s"
    and room: "has_room (of_nat (length (items d))) (as_queue s) = (True, as_queue t)"
    and zs: "written tr t d = abort Bad_Index"
  shows "call_put tr d (as_queue s) = abort Bad_Index"
proof -
  obtain ys where d: "d = Put_Range ys" "copyable tr"
    "copy_source (length (cells t)) (masked (length (cells t)) (w_local t)) ys = abort Bad_Index"
    using zs by (cases d) (auto simp: written_def split: if_splits)
  have "length ys < 2 ^ 64" using admitted_fits(1) [OF rep p] threads_repD(3) [OF rep] d(1) by simp
  then have u: "unat (of_nat (length ys) :: cursor) = length ys" by (rule unat_cursor)
  have "memcpy_in (masked (length (cells t)) (w_local t)) ys k k st = abort Bad_Index"
    if "k = min (length ys) (length (cells t) - masked (length (cells t)) (w_local t))" for k st
    using d(3) that by (auto simp: copy_source_def memcpy_in_def Let_def split: if_splits)
  with room d(1,2) w u show ?thesis
    by (simp add: try_emplace_range_def Let_def calculate_index_def as_queue_def)
qed

lemma call_put_refused:
  assumes "has_room (of_nat (length (items d))) (as_queue s) = (False, q1)"
  shows "call_put tr d (as_queue s) = ok (False, q1)"
  using assms by (cases d) (simp_all add: try_emplace_def try_emplace_range_def Let_def)

lemma has_room_threads:
  "has_room (of_nat (length (items d))) (as_queue s) =
    (if room_for d s then (True, as_queue s)
     else (room_for d (s\<lparr>r_cache := newest (reads s)\<rparr>), as_queue (s\<lparr>r_cache := newest (reads s)\<rparr>)))"
  by (auto simp: has_room_def Let_def room_for_def free_slots_def as_queue_def)

text \<open>
  A whole call of the producer alone, from the state \<open>t\<close> its steps have reached: the steps and the
  call end in the same queue and answer, or both read past the end of the batch.
\<close>

definition put_done :: "traits \<Rightarrow> nat \<Rightarrow> 'a put \<Rightarrow> 'a threads \<Rightarrow> 'a threads \<Rightarrow> bool" where
  "put_done tr k d s t \<longleftrightarrow>
     (\<exists>n s' b zs. solo (producer_move tr k d) n t = ok s' \<and> call_put tr d (as_queue s) = ok (b, as_queue s') \<and>
        p_at s' = P_Ready \<and> stored s' = stored s @ zs \<and> (if b then written tr s d = ok zs else zs = [])) \<or>
     (\<exists>n. solo (producer_move tr k d) n t = abort Bad_Index \<and> call_put tr d (as_queue s) = abort Bad_Index)"

lemma put_done_step:
  assumes "producer_move tr k d t = ok u" "put_done tr k d s u"
  shows "put_done tr k d s t"
proof -
  have more: "\<exists>m. solo (producer_move tr k d) m t = r" if "solo (producer_move tr k d) n u = r" for n r
    using assms(1) that by (intro exI [of _ "Suc n"]) simp
  from assms(2) show ?thesis unfolding put_done_def by (elim disjE exE conjE) (drule more, blast)+
qed

lemma solo_admitted_call:
  assumes rep: "threads_rep t R W rc wc xs" and p: "p_at t = admit tr d" and e: "length (items d) < 2 ^ 64"
    and k: "length R \<le> k" and room: "has_room (of_nat (length (items d))) (as_queue s) = (True, as_queue t)"
    and same: "w_local t = w_local s" "cells t = cells s" "stored t = stored s"
  shows "put_done tr k d s t"
proof (rule written_cases [of tr t d])
  fix zs
  assume w: "written tr t d = ok zs" "length zs = length (items d)"
  obtain n s' st where n: "solo (producer_move tr k d) n t = ok s'" "construct_from (w_local t) zs (cells t) = ok st"
    "as_queue s' = publish_write (w_local t + of_nat (length zs)) ((as_queue t)\<lparr>storage := st\<rparr>)"
    "p_at s' = P_Ready" "stored s' = stored t @ zs" "\<forall>x. d = Put_One x \<longrightarrow> \<not> is_full (as_queue t)"
    using solo_admitted [OF rep p e k w(1)] by blast
  have "call_put tr d (as_queue s) = ok (True, as_queue s')"
    unfolding n(3) by (rule call_put_admitted [OF rep p same(1) room w(1) n(2,6)])
  with n(1,4,5) w same show ?thesis
    unfolding put_done_def using written_cong [of t s tr d] by (intro disjI1 exI [of _ n] exI [of _ s'] exI [of _ True] exI [of _ zs]) simp
next
  assume "written tr t d = abort Bad_Index"
  with solo_overrun [OF p this] call_put_overrun [OF rep p same(1) room this] show ?thesis
    unfolding put_done_def by blast
qed

text \<open>A call with room by the cached cursor; without, two steps reload the cursor and decide.\<close>

lemma solo_put_call:
  assumes rep: "threads_rep s R W rc wc xs" and ready: "p_at s = P_Ready" and e: "length (items d) < 2 ^ 64"
    and k: "length R \<le> k"
  shows "put_done tr k d s s"
proof -
  have fit: "\<not> overruns s" using ready by (simp add: overruns_def)
  obtain t W1 rc1 ys where t: "producer_move tr k d s = ok t" "threads_rep t R W1 rc1 wc (xs @ ys)"
    using producer_move_preserves [OF rep e fit] by blast
  have et: "t = answer_room tr d (P_Recheck d) s" using t(1) ready by (simp add: producer_move_def)
  have "put_done tr k d s t"
  proof (cases "room_for d s")
    case True
    then show ?thesis using et has_room_threads [of d s]
      by (intro solo_admitted_call [OF t(2) _ e k]) (simp_all add: as_queue_def)
  next
    case full: False
    then have et: "t = s\<lparr>p_at := P_Recheck d\<rparr>" using et by (simp add: answer_room_def)
    then have fit1: "\<not> overruns t" by (simp add: overruns_def)
    obtain u W2 rc2 zs where u: "producer_move tr k d t = ok u" "threads_rep u R W2 rc2 wc ((xs @ ys) @ zs)"
      using producer_move_preserves [OF t(2) e fit1] by blast
    let ?room = "room_for d (s\<lparr>r_cache := newest (reads s)\<rparr>)"
    have eu: "u = t\<lparr>reads := (reads s)\<lparr>seen := length R - 1\<rparr>, r_cache := newest (reads s),
        p_at := if ?room then admit tr d else P_Ready, accepted := accepted s @ (if ?room then [d] else [])\<rparr>"
      using u(1) et full acquire_newest [OF threads_repD(12) [OF rep] k]
      by (auto simp: producer_move_def answer_room_def room_for_def)
    have h: "has_room (of_nat (length (items d))) (as_queue s) = (?room, as_queue u)"
      using has_room_threads [of d s] full et eu by (simp add: as_queue_def newest_def)
    have "put_done tr k d s u"
    proof (cases ?room)
      case True
      then show ?thesis using h et eu by (intro solo_admitted_call [OF u(2) _ e k]) simp_all
    next
      case False
      then have "call_put tr d (as_queue s) = ok (False, as_queue u)" using call_put_refused h by simp
      moreover have "solo (producer_move tr k d) 0 u = ok u" by simp
      ultimately show ?thesis unfolding put_done_def using False et eu
        by (intro disjI1 exI [of _ 0] exI [of _ u] exI [of _ False] exI [of _ "[]"]) simp
    qed
    with u(1) show ?thesis by (rule put_done_step)
  qed
  with t(1) show ?thesis by (rule put_done_step)
qed

text \<open>The consumer's calls, with the elements they deliver. (\<open>clear\<close> delivers none.)\<close>

definition collect :: "'a \<Rightarrow> 'a list \<Rightarrow> 'a list" where
  "collect x ys = ys @ [x]"

fun call_take :: "traits \<Rightarrow> take \<Rightarrow> 'a spsc_queue \<Rightarrow> ('a list \<times> 'a spsc_queue) run" where
  "call_take tr Take_One q =
     chain (try_dequeue tr q) (\<lambda>(r, q'). ok (case r of None \<Rightarrow> [] | Some x \<Rightarrow> [x], q'))"
| "call_take tr (Take_Up_To limit) q =
     chain (consume_up_to tr (unat limit) collect [] q) (\<lambda>(n, ys, q'). ok (ys, q'))"
| "call_take tr Take_All q = chain (consume_all tr collect [] q) (\<lambda>(n, ys, q'). ok (ys, q'))"
| "call_take tr Clear_All q = chain (clear tr q) (\<lambda>q'. ok ([], q'))"

text \<open>
  \<open>try_dequeue_range\<close> is \<open>consume_up_to\<close> with a callback that stores the element in the buffer, in the
  loop and in the \<open>memcpy\<close> branch.
\<close>

lemma consume_trivial:
  assumes "consume_cells True collect n (of_nat r) acc st = ok (p, zs, st')" "power_of_two (length st)"
  shows "st' = st \<and> (\<exists>ys. zs = acc @ ys \<and> length ys = n \<and> held st r ys)"
  using assms
proof (induction n arbitrary: r acc)
  case (Suc n)
  have nx: "of_nat r + 1 = (of_nat (Suc r) :: cursor)" by simp
  have m: "masked (length st) (of_nat r) = r mod length st" by (rule masked_of_nat [OF Suc.prems(2)])
  obtain x where x: "read_cell (r mod length st) st = ok x"
    "consume_cells True collect n (of_nat (Suc r)) (collect x acc) st = ok (p, zs, st')"
    using Suc.prems(1) unfolding consume_cells.simps Let_def nx m by (auto simp: chain_eq_ok destroy_at_def)
  have "st ! (r mod length st) = Some x"
    using x(1) by (auto simp: read_cell_def split: if_splits option.splits)
  with Suc.IH [OF x(2) Suc.prems(2)] show ?case by (auto simp: collect_def held_Cons)
qed (simp add: held_def)

lemma consume_extends: "consume_cells triv collect n pos acc st = ok (p, zs, st') \<Longrightarrow> \<exists>ys. zs = acc @ ys"
  by (induction n arbitrary: pos acc st) (fastforce simp: Let_def chain_eq_ok collect_def)+

lemma consume_position: "consume_cells triv fn n pos s st = ok (p, s', st') \<Longrightarrow> p = pos + of_nat n"
  by (induction n arbitrary: pos s st) (fastforce simp: Let_def chain_eq_ok ac_simps)+

lemma move_is_consume:
  assumes "consume_cells triv collect n pos acc st = ok (p, acc @ ys, st')" "i + n \<le> length dst"
  shows "length ys = n \<and> move_cells triv n i pos dst st = ok (take i dst @ ys @ drop (i + n) dst, st')"
  using assms
proof (induction n arbitrary: pos acc ys i dst st)
  case (Suc n)
  obtain x st1 where x: "read_cell (masked (length st) pos) st = ok x" "destroy_at triv (masked (length st) pos) st = ok st1"
    "consume_cells triv collect n (pos + 1) (collect x acc) st1 = ok (p, acc @ ys, st')"
    using Suc.prems(1) by (auto simp: Let_def chain_eq_ok)
  have "collect x acc = acc @ [x]" by (simp add: collect_def)
  note x = x(1,2) x(3) [unfolded this]
  obtain zs where zs: "ys = x # zs" using consume_extends [OF x(3)] by auto
  with x(3) have "consume_cells triv collect n (pos + 1) (acc @ [x]) st1 = ok (p, (acc @ [x]) @ zs, st')" by simp
  from Suc.IH [OF this, of "Suc i" "dst[i := x]"] Suc.prems(2)
  have "length zs = n" "move_cells triv n (Suc i) (pos + 1) (dst[i := x]) st1 =
      ok (take (Suc i) (dst[i := x]) @ zs @ drop (Suc i + n) (dst[i := x]), st')" by simp_all
  moreover have "take (Suc i) (dst[i := x]) = take i dst @ [x]"
    using Suc.prems(2) by (simp add: take_Suc_conv_app_nth take_update_cancel)
  ultimately show ?case using x(1,2) zs Suc.prems(2) by (simp add: Let_def)
qed simp

lemma range_is_consume:
  assumes run: "consume_up_to tr (length out) collect [] q = ok (n, ys, q')" and tr: "copyable tr \<longrightarrow> destructible tr"
    and p: "power_of_two (slots q)" and r: "read_position_local q = of_nat r" and n: "length ys \<le> slots q"
  shows "try_dequeue_range tr out q = ok (length ys, ys @ drop (length ys) out, q')"
proof (cases "fst (readable q) = 0")
  case True
  with run show ?thesis by (cases "readable q") (auto simp: consume_up_to_def try_dequeue_range_def)
next
  case False
  obtain a q1 where q1: "readable q = (a, q1)" by (cases "readable q")
  then have s1: "storage q1 = storage q" by (auto simp: readable_def Let_def split: if_splits)
  let ?n = "min (unat a) (length out)"
  obtain pos st where c: "consume_cells (destructible tr) collect ?n (of_nat r) [] (storage q) = ok (pos, ys, st)"
    "q' = publish_read pos (q1\<lparr>storage := st\<rparr>)"
    using run False q1 s1 r by (auto simp: consume_up_to_def Let_def chain_eq_ok min.commute [of "length out"])
  have mv: "length ys = ?n" "move_cells (destructible tr) ?n 0 (of_nat r) out (storage q) = ok (ys @ drop ?n out, st)"
    using move_is_consume [of "destructible tr" ?n "of_nat r" "[]" "storage q" pos ys st 0 out] c(1) by simp_all
  have pos: "pos = of_nat r + of_nat ?n" using consume_position [OF c(1)] .
  have ix: "calculate_index q1 (of_nat r) = r mod slots q"
    using masked_of_nat [OF p, of r] s1 by (simp add: calculate_index_def)
  have "(if copyable tr then
      chain (memcpy_out 0 out (r mod slots q) (min ?n (slots q - r mod slots q)) (storage q)) (\<lambda>dst.
      chain (if min ?n (slots q - r mod slots q) \<noteq> ?n
        then memcpy_out (min ?n (slots q - r mod slots q)) dst 0 (?n - min ?n (slots q - r mod slots q)) (storage q)
        else ok dst) (\<lambda>dst'. ok (dst', storage q)))
      else move_cells (destructible tr) ?n 0 (of_nat r) out (storage q)) = ok (ys @ drop ?n out, st)"
  proof (cases "copyable tr")
    case True
    with tr c(1) have "consume_cells True collect ?n (of_nat r) [] (storage q) = ok (pos, ys, st)" by simp
    from consume_trivial [OF this p] have h: "st = storage q" "held (storage q) r ys" by auto
    have "0 < slots q" using power_of_two_bounds [OF p] by simp
    from block_copy_out [OF h(2) n _ _ this, of ?n out] mv(1) h(1) True show ?thesis by (simp cong: if_cong)
  next
    case False
    with mv(2) show ?thesis by simp
  qed
  moreover have "a \<noteq> 0" using False q1 by simp
  ultimately show ?thesis unfolding c(2) pos mv(1) try_dequeue_range_def Let_def r q1 prod.case ix s1 by simp
qed

lemma solo_take:
  assumes "threads_rep s R W rc wc xs" "c_at s = C_Take n ys"
  shows "\<exists>s' st zs. solo (consumer_move tr k e) (Suc (2 * n)) s = ok s' \<and>
    consume_cells (destructible tr) collect n (r_local s + of_nat (length ys)) ys (cells s) =
      ok (r_local s + of_nat (length zs), zs, st) \<and>
    as_queue s' = publish_read (r_local s + of_nat (length zs)) ((as_queue s)\<lparr>storage := st\<rparr>) \<and>
    c_at s' = C_Ready \<and> removed s' = removed s @ zs \<and> length zs = length ys + n"
  using assms
proof (induction n arbitrary: s ys R wc xs)
  case 0
  then show ?case by (simp add: consumer_move_def Let_def as_queue_def publish_read_def)
next
  case (Suc n)
  obtain s1 R1 wc1 xs1 where s1: "consumer_move tr k e s = ok s1" "threads_rep s1 R1 W rc wc1 xs1"
    using consumer_move_preserves [OF Suc.prems(1)] by blast
  obtain s2 R2 wc2 xs2 where s2: "consumer_move tr k e s1 = ok s2" "threads_rep s2 R2 W rc wc2 xs2"
    using consumer_move_preserves [OF s1(2)] by blast
  let ?cell = "masked (length (cells s)) (r_local s + of_nat (length ys))"
  from s1(1) Suc.prems(2) obtain ch x where a: "access ?cell (reads s) (writes s) = ok ch" "read_cell ?cell (cells s) = ok x"
    "s1 = s\<lparr>reads := ch, c_at := C_Drop n x ys\<rparr>"
    by (auto simp: consumer_move_def chain_eq_ok cell_at_def)
  from s2(1) a(3) obtain st ch2 where b: "destroy_at (destructible tr) ?cell (cells s) = ok st"
    "s2 = s\<lparr>cells := st, reads := ch2, c_at := C_Take n (ys @ [x])\<rparr>" "stores ch2 = stores ch"
    by (auto simp: consumer_move_def chain_eq_ok cell_at_def destroy_access_def split: if_splits dest: access_stores)
  have q: "as_queue s2 = (as_queue s)\<lparr>storage := st\<rparr>" "length st = length (cells s)"
    using access_stores [OF a(1)] b by (auto simp: as_queue_def newest_def destroy_at_def chain_eq_ok)
  have "c_at s2 = C_Take n (ys @ [x])" using b(2) by simp
  from Suc.IH [OF s2(2) this] obtain s' st' zs where IH: "solo (consumer_move tr k e) (Suc (2 * n)) s2 = ok s'"
    "consume_cells (destructible tr) collect n (r_local s2 + of_nat (length (ys @ [x]))) (ys @ [x]) (cells s2) =
      ok (r_local s2 + of_nat (length zs), zs, st')"
    "as_queue s' = publish_read (r_local s2 + of_nat (length zs)) ((as_queue s2)\<lparr>storage := st'\<rparr>)"
    "c_at s' = C_Ready" "removed s' = removed s2 @ zs" "length zs = length (ys @ [x]) + n" by blast
  have "solo (consumer_move tr k e) (Suc (2 * Suc n)) s = solo (consumer_move tr k e) (Suc (2 * n)) s2"
    using s1(1) s2(1) by simp
  moreover have "collect x ys = ys @ [x]" by (simp add: collect_def)
  ultimately show ?case using IH a(2) b q
    by (intro exI [of _ s'] exI [of _ st'] exI [of _ zs]) (simp add: Let_def ac_simps del: solo.simps)
qed

lemma solo_take_all:
  assumes "threads_rep s R W rc wc xs" "c_at s = C_Take n []"
  obtains s' st zs where "solo (consumer_move tr k e) (Suc (2 * n)) s = ok s'"
    "consume_cells (destructible tr) collect n (r_local s) [] (cells s) = ok (r_local s + of_nat (length zs), zs, st)"
    "as_queue s' = publish_read (r_local s + of_nat (length zs)) ((as_queue s)\<lparr>storage := st\<rparr>)"
    "c_at s' = C_Ready" "removed s' = removed s @ zs" "length zs = n"
  using solo_take [OF assms, of tr k e] that by (auto simp del: solo.simps)

text \<open>From the state in which \<open>readable()\<close> has answered \<open>a\<close>, the steps are the rest of the call.\<close>

lemma solo_begun_one:
  assumes rep: "threads_rep s R W rc wc xs" and c: "c_at s = begin_take Take_One a" and k: "length W \<le> k"
    and q0: "readable q0 = (a, as_queue s)" "read_position_local q0 = r_local s"
  shows "\<exists>n s' ys. solo (consumer_move tr k e) n s = ok s' \<and> call_take tr Take_One q0 = ok (ys, as_queue s') \<and>
    c_at s' = C_Ready \<and> removed s' = removed s @ ys"
proof (cases "a = 0")
  case True
  with q0 c show ?thesis
    by (intro exI [of _ 0] exI [of _ s] exI [of _ "[]"]) (simp add: try_dequeue_def begin_take_def)
next
  case False
  then have ca: "c_at s = C_Assert" using c by (simp add: begin_take_def)
  obtain s1 R1 wc1 xs1 where s1: "consumer_move tr k e s = ok s1" "threads_rep s1 R1 W rc wc1 xs1"
    using consumer_move_preserves [OF rep] by blast
  have ne: "newest (writes s) - newest (reads s) \<noteq> 0"
    and e1: "s1 = s\<lparr>writes := (writes s)\<lparr>seen := length W - 1\<rparr>, c_at := C_Take 1 []\<rparr>"
    using s1(1) ca acquire_newest [OF threads_repD(11) [OF rep] k] by (auto simp: consumer_move_def split: if_splits)
  have q: "as_queue s1 = as_queue s" and ct: "c_at s1 = C_Take 1 []"
    using e1 by (simp_all add: as_queue_def newest_def)
  obtain s' st zs where r: "solo (consumer_move tr k e) (Suc (2 * 1)) s1 = ok s'"
    "consume_cells (destructible tr) collect 1 (r_local s1) [] (cells s1) = ok (r_local s1 + of_nat (length zs), zs, st)"
    "as_queue s' = publish_read (r_local s1 + of_nat (length zs)) ((as_queue s1)\<lparr>storage := st\<rparr>)"
    "c_at s' = C_Ready" "removed s' = removed s1 @ zs" "length zs = 1" by (rule solo_take_all [OF s1(2) ct])
  from r(2) e1 obtain x where x: "read_cell (calculate_index (as_queue s) (r_local s)) (storage (as_queue s)) = ok x"
    "destroy_at (destructible tr) (calculate_index (as_queue s) (r_local s)) (storage (as_queue s)) = ok st" "zs = [x]"
    by (auto simp: Let_def chain_eq_ok collect_def calculate_index_def as_queue_def)
  have "\<not> is_empty (as_queue s)" using ne by (simp add: is_empty_def size_def as_queue_def)
  then have "call_take tr Take_One q0 = ok ([x], as_queue s')"
    using x r(3) q q0 False e1 by (simp add: try_dequeue_def Let_def)
  moreover have "solo (consumer_move tr k e) (Suc (Suc (2 * 1))) s = ok s'"
    using s1(1) r(1) by (simp only: solo.simps chain.simps)
  ultimately show ?thesis using r(4,5) x(3) e1
    by (intro exI [of _ "Suc (Suc (2 * 1))"] exI [of _ s'] exI [of _ "[x]"]) (simp del: solo.simps)
qed

lemma solo_begun_up_to:
  assumes rep: "threads_rep s R W rc wc xs" and c: "c_at s = begin_take (Take_Up_To l) a"
    and q0: "readable q0 = (a, as_queue s)" "read_position_local q0 = r_local s"
  shows "\<exists>n s' ys. solo (consumer_move tr k e) n s = ok s' \<and> call_take tr (Take_Up_To l) q0 = ok (ys, as_queue s') \<and>
    c_at s' = C_Ready \<and> removed s' = removed s @ ys"
proof (cases "a = 0")
  case True
  with q0 c show ?thesis
    by (intro exI [of _ 0] exI [of _ s] exI [of _ "[]"]) (simp add: consume_up_to_def begin_take_def)
next
  case False
  have u: "unat (min l a) = min (unat l) (unat a)" by (simp add: min_def word_le_nat_alt)
  have "c_at s = C_Take (unat (min l a)) []" using c False by (simp add: begin_take_def)
  then obtain s' st zs where
    "solo (consumer_move tr k e) (Suc (2 * unat (min l a))) s = ok s'"
    "consume_cells (destructible tr) collect (unat (min l a)) (r_local s) [] (cells s) = ok (r_local s + of_nat (length zs), zs, st)"
    "as_queue s' = publish_read (r_local s + of_nat (length zs)) ((as_queue s)\<lparr>storage := st\<rparr>)"
    "c_at s' = C_Ready" "removed s' = removed s @ zs" by (rule solo_take_all [OF rep])
  with False q0 show ?thesis
    by (intro exI [of _ "Suc (2 * unat (min l a))"] exI [of _ s'] exI [of _ zs])
      (simp add: u as_queue_def consume_up_to_def del: solo.simps)
qed

lemma solo_begun_all:
  assumes rep: "threads_rep s R W rc wc xs" and c: "c_at s = begin_take Take_All a"
    and q0: "readable q0 = (a, as_queue s)" "read_position_local q0 = r_local s"
  shows "\<exists>n s' ys. solo (consumer_move tr k e) n s = ok s' \<and> call_take tr Take_All q0 = ok (ys, as_queue s') \<and>
    c_at s' = C_Ready \<and> removed s' = removed s @ ys"
proof -
  have "c_at s = C_Take (unat a) []" using c by (simp add: begin_take_def)
  then obtain s' st zs where
      "solo (consumer_move tr k e) (Suc (2 * unat a)) s = ok s'"
      "consume_cells (destructible tr) collect (unat a) (r_local s) [] (cells s) = ok (r_local s + of_nat (length zs), zs, st)"
      "as_queue s' = publish_read (r_local s + of_nat (length zs)) ((as_queue s)\<lparr>storage := st\<rparr>)"
      "c_at s' = C_Ready" "removed s' = removed s @ zs" by (rule solo_take_all [OF rep])
  with q0 show ?thesis
    by (intro exI [of _ "Suc (2 * unat a)"] exI [of _ s'] exI [of _ zs]) (simp add: as_queue_def consume_all_def del: solo.simps)
qed

lemma solo_begun:
  assumes "threads_rep s R W rc wc xs" and "c_at s = begin_take d a" "d \<noteq> Clear_All" and "length W \<le> k"
    and "readable q0 = (a, as_queue s)" "read_position_local q0 = r_local s"
  shows "\<exists>n s' ys. solo (consumer_move tr k e) n s = ok s' \<and> call_take tr d q0 = ok (ys, as_queue s') \<and>
    c_at s' = C_Ready \<and> removed s' = removed s @ ys"
  using assms solo_begun_one [of s R W rc wc xs a k q0] solo_begun_up_to [of s R W rc wc xs _ a q0]
    solo_begun_all [of s R W rc wc xs a q0] by (cases d) blast+

lemma solo_take_call:
  assumes rep: "threads_rep s R W rc wc xs" and c: "c_at s = C_Ready" "d \<noteq> Clear_All" and k: "length W \<le> k"
  shows "\<exists>n s' ys. solo (consumer_move tr k d) n s = ok s' \<and> call_take tr d (as_queue s) = ok (ys, as_queue s') \<and>
    c_at s' = C_Ready \<and> removed s' = removed s @ ys"
proof -
  obtain s1 R1 wc1 xs1 where s1: "consumer_move tr k d s = ok s1" "threads_rep s1 R1 W rc wc1 xs1"
    using consumer_move_preserves [OF rep] by blast
  have e1: "s1 = s\<lparr>c_at := if r_local s = w_cache s then C_Readable d else begin_take d (w_cache s - r_local s)\<rparr>"
    using s1(1) c by (simp add: consumer_move_def)
  have rl: "read_position_local (as_queue s) = r_local s" by (simp add: as_queue_def)
  show ?thesis
  proof (cases "r_local s = w_cache s")
    case False
    then have p: "c_at s1 = begin_take d (w_cache s - r_local s)" using e1 by simp
    have "readable (as_queue s) = (w_cache s - r_local s, as_queue s1)" "r_local s1 = r_local s"
      using False e1 by (simp_all add: readable_def as_queue_def)
    with solo_begun [OF s1(2) p c(2) k] obtain n s' ys where n: "solo (consumer_move tr k d) n s1 = ok s'"
      "call_take tr d (as_queue s) = ok (ys, as_queue s')" "c_at s' = C_Ready" "removed s' = removed s1 @ ys" using rl by metis
    have "solo (consumer_move tr k d) (Suc n) s = ok s'" using s1(1) n(1) by simp
    with n(2-4) e1 show ?thesis by (intro exI [of _ "Suc n"] exI [of _ s'] exI [of _ ys]) (simp del: solo.simps)
  next
    case True
    then have p: "c_at s1 = C_Readable d" using e1 by simp
    obtain s2 R2 wc2 xs2 where s2: "consumer_move tr k d s1 = ok s2" "threads_rep s2 R2 W rc wc2 xs2"
      using consumer_move_preserves [OF s1(2)] by blast
    have e2: "s2 = s1\<lparr>writes := (writes s)\<lparr>seen := length W - 1\<rparr>, w_cache := newest (writes s),
        c_at := begin_take d (newest (writes s) - r_local s)\<rparr>"
      using s2(1) p acquire_newest [OF threads_repD(11) [OF rep] k] e1 by (simp add: consumer_move_def)
    then have p2: "c_at s2 = begin_take d (newest (writes s) - r_local s)" by simp
    have "readable (as_queue s) = (newest (writes s) - r_local s, as_queue s2)" "r_local s2 = r_local s"
      using True e1 e2 by (simp_all add: readable_def as_queue_def newest_def Let_def)
    with solo_begun [OF s2(2) p2 c(2) k] obtain n s' ys where n: "solo (consumer_move tr k d) n s2 = ok s'"
      "call_take tr d (as_queue s) = ok (ys, as_queue s')" "c_at s' = C_Ready" "removed s' = removed s2 @ ys" using rl by metis
    have "solo (consumer_move tr k d) (Suc (Suc n)) s = ok s'" using s1(1) s2(1) n(1) by simp
    with n(2-4) e1 e2 show ?thesis by (intro exI [of _ "Suc (Suc n)"] exI [of _ s'] exI [of _ ys]) (simp del: solo.simps)
  qed
qed

text \<open>What the consumer's steps leave alone, and that they remove no more than is in flight.\<close>

lemma consumer_move_stored: "consumer_move tr k d s = ok s' \<Longrightarrow> stored s' = stored s"
  by (auto simp: consumer_move_def Let_def chain_eq_ok destroy_access_def
      split: consumer_at.splits if_splits prod.splits nat.splits)

lemma solo_stored: "solo (consumer_move tr k d) n s = ok s' \<Longrightarrow> stored s' = stored s"
  by (induction n arbitrary: s) (auto simp: chain_eq_ok dest: consumer_move_stored)

lemma solo_consumer_executes:
  "executes tr start s \<Longrightarrow> solo (consumer_move tr k d) n s = ok s' \<Longrightarrow> executes tr start s'"
  by (induction n arbitrary: s) (auto simp: chain_eq_ok intro: ex_consume)

lemma solo_consumer_rep:
  "threads_rep s R W rc wc xs \<Longrightarrow> solo (consumer_move tr k d) n s = ok s' \<Longrightarrow> \<exists>R wc xs. threads_rep s' R W rc wc xs"
proof (induction n arbitrary: s R wc xs)
  case (Suc n)
  then obtain s1 where s1: "consumer_move tr k d s = ok s1" "solo (consumer_move tr k d) n s1 = ok s'"
    by (auto simp: chain_eq_ok)
  obtain R1 wc1 xs1 where "threads_rep s1 R1 W rc wc1 xs1"
    using consumer_move_preserves [OF Suc.prems(1), of tr k d] s1(1) by auto
  from Suc.IH [OF this s1(2)] show ?case .
qed auto

lemma solo_removes:
  assumes rep: "threads_rep s R W rc wc xs" and r: "solo (consumer_move tr k d) n s = ok s'" "removed s' = removed s @ ys"
  shows "length ys \<le> length xs"
proof -
  obtain R' wc' zs where "threads_rep s' R' W rc wc' zs" using solo_consumer_rep [OF rep r(1)] by blast
  then have "stored s' = removed s @ ys @ zs" using r(2) by (simp add: threads_rep_def Let_def)
  moreover have "stored s = removed s @ xs" using rep by (simp add: threads_rep_def Let_def)
  ultimately show ?thesis using solo_stored [OF r(1)] by simp
qed

lemma take_is_range:
  assumes rep: "threads_rep s R W rc wc xs" and r: "call_take tr d (as_queue s) = ok (ys, q)"
    and tr: "copyable tr \<longrightarrow> destructible tr" and le: "length ys \<le> length xs"
    and d: "length out < 2 ^ 64" "d = Take_Up_To (of_nat (length out))"
  shows "try_dequeue_range tr out (as_queue s) = ok (length ys, ys @ drop (length ys) out, q)"
proof -
  note t = threads_repD [OF rep]
  obtain n where "consume_up_to tr (length out) collect [] (as_queue s) = ok (n, ys, q)"
    using r d unat_cursor [OF d(1)] by (auto simp: chain_eq_ok)
  then show ?thesis
    using t(1) le consumer_facts(1,7) [OF rep] by (intro range_is_consume [OF _ tr]) (simp_all add: as_queue_def)
qed

end
