(* ===== verification/Spsc_Weak_Properties.thy ===== *)
theory Spsc_Weak_Properties
  imports Spsc_Weak_Calls
begin

text \<open>
  What holds of \<open>spsc_queue\<close> in every execution of its two threads that the memory model allows.
\<close>

section \<open>Schedules\<close>

text \<open>A schedule to run: whose turn it is, what its load returns, and the call it makes between calls.\<close>

datatype 'a turn = Produce nat "'a put" | Consume nat take

fun take_turn :: "traits \<Rightarrow> 'a turn \<Rightarrow> 'a threads \<Rightarrow> 'a threads run" where
  "take_turn tr (Produce k c) = producer_move tr k c"
| "take_turn tr (Consume k d) = consumer_move tr k d"

fun turns :: "traits \<Rightarrow> 'a turn list \<Rightarrow> 'a threads \<Rightarrow> 'a threads run" where
  "turns tr [] s = ok s"
| "turns tr (t # ts) s = chain (take_turn tr t s) (turns tr ts)"

fun sized :: "'a turn \<Rightarrow> bool" where
  "sized (Produce k c) = (length (items c) < 2 ^ 64)"
| "sized _ = True"

lemma turns_execute:
  "executes tr start s \<Longrightarrow> turns tr ts s = ok s' \<Longrightarrow> list_all sized ts \<Longrightarrow> executes tr start s'"
proof (induction ts arbitrary: s)
  case (Cons t ts)
  then obtain s1 where s1: "take_turn tr t s = ok s1" "turns tr ts s1 = ok s'" by (auto simp: chain_eq_ok)
  have "executes tr start s1"
  proof (cases t)
    case (Produce k c)
    then have "length (items c) < 2 ^ 64" using Cons.prems(3) by simp
    with Cons.prems(1) s1(1) Produce show ?thesis by (auto intro: ex_produce)
  next
    case (Consume k d)
    with Cons.prems(1) s1(1) show ?thesis by (auto intro: ex_consume)
  qed
  with Cons.IH s1(2) Cons.prems(3) show ?case by simp
qed simp

text \<open>
  In a ring of two cells whose cursors are about to wrap: the producer enqueues two elements; the
  consumer looks, reads a stale cursor and finds nothing; it looks again and takes one; the
  producer, full by its cached cursor, loads the new one and enqueues a third.
\<close>

definition weak_schedule :: "nat turn list" where
  "weak_schedule = replicate 4 (Produce 0 (Put_Range [7, 8])) @ replicate 2 (Consume 0 Take_One) @
     replicate 6 (Consume 1 Take_One) @ replicate 5 (Produce 1 (Put_One 9)) @ [Consume 0 Take_All]"

definition weak_run :: "nat threads run" where
  "weak_run = turns owning weak_schedule (threads_new (2 ^ 64 - 1) 2)"

lemma weak_run_result:
  "\<exists>s. weak_run = ok s \<and> executes owning (threads_new (2 ^ 64 - 1) 2) s \<and> enqueued s = [7, 8, 9] \<and> removed s = [7] \<and>
    c_at s = C_Take 1 []"
proof -
  have e: "map_option (map_sum (\<lambda>e. e) (\<lambda>s. (enqueued s, removed s, c_at s))) weak_run = ok ([7, 8, 9], [7], C_Take 1 [])"
    by code_simp
  have "list_all sized weak_schedule" by (simp add: weak_schedule_def list_all_iff)
  with run_map [OF e] show ?thesis using turns_execute [OF ex_start] by (fastforce simp: weak_run_def)
qed

section \<open>Properties\<close>

text \<open>The elements of the call the producer is in, once it has found room.\<close>

fun pending :: "'a producer_at \<Rightarrow> 'a list" where
  "pending (P_Assert x) = [x]"
| "pending (P_Copy xs) = xs"
| "pending (P_Fill xs i) = xs"
| "pending _ = []"

text \<open>A call whose elements are written by construction, not by \<open>memcpy\<close>.\<close>

definition constructs :: "traits \<Rightarrow> 'a put \<Rightarrow> bool" where
  "constructs tr d \<longleftrightarrow> (copyable tr \<longrightarrow> (\<exists>x. d = Put_One x))"

lemma pending_admit [simp]: "pending (admit tr d) = items d"
  by (cases d) simp_all

lemma producer_move_accepted:
  assumes "producer_move tr k c s = ok s'" "\<forall>xs. p_at s = P_Copy xs \<longrightarrow> \<not> constructs tr (last (accepted s)) \<and> accepted s \<noteq> []"
    and "\<forall>d \<in> set (accepted s'). constructs tr d" "enqueued s = stored s @ pending (p_at s)"
  shows "enqueued s' = stored s' @ pending (p_at s')"
  using assms
  by (auto simp: producer_move_def enqueued_def Let_def chain_eq_ok split: producer_at.splits if_splits prod.splits)

lemma copy_accepted:
  assumes "producer_move tr k c s = ok s'" "p_at s' = P_Copy xs"
  shows "accepted s' \<noteq> [] \<and> \<not> constructs tr (last (accepted s'))"
proof -
  have "admit tr d = P_Copy xs \<Longrightarrow> \<not> constructs tr d" for d by (cases d) (auto simp: constructs_def split: if_splits)
  with assms show ?thesis
    by (auto simp: producer_move_def Let_def chain_eq_ok split: producer_at.splits if_splits prod.splits)
qed

lemma accepted_kept:
  "producer_move tr k c s = ok s' \<Longrightarrow> set (accepted s) \<subseteq> set (accepted s')"
  "consumer_move tr k d s = ok s' \<Longrightarrow> accepted s' = accepted s \<and> stored s' = stored s"
  "producer_size k s = (n, s') \<Longrightarrow> accepted s' = accepted s \<and> stored s' = stored s"
  "consumer_size k s = (n, s') \<Longrightarrow> accepted s' = accepted s \<and> stored s' = stored s"
  by (auto simp: producer_move_def consumer_move_def producer_size_def consumer_size_def Let_def chain_eq_ok destroy_access_def
      split: producer_at.splits consumer_at.splits if_splits prod.splits nat.splits)

text \<open>Constructed elements are stored as their caller passed them.\<close>

lemma executes_accepted:
  assumes "executes tr (threads_new c N) s" "\<forall>d \<in> set (accepted s). constructs tr d"
  shows "enqueued s = stored s @ pending (p_at s)"
proof -
  have "(\<forall>xs. p_at s = P_Copy xs \<longrightarrow> accepted s \<noteq> [] \<and> \<not> constructs tr (last (accepted s))) \<and>
      ((\<forall>d \<in> set (accepted s). constructs tr d) \<longrightarrow> enqueued s = stored s @ pending (p_at s))"
    using assms(1)
  proof (induction rule: executes.induct)
    case ex_start
    then show ?case by (simp add: threads_new_def enqueued_def)
  next
    case (ex_produce s c k s')
    then show ?case
      using producer_move_accepted [of tr k c s s'] copy_accepted [of tr k c s s'] accepted_kept(1) [of tr k c s s'] by blast
  qed (auto simp: other_moves_p_at accepted_kept enqueued_def)
  with assms(2) show ?thesis by blast
qed

text \<open>
  C15: the queue under the C++ memory model: in every execution of the two threads, whatever the
  consumer calls (single elements, batches, draining, clearing) and however stale the cursors they
  load, the elements removed are a prefix of the elements that the callers of \<open>try_emplace\<close> and
  \<open>try_emplace_range\<close> have enqueued, in order, and at most \<open>N\<close> are in flight. Elements are enqueued when
  \<open>has_room\<close> has answered yes to their call. For trivially copyable elements this is about executions
  that enqueue them one at a time: their batches are not enqueued as they were passed
  (\<open>batch_insert_reads_past_end\<close>, \<open>copied_batch_is_not_the_batch\<close>).
\<close>

theorem weak_fifo:
  assumes "power_of_two N" "executes tr (threads_new c N) s"
    and "copyable tr \<longrightarrow> (\<forall>d \<in> set (accepted s). \<exists>x. d = Put_One x)"
  shows "\<exists>xs. enqueued s = removed s @ xs \<and> length xs \<le> N"
proof -
  obtain R W rc wc xs where rep: "threads_rep s R W rc wc xs" using executes_new(1) [OF assms(1,2)] by blast
  note d = threads_repD [OF rep]
  have n: "length (cells s) = N" by (rule executes_new(2) [OF assms(1,2)])
  have "stored s = removed s @ xs" using rep by (simp add: threads_rep_def Let_def)
  then have e: "enqueued s = removed s @ xs @ pending (p_at s)"
    using executes_accepted [OF assms(2)] assms(3) by (simp add: constructs_def)
  have "last W + length (pending (p_at s)) \<le> rc + N"
    using producer_facts(4) [OF rep] d(10) n by (auto simp: producer_holds_def split: producer_at.splits)
  then have "length (xs @ pending (p_at s)) \<le> N" using d(4-6) by simp
  with e show ?thesis by blast
qed

theorem weak_fifo_witness:
  "\<exists>s xs. weak_run = ok s \<and> enqueued s = [7, 8, 9] \<and> enqueued s = removed s @ xs \<and> length xs \<le> 2"
proof -
  have p: "power_of_two 2" unfolding power_of_two_def by (rule exI [of _ 1]) simp
  obtain s where s: "weak_run = ok s" "executes owning (threads_new (2 ^ 64 - 1) 2) s" "enqueued s = [7, 8, 9]"
    using weak_run_result by blast
  have "copyable owning \<longrightarrow> (\<forall>d \<in> set (accepted s). \<exists>x. d = Put_One x)" by (simp add: owning_def)
  from weak_fifo [OF p s(2) this] s(1,3) show ?thesis by auto
qed

text \<open>
  C16: no execution has a data race: whatever the state the threads have reached, the next step of
  either one, in any call and with any value its load may return, does not touch a cell
  unordered with the other thread's last access, does not read or destroy raw storage, stays
  inside the ring and fails no assertion. The one fault left is that the \<open>memcpy\<close> of a batch of
  trivially copyable elements reads past the end of the batch.
\<close>

theorem weak_race_free:
  assumes "power_of_two N" "executes tr (threads_new c N) s" "length (items d) < 2 ^ 64"
  shows "((\<exists>s'. producer_move tr k d s = ok s') \<or>
      copyable tr \<and> overruns s \<and> producer_move tr k d s = abort Bad_Index) \<and>
    (\<exists>s'. consumer_move tr k e s = ok s')"
proof -
  obtain R W rc wc xs where rep: "threads_rep s R W rc wc xs" using executes_new(1) [OF assms(1,2)] by blast
  from producer_move_preserves [OF rep assms(3)] producer_overruns executes_copies [OF assms(2)]
    consumer_move_preserves [OF rep] show ?thesis by blast
qed

theorem weak_race_free_witness:
  "\<exists>s s'. weak_run = ok s \<and> consumer_move owning 0 Take_All s = ok s' \<and> c_at s = C_Take 1 []"
proof -
  have p: "power_of_two 2" unfolding power_of_two_def by (rule exI [of _ 1]) simp
  obtain s where s: "weak_run = ok s" "executes owning (threads_new (2 ^ 64 - 1) 2) s" "c_at s = C_Take 1 []"
    using weak_run_result by blast
  have "length (items (Put_One (0 :: nat))) < 2 ^ 64" by simp
  from weak_race_free [OF p s(2) this] s(1,3) show ?thesis by blast
qed

text \<open>
  The orders are needed: an element has been enqueued, but the consumer has not loaded its
  publication; reading the cell now is a data race, after the load it is not.
\<close>

lemma unordered_access_races:
  "\<exists>s. turns owning (replicate 3 (Produce 0 (Put_Range [7 :: nat]))) (threads_new 0 2) = ok s \<and>
    access 0 (reads s) (writes s) = abort Data_Race \<and>
    (\<exists>ch. access 0 (reads s) (snd (acquire 1 (writes s))) = ok ch)"
proof -
  let ?r = "turns owning (replicate 3 (Produce 0 (Put_Range [7 :: nat]))) (threads_new 0 2)"
  have e: "map_option (map_sum (\<lambda>e. e) (\<lambda>s. (access 0 (reads s) (writes s),
      map_option (map_sum (\<lambda>e. e) (\<lambda>_. ())) (access 0 (reads s) (snd (acquire 1 (writes s))))))) ?r =
      ok (abort Data_Race, ok ())" by code_simp
  obtain s where s: "?r = ok s" "access 0 (reads s) (writes s) = abort Data_Race"
    "map_option (map_sum (\<lambda>e. e) (\<lambda>_. ())) (access 0 (reads s) (snd (acquire 1 (writes s)))) = ok ()"
    using run_map [OF e] by auto
  with run_map [OF s(3)] show ?thesis by blast
qed

text \<open>
  C17: \<open>size()\<close> may be asked by either side: it is a number in \<open>[0, N]\<close> however stale the loaded cursor
  is, never less than the true count when the producer asks and never more when the consumer does.
\<close>

theorem weak_size_bounds:
  assumes "power_of_two N" "executes tr (threads_new c N) s" "c_at s = C_Ready"
  shows "unat (fst (consumer_size k s)) \<le> length (stored s) - length (removed s) \<and>
    length (stored s) - length (removed s) \<le> unat (fst (producer_size k s)) \<and> unat (fst (producer_size k s)) \<le> N"
proof -
  obtain R W rc wc xs where rep: "threads_rep s R W rc wc xs" using executes_new(1) [OF assms(1,2)] by blast
  note d = threads_repD [OF rep] and n = executes_new(2) [OF assms(1,2)]
  obtain a b s1 s2 where a: "producer_size k s = (of_nat a, s1)" "length xs \<le> a" "a \<le> N"
    and b: "consumer_size k s = (of_nat b, s2)" "b \<le> length xs"
    using sizes_preserve(1) [OF rep, of k] sizes_preserve(2) [OF rep assms(3), of k] n by auto
  have "length (stored s) - length (removed s) = length xs" using rep by (simp add: threads_rep_def Let_def)
  moreover have "a < 2 ^ 64" "b < 2 ^ 64" using a(2,3) b(2) d(3) n by linarith+
  ultimately show ?thesis using a b by (simp only: fst_conv unat_cursor)
qed

definition weak_start :: "nat threads run" where
  "weak_start = turns owning (replicate 4 (Produce 0 (Put_Range [7, 8]))) (threads_new (2 ^ 64 - 1) 2)"

lemma weak_start_result:
  "\<exists>s. weak_start = ok s \<and> executes owning (threads_new (2 ^ 64 - 1) 2) s \<and> c_at s = C_Ready \<and>
    stored s = [7, 8] \<and> removed s = []"
proof -
  have e: "map_option (map_sum (\<lambda>e. e) (\<lambda>s. (c_at s, stored s, removed s))) weak_start = ok (C_Ready, [7, 8], [])"
    by code_simp
  have "list_all sized (replicate 4 (Produce 0 (Put_Range [7 :: nat, 8])))" by (simp add: list_all_iff)
  with run_map [OF e] show ?thesis using turns_execute [OF ex_start] by (fastforce simp: weak_start_def)
qed

theorem weak_size_bounds_witness:
  "\<exists>s. weak_start = ok s \<and> stored s = [7, 8] \<and> unat (fst (consumer_size 0 s)) \<le> 2 \<and> 2 \<le> unat (fst (producer_size 0 s))"
proof -
  have p: "power_of_two 2" unfolding power_of_two_def by (rule exI [of _ 1]) simp
  obtain s where s: "weak_start = ok s" "executes owning (threads_new (2 ^ 64 - 1) 2) s" "c_at s = C_Ready"
    "stored s = [7, 8]" "removed s = []" using weak_start_result by blast
  from weak_size_bounds [OF p s(2,3), of 0] s show ?thesis by (intro exI [of _ s]) simp
qed

text \<open>
  C18: cut at its accesses, a call is still the call: when the producer runs alone from a reachable
  state between its calls and loads the newest cursors, its steps end with exactly the queue and the
  answer of the code's \<open>try_emplace\<close> or \<open>try_emplace_range\<close>, loop or \<open>memcpy\<close>; a refused call enqueues
  nothing; and the steps read past the end of a batch where the call does.
\<close>

theorem weak_steps_are_the_call:
  assumes "power_of_two N" "executes tr (threads_new c N) s" "p_at s = P_Ready" "length (items d) < 2 ^ 64"
  shows "(\<exists>n s' b zs. solo (producer_move tr (length (stores (reads s))) d) n s = ok s' \<and>
      call_put tr d (as_queue s) = ok (b, as_queue s') \<and> p_at s' = P_Ready \<and>
      stored s' = stored s @ zs \<and> (if b then written tr s d = ok zs else zs = [])) \<or>
    (\<exists>n. solo (producer_move tr (length (stores (reads s))) d) n s = abort Bad_Index \<and>
      call_put tr d (as_queue s) = abort Bad_Index)"
proof -
  obtain R W rc wc xs where rep: "threads_rep s R W rc wc xs" using executes_new(1) [OF assms(1,2)] by blast
  have "length R \<le> length (stores (reads s))" using threads_repD(12) [OF rep] by (simp add: channel_rep_def)
  from solo_put_call [OF rep assms(3,4) this, of tr] show ?thesis unfolding put_done_def .
qed

theorem weak_steps_are_the_call_witness:
  "\<exists>n s'. solo (producer_move owning 1 (Put_Range [4, 5])) n (threads_new (2 ^ 64 - 1) 2) = ok s' \<and> stored s' = [4, 5 :: nat]"
proof -
  let ?s = "threads_new (2 ^ 64 - 1) 2 :: nat threads" and ?d = "Put_Range [4, 5 :: nat]"
  have p: "power_of_two 2" unfolding power_of_two_def by (rule exI [of _ 1]) simp
  have n: "p_at ?s = P_Ready" "length (items ?d) < 2 ^ 64" "length (stores (reads ?s)) = 1" "stored ?s = []"
    "written owning ?s ?d = ok [4, 5]"
    by (simp_all add: threads_new_def channel_new_def owning_def written_def)
  have e: "map_option (map_sum (\<lambda>e. e) fst) (call_put owning ?d (as_queue ?s)) = ok True" by code_simp
  then obtain q where q: "call_put owning ?d (as_queue ?s) = ok (True, q)" using run_map [OF e] by auto
  from weak_steps_are_the_call [OF p ex_start [of owning ?s] n(1,2)] q n(3,4) obtain m s' zs where
    "solo (producer_move owning 1 ?d) m ?s = ok s'" "stored s' = zs" "written owning ?s ?d = ok zs"
    by (auto simp del: call_put.simps split: if_splits)
  with n(5) show ?thesis by auto
qed

text \<open>
  The \<open>memcpy\<close> of a batch that wraps: of 7 and 8 the queue gets 8 twice. (Where the batch does not wrap,
  the source is overrun.)
\<close>

lemma copied_batch_is_not_the_batch:
  "\<exists>s. turns \<lparr>copyable = True, destructible = True\<rparr> (replicate 5 (Produce 0 (Put_Range [7 :: nat, 8])))
      (threads_new (2 ^ 64 - 1) 2) = ok s \<and> enqueued s = [7, 8] \<and> stored s = [8, 8]"
proof -
  have e: "map_option (map_sum (\<lambda>e. e) (\<lambda>s. (enqueued s, stored s))) (turns \<lparr>copyable = True, destructible = True\<rparr>
      (replicate 5 (Produce 0 (Put_Range [7 :: nat, 8]))) (threads_new (2 ^ 64 - 1) 2)) = ok ([7, 8], [8, 8])" by code_simp
  from run_map [OF e] show ?thesis by auto
qed

text \<open>
  C19: the same for the consumer: run alone from a reachable state between its calls, with the newest
  cursors, its steps are the code's \<open>try_dequeue\<close>, \<open>consume_up_to\<close> or \<open>consume_all\<close>: the same queue, and the
  elements the call delivers are the elements removed. Those of \<open>consume_up_to\<close> are also
  \<open>try_dequeue_range\<close> into a buffer of that size, loop or \<open>memcpy\<close>. (A trivially copyable type is
  trivially destructible.)
\<close>

theorem weak_steps_are_the_dequeue:
  assumes "power_of_two N" "executes tr (threads_new c N) s" "c_at s = C_Ready" "d \<noteq> Clear_All"
    and "copyable tr \<longrightarrow> destructible tr"
  shows "\<exists>n s' ys. solo (consumer_move tr (length (stores (writes s))) d) n s = ok s' \<and>
    call_take tr d (as_queue s) = ok (ys, as_queue s') \<and> c_at s' = C_Ready \<and> removed s' = removed s @ ys \<and>
    (\<forall>out. length out < 2 ^ 64 \<and> d = Take_Up_To (of_nat (length out)) \<longrightarrow>
      try_dequeue_range tr out (as_queue s) = ok (length ys, ys @ drop (length ys) out, as_queue s'))"
proof -
  obtain R W rc wc xs where rep: "threads_rep s R W rc wc xs" using executes_new(1) [OF assms(1,2)] by blast
  have k: "length W \<le> length (stores (writes s))" using threads_repD(11) [OF rep] by (simp add: channel_rep_def)
  from solo_take_call [OF rep assms(3,4) k] obtain n s' ys where
    r: "solo (consumer_move tr (length (stores (writes s))) d) n s = ok s'"
      "call_take tr d (as_queue s) = ok (ys, as_queue s')" "c_at s' = C_Ready" "removed s' = removed s @ ys" by blast
  have "length ys \<le> length xs" using solo_removes [OF rep r(1,4)] .
  with take_is_range [OF rep r(2) assms(5)] r show ?thesis by blast
qed

theorem weak_steps_are_the_dequeue_witness:
  "\<exists>s n s'. weak_start = ok s \<and> solo (consumer_move owning (length (stores (writes s))) (Take_Up_To 1)) n s = ok s' \<and>
    removed s' = [7]"
proof -
  have p: "power_of_two 2" unfolding power_of_two_def by (rule exI [of _ 1]) simp
  obtain s where s: "weak_start = ok s" "executes owning (threads_new (2 ^ 64 - 1) 2) s" "c_at s = C_Ready"
    "removed s = []" using weak_start_result by blast
  have e: "map_option (map_sum (\<lambda>e. e) (\<lambda>s. map_option (map_sum (\<lambda>e. e) fst) (call_take owning (Take_Up_To 1) (as_queue s))))
      weak_start = ok (ok [7])" by code_simp
  obtain y where y: "weak_start = ok y"
    "map_option (map_sum (\<lambda>e. e) fst) (call_take owning (Take_Up_To 1) (as_queue y)) = ok [7]"
    using run_map [OF e] by blast
  have "y = s" using trans [OF sym [OF y(1)] s(1)] by simp
  with y(2) have t: "map_option (map_sum (\<lambda>e. e) fst) (call_take owning (Take_Up_To 1) (as_queue s)) = ok [7]" by simp
  obtain n s' ys where "solo (consumer_move owning (length (stores (writes s))) (Take_Up_To 1)) n s = ok s'"
    "call_take owning (Take_Up_To 1) (as_queue s) = ok (ys, as_queue s')" "removed s' = removed s @ ys"
    using weak_steps_are_the_dequeue [OF p s(2,3), of "Take_Up_To 1"] by (auto simp: owning_def)
  with s(1,4) t show ?thesis by (auto simp del: call_take.simps)
qed

lemma dequeue_delivers:
  assumes rep: "threads_rep s R W rc wc xs" and ne: "xs \<noteq> []" and r: "call_take tr Take_One (as_queue s) = ok (ys, q)"
  shows "\<exists>x. ys = [x]"
proof -
  note d = threads_repD [OF rep]
  have l: "r_local s = of_nat (last R)" using rep by (simp_all add: threads_rep_def Let_def)
  have "last W - last R < 2 ^ 64" "last R < last W"
    using length_greater_0_conv [of xs] ne d(3-10) by linarith+
  note b = this
  have "newest (writes s) = of_nat (last W)" by (rule newest_rep [OF d(11)])
  then have "newest (writes s) \<noteq> r_local s"
    using cursor_eq_iff [OF less_imp_le [OF b(2)] b(1)] b(2) l by simp
  then have n: "newest (writes s) - r_local s \<noteq> 0" by simp
  show ?thesis
  proof (cases "r_local s = w_cache s")
    case True
    then have "readable (as_queue s) = (newest (writes s) - r_local s, (as_queue s)\<lparr>write_position_cache := newest (writes s)\<rparr>)"
      by (simp add: readable_def Let_def as_queue_def)
    with r n show ?thesis by (auto simp: try_dequeue_def Let_def chain_eq_ok split: if_splits)
  next
    case False
    then have "readable (as_queue s) = (w_cache s - r_local s, as_queue s)" "w_cache s - r_local s \<noteq> 0"
      by (simp_all add: readable_def Let_def as_queue_def)
    with r show ?thesis by (auto simp: try_dequeue_def Let_def chain_eq_ok split: if_splits)
  qed
qed

text \<open>
  C20: the consumer makes progress on its own: from any reachable state in which it is between calls
  and an element is in flight, whatever the producer is in the middle of, finitely many of its steps
  deliver exactly the oldest such element, once it loads the newest cursor.
\<close>

theorem weak_progress:
  assumes "power_of_two N" "executes tr (threads_new c N) s" "c_at s = C_Ready" "stored s \<noteq> removed s"
  shows "\<exists>n s'. solo (consumer_move tr (length (stores (writes s))) Take_One) n s = ok s' \<and> c_at s' = C_Ready \<and>
    removed s' = removed s @ [stored s ! length (removed s)]"
proof -
  obtain R W rc wc xs where rep: "threads_rep s R W rc wc xs" using executes_new(1) [OF assms(1,2)] by blast
  then have "xs \<noteq> []" using assms(4) by (auto simp: threads_rep_def Let_def)
  have k: "length W \<le> length (stores (writes s))" using threads_repD(11) [OF rep] by (simp add: channel_rep_def)
  obtain n s' ys where r: "solo (consumer_move tr (length (stores (writes s))) Take_One) n s = ok s'"
    "call_take tr Take_One (as_queue s) = ok (ys, as_queue s')" "c_at s' = C_Ready" "removed s' = removed s @ ys"
    using solo_take_call [OF rep assms(3) _ k, of Take_One] by blast
  obtain x where ys: "ys = [x]" using dequeue_delivers [OF rep \<open>xs \<noteq> []\<close> r(2)] by blast
  obtain R' W' rc' wc' zs where "threads_rep s' R' W' rc' wc' zs"
    using executes_new(1) [OF assms(1) solo_consumer_executes [OF assms(2) r(1)]] by blast
  then have "stored s = removed s @ x # zs"
    using solo_stored [OF r(1)] r(4) ys by (simp add: threads_rep_def Let_def)
  with r ys show ?thesis by auto
qed

theorem weak_progress_witness:
  "\<exists>s n s'. weak_start = ok s \<and> solo (consumer_move owning (length (stores (writes s))) Take_One) n s = ok s' \<and>
    removed s' = [7]"
proof -
  have p: "power_of_two 2" unfolding power_of_two_def by (rule exI [of _ 1]) simp
  obtain s where s: "weak_start = ok s" "executes owning (threads_new (2 ^ 64 - 1) 2) s" "c_at s = C_Ready"
    "stored s = [7, 8]" "removed s = []" using weak_start_result by blast
  then have "stored s \<noteq> removed s" by simp
  from weak_progress [OF p s(2,3) this] s show ?thesis by auto
qed

end
