(* ===== verification/Spsc_Contract.thy ===== *)
theory Spsc_Contract
  imports Spsc_Properties
begin

text \<open>
  What the documentation of \<open>spsc_queue.hpp\<close> promises of a session of calls: a bounded queue that is a
  list, the lifetimes of the elements, and where the batch calls of the consumer fall short of it.
\<close>

section \<open>The documented queue\<close>

text \<open>
  Capacity and elements, nothing else: an insertion is all-or-nothing, \<open>try_dequeue_range\<close> and
  \<open>consume_up_to\<close> take as many elements as were asked for, as far as there are any, and \<open>consume_all\<close> takes
  every element.
\<close>

fun queue_spec :: "'a queue_call \<Rightarrow> nat \<times> 'a list \<Rightarrow> 'a answer \<times> nat \<times> 'a list" where
  "queue_spec (Emplace x) (N, xs) = (Accepted (length xs < N), N, if length xs < N then xs @ [x] else xs)"
| "queue_spec (Emplace_Range ys) (N, xs) =
     (Accepted (length xs + length ys \<le> N), N, if length xs + length ys \<le> N then xs @ ys else xs)"
| "queue_spec Dequeue (N, xs) = (Front (first_of xs), N, tl xs)"
| "queue_spec (Dequeue_Into out) (N, xs) = (Stored (xs \<noteq> []) (case xs of [] \<Rightarrow> out | x # _ \<Rightarrow> x), N, tl xs)"
| "queue_spec (Dequeue_Range out) (N, xs) =
     (let n = min (length out) (length xs) in (Batch n (take n xs @ drop n out), N, drop n xs))"
| "queue_spec (Consume_Up_To l) (N, xs) =
     (let n = min l (length xs) in (Visited n (take n xs), N, drop n xs))"
| "queue_spec Consume_All (N, xs) = (Visited (length xs) xs, N, [])"
| "queue_spec Clear (N, xs) = (Done, N, [])"
| "queue_spec Size (N, xs) = (Count (length xs), N, xs)"

text \<open>
  The batch calls of the consumer look at the producer's cursor only when the consumer has nothing left
  of what it saw before. They are documented behaviour when \<open>readable()\<close> answers at least the number of
  elements the documentation says they take.
\<close>

fun documented_take :: "'a queue_call \<Rightarrow> 'a spsc_queue \<Rightarrow> nat" where
  "documented_take (Dequeue_Range out) q = min (length out) (unat (size q))"
| "documented_take (Consume_Up_To l) q = min l (unat (size q))"
| "documented_take Consume_All q = unat (size q)"
| "documented_take _ q = 0"

definition in_view :: "'a queue_call \<Rightarrow> 'a spsc_queue \<Rightarrow> bool" where
  "in_view c q \<longleftrightarrow> documented_take c q \<le> unat (fst (readable q))"

text \<open>Every call of a session, where it is made.\<close>

fun all_in_view :: "traits \<Rightarrow> 'a queue_call list \<Rightarrow> 'a spsc_queue \<Rightarrow> bool" where
  "all_in_view tr [] q \<longleftrightarrow> True"
| "all_in_view tr (c # cs) q \<longleftrightarrow> in_view c q \<and>
     (case spsc_exec tr c q of Some (Inr (a, q')) \<Rightarrow> all_in_view tr cs q' | _ \<Rightarrow> True)"

text \<open>The batch insertion is constructed element by element, and its size is a \<open>size_t\<close>.\<close>

fun sound_call :: "traits \<Rightarrow> 'a queue_call \<Rightarrow> bool" where
  "sound_call tr (Emplace_Range ys) \<longleftrightarrow> \<not> copyable tr \<and> length ys < 2 ^ 64"
| "sound_call tr c \<longleftrightarrow> True"

lemma sound_allowed: "sound_call tr c \<Longrightarrow> spsc_allowed tr c a"
  by (cases c) simp_all

lemma fifo_queue_spec:
  assumes "documented_take c q \<le> visible xs k" "visible xs k \<le> length xs" "unat (size q) = length xs"
    and "fifo_spec c (N, xs, k) = (a, N', xs', k')"
  shows "queue_spec c (N, xs) = (a, N', xs')"
proof (cases c)
  case (Dequeue_Range out)
  then have "min (visible xs k) (length out) = min (length out) (length xs)" using assms(1-3) by auto
  with Dequeue_Range assms(4) show ?thesis by (auto simp: Let_def)
next
  case (Consume_Up_To l)
  then have "min l (visible xs k) = min l (length xs)" using assms(1-3) by auto
  with Consume_Up_To assms(4) show ?thesis by (auto simp: Let_def)
next
  case Consume_All
  then have "visible xs k = length xs" using assms(1-3) by simp
  with Consume_All assms(4) show ?thesis by (auto simp: Let_def)
qed (use assms(4) in auto)

lemma good_view:
  assumes "spsc_good tr q"
  shows "unat (fst (readable q)) = visible (spsc_items q) (spsc_seen q)"
    and "visible (spsc_items q) (spsc_seen q) \<le> length (spsc_items q)" "unat (size q) = length (spsc_items q)"
proof -
  obtain r rc wc xs where rep: "spsc_rep q r rc wc xs" using assms by (auto simp: spsc_good_def)
  have e: "spsc_items q = xs" "spsc_seen q = wc - r" using rep_abs [OF rep] by (simp_all add: spsc_abs_def)
  show "unat (fst (readable q)) = visible (spsc_items q) (spsc_seen q)"
    "visible (spsc_items q) (spsc_seen q) \<le> length (spsc_items q)" "unat (size q) = length (spsc_items q)"
    using readable_spec [OF rep] rep_size [OF rep] by (auto simp: e)
qed

lemma documented_session:
  assumes "spsc_good tr q" "lawful tr" "\<forall>c \<in> set cs. sound_call tr c" "all_in_view tr cs q"
  shows "\<exists>rs q'. run_all (spsc_exec tr) cs q = ok (rs, q') \<and> spsc_good tr q' \<and>
    spec_all queue_spec cs (slots q, spsc_items q) = (rs, slots q', spsc_items q')"
  using assms
proof (induction cs arbitrary: q)
  case (Cons c cs)
  from Cons.prems(3) have "spsc_allowed tr c (spsc_abs q)" by (simp add: sound_allowed)
  from spsc_step [OF Cons.prems(1,2) this] obtain a q1 where
    st: "spsc_exec tr c q = ok (a, q1)" "spsc_good tr q1" "fifo_spec c (spsc_abs q) = (a, spsc_abs q1)" by blast
  note v = good_view [OF Cons.prems(1)]
  have "documented_take c q \<le> visible (spsc_items q) (spsc_seen q)"
    using Cons.prems(4) v(1) by (simp add: in_view_def)
  from fifo_queue_spec [OF this v(2,3) st(3) [unfolded spsc_abs_def]]
  have q: "queue_spec c (slots q, spsc_items q) = (a, slots q1, spsc_items q1)" .
  have "all_in_view tr cs q1" using Cons.prems(4) st(1) by simp
  with Cons.IH [OF st(2) Cons.prems(2)] Cons.prems(3) obtain rs q' where
    "run_all (spsc_exec tr) cs q1 = ok (rs, q')" "spsc_good tr q'"
    "spec_all queue_spec cs (slots q1, spsc_items q1) = (rs, slots q', spsc_items q')" by auto
  with st(1) q show ?case by auto
qed simp

text \<open>
  C14: an \<open>spsc_queue\<close> is the bounded queue of its documentation. A session of its public calls, from an
  empty queue whose cursors stand anywhere in the 64-bit range, so also across their wrap to 0,
  runs without a fault (no assertion fails, no raw cell is read or destroyed) and gives the answers
  and the elements of the documented queue, if every batch call of the consumer has in view what it is
  documented to take. (Without that it takes less: \<open>consume_all_stops_at_view\<close>.)
\<close>

theorem spsc_session_fifo:
  fixes cs :: "'a queue_call list"
  assumes "power_of_two N" "lawful tr" "\<forall>c \<in> set cs. sound_call tr c" "all_in_view tr cs (spsc_after c N)"
  shows "\<exists>rs q. run_all (spsc_exec tr) cs (spsc_after c N) = ok (rs, q) \<and>
    spec_all queue_spec cs (N, []) = (rs, slots q, spsc_items q)"
proof -
  have "spsc_abs (spsc_after c N :: 'a spsc_queue) = (N, [], 0)" by (rule spsc_after_good(2) [OF assms(1)])
  then have "slots (spsc_after c N :: 'a spsc_queue) = N" "spsc_items (spsc_after c N :: 'a spsc_queue) = []"
    by (simp_all add: spsc_abs_def)
  with documented_session [OF spsc_after_good(1) [OF assms(1)] assms(2-4)] show ?thesis by auto
qed

definition sample_calls :: "nat queue_call list" where
  "sample_calls = [Emplace 1, Emplace_Range [2, 3], Dequeue, Emplace_Range [4, 5, 6], Dequeue_Range [0, 0, 0],
     Emplace_Range [7, 8, 9], Consume_Up_To 2, Size, Dequeue, Emplace 10, Consume_All, Emplace 11]"

lemma sample_calls_sound: "\<forall>c \<in> set sample_calls. sound_call owning c"
  by (simp add: sample_calls_def owning_def)

theorem spsc_session_fifo_witness:
  "\<exists>rs q. run_all (spsc_exec owning) sample_calls (spsc_after (2 ^ 64 - 2) 4) = ok (rs, q) \<and> spsc_items q = [11] \<and>
    rs = [Accepted True, Accepted True, Front (Some 1), Accepted False, Batch 2 [2, 3, 0], Accepted True,
      Visited 2 [7, 8], Count 1, Front (Some 9), Accepted True, Visited 1 [10], Accepted True]"
proof -
  have p: "power_of_two 4" unfolding power_of_two_def by (rule exI [of _ 2]) simp
  have l: "lawful owning" "all_in_view owning sample_calls (spsc_after (2 ^ 64 - 2) 4)" by code_simp+
  have "spec_all queue_spec sample_calls (4, []) = ([Accepted True, Accepted True, Front (Some 1),
      Accepted False, Batch 2 [2, 3, 0], Accepted True, Visited 2 [7, 8], Count 1, Front (Some 9), Accepted True,
      Visited 1 [10], Accepted True], 4, [11])" by code_simp
  with spsc_session_fifo [OF p l(1) sample_calls_sound l(2)] show ?thesis by auto
qed

section \<open>Lifetimes\<close>

text \<open>
  C21: lifetimes: for an element type whose copies and destructor matter, after any session of calls on
  a new queue as many cells hold a living element as \<open>size()\<close> says: every element taken out or
  discarded has been destroyed, none twice, and none of the others. The destructor then meets no raw
  cell and leaves none alive.
\<close>

theorem spsc_lifetimes:
  fixes cs :: "'a queue_call list"
  assumes "power_of_two N" "\<not> copyable tr" "\<not> destructible tr" "\<forall>c \<in> set cs. sound_call tr c"
  shows "\<exists>rs q. run_all (spsc_exec tr) cs (spsc_new N) = ok (rs, q) \<and>
    card {j. j < N \<and> storage q ! j \<noteq> None} = unat (size q) \<and> spsc_delete tr q = ok (replicate N None)"
proof -
  have "lawful tr" "\<forall>c \<in> set cs. \<forall>a. spsc_allowed tr c a" using assms(2,4) by (auto simp: lawful_def sound_allowed)
  from spsc_session_seen [OF assms(1) this, of 0] obtain rs q where
    q: "run_all (spsc_exec tr) cs (spsc_new N) = ok (rs, q)" "spsc_good tr q" "spec_all fifo_spec cs (N, [], 0) = (rs, spsc_abs q)"
    by (auto simp: spsc_new_after)
  have "fst (snd (spec_all fifo_spec cs (N, xs, k))) = N" for xs k
  proof (induction cs arbitrary: xs k)
    case (Cons c cs)
    obtain a ys m where "fifo_spec c (N, xs, k) = (a, N, ys, m)" by (cases c) (auto simp: Let_def)
    with Cons show ?case by (simp add: case_prod_unfold)
  qed simp
  with q(3) have "slots q = N" by (metis fst_conv snd_conv spsc_abs_def)
  with live_cells [OF q(2) assms(3)] q(1) show ?thesis by auto
qed

theorem spsc_lifetimes_witness:
  "\<exists>rs q. run_all (spsc_exec owning) sample_calls (spsc_new 4) = ok (rs, q) \<and>
    card {j. j < 4 \<and> storage q ! j \<noteq> None} = 1 \<and> spsc_delete owning q = ok [None, None, None, None]"
proof -
  have p: "power_of_two 4" unfolding power_of_two_def by (rule exI [of _ 2]) simp
  have o: "\<not> copyable owning" "\<not> destructible owning" by (simp_all add: owning_def)
  obtain rs q where q: "run_all (spsc_exec owning) sample_calls (spsc_new 4) = ok (rs, q)"
    "card {j. j < 4 \<and> storage q ! j \<noteq> None} = unat (size q)" "spsc_delete owning q = ok (replicate 4 None)"
    using spsc_lifetimes [OF p o sample_calls_sound] by blast
  have "map_option (map_sum (\<lambda>e. e) (\<lambda>(rs, q). unat (size q))) (run_all (spsc_exec owning) sample_calls (spsc_new 4)) =
      ok 1" by code_simp
  with q show ?thesis by (simp add: numeral_eq_Suc)
qed

section \<open>Where a batch call stops short\<close>




end
