(* ===== verification/Fast_Queue.thy ===== *)
theory Fast_Queue
  imports Ring Fifo
begin

text \<open>
  \<open>FastQueue\<close> of \<open>src/concurrent_queue/fast_queue.hpp\<close>: a byte ring carrying messages, each a 4-byte
  little-endian length followed by its payload. The cursors are free-running 64-bit byte counts.
  The memory copies check their bounds: what C++ leaves undefined is the fault \<open>Bad_Index\<close>.
\<close>

section \<open>State\<close>

type_synonym byte = "8 word"

record fast_queue =
  fq_capacity :: cursor
  fq_mask :: cursor
  buffer :: "byte list"
  fq_read :: cursor
  fq_write :: cursor

definition kHeader :: nat where
  "kHeader = 4"

text \<open>\<open>while (p < v) p <<= 1;\<close> at 64 bits, where the shift can lose the last bit.\<close>

partial_function (option) pow2_loop :: "cursor \<Rightarrow> cursor \<Rightarrow> cursor option" where
  "pow2_loop v p = (if p < v then pow2_loop v (push_bit 1 p) else Some p)"

declare pow2_loop.simps [code]

definition round_up_pow2 :: "cursor \<Rightarrow> cursor option" where
  "round_up_pow2 v = pow2_loop v 1"

definition fast_queue_new :: "cursor \<Rightarrow> fast_queue option" where
  "fast_queue_new capacity_bytes =
     (case round_up_pow2 capacity_bytes of
        None \<Rightarrow> None
      | Some c \<Rightarrow> Some \<lparr>fq_capacity = c, fq_mask = c - 1, buffer = replicate (unat c) 0,
          fq_read = 0, fq_write = 0\<rparr>)"

section \<open>Copies\<close>

text \<open>\<open>memcpy\<close> into the buffer at an offset, and out of it.\<close>

definition store_bytes :: "nat \<Rightarrow> byte list \<Rightarrow> byte list \<Rightarrow> byte list run" where
  "store_bytes k src buf =
     (if k + length src \<le> length buf then ok (take k buf @ src @ drop (k + length src) buf)
      else abort Bad_Index)"

definition load_bytes :: "nat \<Rightarrow> nat \<Rightarrow> byte list \<Rightarrow> byte list run" where
  "load_bytes k n buf = (if k + n \<le> length buf then ok (take n (drop k buf)) else abort Bad_Index)"

definition copy_in :: "fast_queue \<Rightarrow> cursor \<Rightarrow> byte list \<Rightarrow> byte list \<Rightarrow> byte list run" where
  "copy_in q pos src buf =
     (let offset = unat (pos AND fq_mask q);
          first = min (length src) (unat (fq_capacity q) - offset) in
      chain (store_bytes offset (take first src) buf) (\<lambda>buf1.
      if first < length src then store_bytes 0 (drop first src) buf1 else ok buf1))"

text \<open>The bytes \<open>copy_out\<close> puts into a destination of size \<open>n\<close>.\<close>

definition copy_out :: "fast_queue \<Rightarrow> cursor \<Rightarrow> nat \<Rightarrow> byte list run" where
  "copy_out q pos n =
     (let offset = unat (pos AND fq_mask q);
          first = min n (unat (fq_capacity q) - offset) in
      chain (load_bytes offset first (buffer q)) (\<lambda>bs.
      if first < n then chain (load_bytes 0 (n - first) (buffer q)) (\<lambda>cs. ok (bs @ cs)) else ok bs))"

section \<open>Messages\<close>

text \<open>The bytes of a \<open>std::uint32_t\<close> in memory, little-endian, and back.\<close>

definition le_bytes :: "32 word \<Rightarrow> byte list" where
  "le_bytes w = [ucast w, ucast (drop_bit 8 w), ucast (drop_bit 16 w), ucast (drop_bit 24 w)]"

definition le_word :: "byte list \<Rightarrow> 32 word" where
  "le_word bs = ucast (bs ! 0) OR push_bit 8 (ucast (bs ! 1)) OR push_bit 16 (ucast (bs ! 2)) OR
     push_bit 24 (ucast (bs ! 3))"

definition try_push :: "byte list \<Rightarrow> fast_queue \<Rightarrow> (bool \<times> fast_queue) run" where
  "try_push data q =
     (let size = (of_nat (length data) :: 32 word);
          need = of_nat kHeader + (ucast size :: cursor);
          w = fq_write q; r = fq_read q in
      if fq_capacity q - (w - r) < need then ok (False, q)
      else
        chain (copy_in q w (le_bytes size) (buffer q)) (\<lambda>buf1.
        chain (copy_in q (w + of_nat kHeader) data buf1) (\<lambda>buf2.
        ok (True, q\<lparr>buffer := buf2, fq_write := w + need\<rparr>))))"

text \<open>\<open>try_pop\<close> into a destination span: the size of the message and the span afterwards.\<close>

definition try_pop :: "byte list \<Rightarrow> fast_queue \<Rightarrow> (nat option \<times> byte list \<times> fast_queue) run" where
  "try_pop out q =
     (let r = fq_read q; w = fq_write q in
      if r = w then ok (None, out, q)
      else
        chain (copy_out q r kHeader) (\<lambda>header.
        let size = le_word header in
        if \<not> w - r \<ge> of_nat kHeader + ucast size then abort Assert_Failed
        else if \<not> unat size \<le> length out then abort Assert_Failed
        else
          chain (copy_out q (r + of_nat kHeader) (unat size)) (\<lambda>bs.
          ok (Some (unat size), bs @ drop (unat size) out,
              q\<lparr>fq_read := r + of_nat kHeader + ucast size\<rparr>))))"

definition fq_empty :: "fast_queue \<Rightarrow> bool" where
  "fq_empty q \<longleftrightarrow> fq_read q = fq_write q"

section \<open>Rounding up the capacity\<close>

lemma pow2_cursor: "i < 64 \<Longrightarrow> unat (2 ^ i :: cursor) = 2 ^ i"
  by (metis of_nat_numeral of_nat_power power_strict_increasing_iff one_less_numeral_iff
      semiring_norm(76) unat_cursor)

lemma pow2_loop_up:
  assumes "k \<le> j" "j < 64" "\<forall>i. k \<le> i \<and> i < j \<longrightarrow> (2 ^ i :: nat) < unat v" "unat v \<le> 2 ^ j"
  shows "pow2_loop v (2 ^ k) = Some (2 ^ j)"
  using assms
proof (induction "j - k" arbitrary: k)
  case 0
  then have "k = j" by simp
  with 0 pow2_cursor [of j] show ?case by (subst pow2_loop.simps) (simp add: word_less_nat_alt)
next
  case (Suc n)
  then have "(2 ^ k :: cursor) < v" using pow2_cursor [of k] by (simp add: word_less_nat_alt)
  moreover have "pow2_loop v (2 ^ Suc k) = Some (2 ^ j)" using Suc by (intro Suc.hyps(1)) auto
  ultimately show ?case by (subst pow2_loop.simps) (simp add: push_bit_eq_mult mult.commute)
qed

lemma le_roundtrip: "le_word (le_bytes w) = w"
proof (rule bit_word_eqI)
  fix n
  assume n: "n < LENGTH(32)"
  then consider "n < 8" | "8 \<le> n" "n < 16" | "16 \<le> n" "n < 24" | "24 \<le> n" by linarith
  then show "bit (le_word (le_bytes w)) n = bit w n"
    using n by cases (simp_all add: le_word_def le_bytes_def bit_simps less_diff_conv2)
qed

lemma length_le_bytes [simp]: "length (le_bytes w) = 4"
  by (simp add: le_bytes_def)

section \<open>What the ring holds\<close>

text \<open>The cells of the buffer from cursor \<open>r\<close> on hold the bytes \<open>bs\<close>.\<close>

definition holds :: "byte list \<Rightarrow> nat \<Rightarrow> byte list \<Rightarrow> bool" where
  "holds buf r bs \<longleftrightarrow> (\<forall>i < length bs. buf ! ((r + i) mod length buf) = bs ! i)"

lemma holds_held: "0 < length buf \<Longrightarrow> holds buf r bs \<longleftrightarrow> held (map Some buf) r bs"
  by (simp add: holds_def held_def)

lemma holds_append: "0 < length buf \<Longrightarrow> holds buf r (bs @ cs) \<longleftrightarrow> holds buf r bs \<and> holds buf (r + length bs) cs"
  by (simp add: holds_held held_append)

definition ring_ok :: "fast_queue \<Rightarrow> nat \<Rightarrow> bool" where
  "ring_ok q N \<longleftrightarrow> power_of_two N \<and> fq_capacity q = of_nat N \<and> fq_mask q = of_nat N - 1"

lemma ring_ok_cap: "ring_ok q N \<Longrightarrow> 0 < N \<and> N < 2 ^ 64 \<and> unat (fq_capacity q) = N"
  using power_of_two_bounds unat_cursor by (auto simp: ring_ok_def)

lemma ring_offset: "ring_ok q N \<Longrightarrow> unat (of_nat w AND fq_mask q) = w mod N"
  using masked_of_nat [of N w] by (simp add: ring_ok_def masked_def)

text \<open>A block store changes its block only; a copy into the ring writes exactly its window.\<close>

lemma store_bytes_spec:
  assumes "k + length xs \<le> length buf"
  shows "\<exists>buf'. store_bytes k xs buf = ok buf' \<and> length buf' = length buf \<and>
    (\<forall>j < length buf. buf' ! j = (if k \<le> j \<and> j < k + length xs then xs ! (j - k) else buf ! j))"
  using assms by (auto simp: store_bytes_def nth_append)

lemma copy_in_spec:
  assumes ring: "ring_ok q N" and len: "length buf = N" "length src \<le> N"
  shows "\<exists>buf'. copy_in q (of_nat w) src buf = ok buf' \<and> length buf' = N \<and> holds buf' w src \<and>
    (\<forall>j < N. (\<forall>i < length src. j \<noteq> (w + i) mod N) \<longrightarrow> buf' ! j = buf ! j)"
proof -
  let ?k = "w mod N" and ?n = "length src"
  define f where "f = min ?n (N - ?k)"
  note c = ring_ok_cap [OF ring]
  have k: "?k < N" using c by simp
  have f: "f \<le> ?n" "?k + f \<le> N" "f < ?n \<Longrightarrow> f = N - ?k" "length (take f src) = f" using k by (auto simp: f_def)
  obtain b1 where b1: "store_bytes ?k (take f src) buf = ok b1" "length b1 = N"
    "\<And>j. j < N \<Longrightarrow> b1 ! j = (if ?k \<le> j \<and> j < ?k + f then take f src ! (j - ?k) else buf ! j)"
    using store_bytes_spec [of ?k "take f src" buf] f len by auto
  obtain b2 where b2: "store_bytes 0 (drop f src) b1 = ok b2" "length b2 = N"
    "\<And>j. j < N \<Longrightarrow> b2 ! j = (if j < ?n - f then drop f src ! j else b1 ! j)"
  proof -
    have "0 + length (drop f src) \<le> length b1" using b1(2) len(2) by simp
    from store_bytes_spec [OF this] b1(2) that show thesis by auto
  qed
  let ?b = "if f < ?n then b2 else b1"
  have run: "copy_in q (of_nat w) src buf = ok ?b"
    unfolding copy_in_def Let_def ring_offset [OF ring] using c b1(1) b2(1)
    by (simp add: f_def [symmetric])
  have val: "?b ! j = (if ?k \<le> j \<and> j < ?k + f then src ! (j - ?k)
      else if j < ?n - f then src ! (f + j) else buf ! j)" if j: "j < N" for j
  proof (cases "f < ?n")
    case True
    have "\<not> (?k \<le> j \<and> j < ?n - f)" using f(3) [OF True] len(2) k by auto
    with True b1(3) [OF j] b2(3) [OF j] show ?thesis by auto
  next
    case False
    with b1(3) [OF j] show ?thesis by auto
  qed
  have idx: "(w + i) mod N = (if i < f then ?k + i else i - f)" if "i < ?n" for i
    using window_index [OF that len(2), of w] by (simp add: f_def)
  have "?b ! ((w + i) mod N) = src ! i" if i: "i < ?n" for i
  proof -
    have m: "(w + i) mod N < N" using c by simp
    show ?thesis
    proof (cases "i < f")
      case True
      with idx [OF i] val [OF m] show ?thesis by simp
    next
      case False
      with i f(3) have "f = N - ?k" by simp
      with False i len(2) k have "i - f < ?k" "i - f < ?n - f" by auto
      with False idx [OF i] val [OF m] show ?thesis by simp
    qed
  qed
  moreover have "?b ! j = buf ! j" if j: "j < N" "\<forall>i < ?n. j \<noteq> (w + i) mod N" for j
  proof -
    have "\<not> (?k \<le> j \<and> j < ?k + f)"
    proof
      assume a: "?k \<le> j \<and> j < ?k + f"
      then obtain i where i: "j = ?k + i" "i < f" by (metis le_add_diff_inverse nat_add_left_cancel_less)
      with f(1) idx [of i] have "(w + i) mod N = j" "i < ?n" by auto
      with j(2) show False by blast
    qed
    moreover have "\<not> j < ?n - f"
    proof
      assume "j < ?n - f"
      then have "f + j < ?n" by simp
      with idx [OF this] j(2) show False by auto
    qed
    ultimately show ?thesis using val [OF j(1)] by meson
  qed
  ultimately show ?thesis using run b1(2) b2(2) by (intro exI [of _ ?b]) (auto simp: holds_def)
qed

lemma copy_out_spec:
  assumes ring: "ring_ok q N" and len: "length (buffer q) = N" "length bs \<le> N" "n \<le> length bs"
    and h: "holds (buffer q) r bs"
  shows "copy_out q (of_nat r) n = ok (take n bs)"
proof -
  note c = ring_ok_cap [OF ring]
  define f where "f = min n (N - r mod N)"
  have h': "held (map Some (buffer q)) r bs" using h c len(1) by (simp add: holds_held)
  have "map Some (take f (drop (r mod N) (buffer q))) = map Some (take f bs)"
    "map Some (take (n - f) (buffer q)) = map Some (drop f (take n bs))" "r mod N + f \<le> N"
    using held_blocks [OF h' _ len(3)] len c by (simp_all add: take_map drop_map f_def)
  then have b: "take f (drop (r mod N) (buffer q)) = take f bs"
    "take (n - f) (buffer q) = drop f (take n bs)" "r mod N + f \<le> N"
    by (simp_all only: inj_map_eq_map [OF inj_Some])
  have l: "load_bytes (r mod N) f (buffer q) = ok (take f bs)" "load_bytes 0 (n - f) (buffer q) = ok (drop f (take n bs))"
    using b len by (simp_all add: load_bytes_def f_def)
  have fn: "f \<le> n" by (simp add: f_def)
  then have "take f bs @ drop f (take n bs) = take n bs"
    by (metis append_take_drop_id min.absorb1 take_take)
  moreover have "\<not> f < n \<Longrightarrow> take f bs = take n bs" using fn by simp
  ultimately show ?thesis
    unfolding copy_out_def Let_def ring_offset [OF ring] using c l by (simp add: f_def [symmetric])
qed

end
