(* ===== verification/Fast_Queue_Properties.thy ===== *)
theory Fast_Queue_Properties
  imports Fast_Queue
begin

text \<open>
  What \<open>FastQueue\<close> promises: the ring holds a sequence of length-prefixed messages, \<open>try_push\<close> and
  \<open>try_pop\<close> implement the FIFO contract on it, and the constructor rounds the capacity up to the
  least power of two. The last section states where the code breaks: capacities above \<open>2 ^ 63\<close> and
  messages of \<open>2 ^ 32\<close> bytes or more.
\<close>

section \<open>Messages in the ring\<close>

text \<open>A message on the wire, and the messages of a sequence of bytes.\<close>

definition encode :: "byte list \<Rightarrow> byte list" where
  "encode m = le_bytes (of_nat (length m)) @ m"

fun decode :: "byte list \<Rightarrow> byte list list" where
  "decode bs = (if length bs < 4 then [] else
     let n = unat (le_word bs) in take n (drop 4 bs) # decode (drop (4 + n) bs))"

declare decode.simps [simp del]

definition wire :: "byte list list \<Rightarrow> byte list" where
  "wire ms = concat (map encode ms)"

definition sendable :: "byte list \<Rightarrow> bool" where
  "sendable m \<longleftrightarrow> length m < 2 ^ 32"

lemma wire_simps [simp]: "wire [] = []" "wire (m # ms) = encode m @ wire ms" "wire (ms @ ns) = wire ms @ wire ns"
  by (simp_all add: wire_def)

lemma length_encode [simp]: "length (encode m) = 4 + length m"
  by (simp add: encode_def)

lemma le_word_append: "length bs = 4 \<Longrightarrow> le_word (bs @ cs) = le_word bs"
  by (simp add: le_word_def nth_append)

lemma le_word_encode: "sendable m \<Longrightarrow> unat (le_word (encode m @ bs)) = length m"
  by (simp add: encode_def le_word_append le_roundtrip sendable_def unsigned_of_nat take_bit_nat_eq_self)

lemma decode_wire: "\<forall>m \<in> set ms. sendable m \<Longrightarrow> decode (wire ms) = ms"
proof (induction ms)
  case (Cons m ms)
  have "drop 4 (encode m @ wire ms) = m @ wire ms" by (simp add: encode_def)
  with Cons show ?case by (subst decode.simps) (simp add: le_word_encode)
qed (simp add: decode.simps)

section \<open>The representation\<close>

definition fq_rep :: "fast_queue \<Rightarrow> nat \<Rightarrow> nat \<Rightarrow> byte list list \<Rightarrow> bool" where
  "fq_rep q N r ms \<longleftrightarrow> ring_ok q N \<and> length (buffer q) = N \<and> fq_read q = of_nat r \<and>
     fq_write q = of_nat (r + length (wire ms)) \<and> length (wire ms) \<le> N \<and> holds (buffer q) r (wire ms) \<and>
     (\<forall>m \<in> set ms. sendable m)"

definition fq_inv :: "fast_queue \<Rightarrow> bool" where
  "fq_inv q \<longleftrightarrow> (\<exists>N r ms. fq_rep q N r ms)"

text \<open>The messages of a queue, read off its cells, and the room a message needs.\<close>

definition fq_used :: "fast_queue \<Rightarrow> nat" where
  "fq_used q = unat (fq_write q - fq_read q)"

definition fq_messages :: "fast_queue \<Rightarrow> byte list list" where
  "fq_messages q = decode (map (\<lambda>i. buffer q ! unat ((fq_read q + of_nat i) AND fq_mask q)) [0..<fq_used q])"

definition fq_fits :: "byte list \<Rightarrow> fast_queue \<Rightarrow> bool" where
  "fq_fits m q \<longleftrightarrow> fq_used q + kHeader + length m \<le> unat (fq_capacity q)"

lemma rep_used: "fq_rep q N r ms \<Longrightarrow> fq_used q = length (wire ms)"
  using ring_ok_cap [of q N] cursor_diff [of r "r + length (wire ms)"] by (simp add: fq_rep_def fq_used_def del: of_nat_add)

lemma rep_messages:
  assumes "fq_rep q N r ms"
  shows "fq_messages q = ms"
proof -
  have ring: "ring_ok q N" "fq_read q = of_nat r" and len: "length (buffer q) = N"
    and h: "holds (buffer q) r (wire ms)" and v: "\<forall>m \<in> set ms. sendable m"
    using assms by (simp_all add: fq_rep_def)
  have "unat ((fq_read q + of_nat i) AND fq_mask q) = (r + i) mod N" for i
    using ring_offset [OF ring(1), of "r + i"] ring(2) by simp
  then have "map (\<lambda>i. buffer q ! unat ((fq_read q + of_nat i) AND fq_mask q)) [0..<length (wire ms)] = wire ms"
    using h len by (intro nth_equalityI) (simp_all add: holds_def)
  with v show ?thesis by (simp add: fq_messages_def rep_used [OF assms] decode_wire)
qed

lemma rep_fits: "fq_rep q N r ms \<Longrightarrow> fq_fits m q \<longleftrightarrow> length (wire ms) + 4 + length m \<le> N"
  using ring_ok_cap [of q N] rep_used [of q N r ms] by (auto simp: fq_fits_def kHeader_def fq_rep_def)

section \<open>Push and pop\<close>

lemma room_check:
  assumes "ring_ok q N" "l \<le> N" "n < 2 ^ 33"
  shows "fq_capacity q - of_nat l < of_nat n \<longleftrightarrow> N < l + n"
proof -
  have N: "N < 2 ^ 64" "fq_capacity q = of_nat N" using assms(1) ring_ok_cap [OF assms(1)] by (simp_all add: ring_ok_def)
  have "fq_capacity q - of_nat l = of_nat (N - l)" using N(2) assms(2) by (simp add: of_nat_diff)
  moreover have "unat (of_nat (N - l) :: cursor) = N - l" using N by (intro unat_cursor) linarith
  moreover have "unat (of_nat n :: cursor) = n" using assms(3) by (intro unat_cursor) simp
  ultimately show ?thesis using assms(2) by (auto simp: word_less_nat_alt)
qed

text \<open>Writing behind the window leaves the window alone.\<close>

lemma copy_behind:
  assumes "ring_ok q N" "length buf = N" "holds buf r bs" "length bs + length src \<le> N"
  shows "\<exists>buf'. copy_in q (of_nat (r + length bs)) src buf = ok buf' \<and> length buf' = N \<and> holds buf' r (bs @ src)"
proof -
  have "length src \<le> N" using assms(4) by simp
  from copy_in_spec [OF assms(1,2) this, of "r + length bs"] obtain buf' where b:
    "copy_in q (of_nat (r + length bs)) src buf = ok buf'" "length buf' = N" "holds buf' (r + length bs) src"
    "\<And>j. j < N \<Longrightarrow> \<forall>i < length src. j \<noteq> (r + length bs + i) mod N \<Longrightarrow> buf' ! j = buf ! j" by blast
  have N: "0 < N" using ring_ok_cap [OF assms(1)] by simp
  have "buf' ! ((r + i) mod N) = bs ! i" if i: "i < length bs" for i
  proof -
    have "(r + i) mod N \<noteq> (r + length bs + j) mod N" if "j < length src" for j
      using i that assms(4) by (intro window_neq) auto
    then have "buf' ! ((r + i) mod N) = buf ! ((r + i) mod N)" using N by (intro b(4)) auto
    with assms(2,3) i show ?thesis by (simp add: holds_def)
  qed
  then have "holds buf' r bs" using b(2) by (simp add: holds_def)
  with b N show ?thesis by (simp add: holds_append)
qed

lemma try_push_spec:
  assumes rep: "fq_rep q N r ms" and m: "sendable m"
  shows "\<exists>q'. try_push m q = ok (fq_fits m q, q') \<and> fq_rep q' N r (if fq_fits m q then ms @ [m] else ms)"
proof -
  let ?l = "length (wire ms)" and ?n = "4 + length m"
  let ?size = "of_nat (length m) :: 32 word"
  have ring: "ring_ok q N" and e: "fq_read q = of_nat r" "fq_write q = of_nat (r + ?l)"
    and len: "length (buffer q) = N" "?l \<le> N" and h: "holds (buffer q) r (wire ms)"
    and v: "\<forall>m \<in> set ms. sendable m"
    using rep by (simp_all add: fq_rep_def)
  have need: "of_nat kHeader + (ucast ?size :: cursor) = of_nat ?n"
    using m by (simp add: kHeader_def sendable_def unsigned_of_nat take_bit_nat_eq_self)
  have used: "(of_nat (r + ?l) - of_nat r :: cursor) = of_nat ?l" by (simp add: cursor_diff_of_nat)
  have n: "?n < 2 ^ 33" using m by (simp add: sendable_def)
  note room = room_check [OF ring len(2) n]
  show ?thesis
  proof (cases "fq_fits m q")
    case False
    then have "N < ?l + ?n" using rep_fits [OF rep] by simp
    with room have "fq_capacity q - of_nat ?l < of_nat ?n" by simp
    then have "try_push m q = ok (False, q)" unfolding try_push_def Let_def e need used by (rule if_P)
    with False rep show ?thesis by auto
  next
    case True
    then have fits: "?l + ?n \<le> N" using rep_fits [OF rep] by simp
    with room have nl: "\<not> fq_capacity q - of_nat ?l < of_nat ?n" by simp
    have "?l + length (le_bytes ?size) \<le> N" using fits by simp
    from copy_behind [OF ring len(1) h this] obtain b1 where b1:
      "copy_in q (of_nat (r + ?l)) (le_bytes ?size) (buffer q) = ok b1" "length b1 = N"
      "holds b1 r (wire ms @ le_bytes ?size)" by auto
    have "length (wire ms @ le_bytes ?size) + length m \<le> N" using fits by simp
    from copy_behind [OF ring b1(2,3) this] obtain b2 where b2:
      "copy_in q (of_nat (r + length (wire ms @ le_bytes ?size))) m b1 = ok b2" "length b2 = N"
      "holds b2 r ((wire ms @ le_bytes ?size) @ m)" by auto
    have pos: "of_nat (r + ?l) + of_nat kHeader = (of_nat (r + length (wire ms @ le_bytes ?size)) :: cursor)"
      by (simp add: kHeader_def)
    have "try_push m q = ok (True, q\<lparr>buffer := b2, fq_write := of_nat (r + ?l) + of_nat ?n\<rparr>)"
      unfolding try_push_def Let_def e need used pos using nl b1(1) b2(1) by (simp del: of_nat_add length_append)
    moreover have "fq_rep (q\<lparr>buffer := b2, fq_write := of_nat (r + ?l) + of_nat ?n\<rparr>) N r (ms @ [m])"
      using ring e b2 fits v m by (simp add: fq_rep_def ring_ok_def encode_def)
    ultimately show ?thesis using True by auto
  qed
qed

lemma try_pop_empty: "fq_rep q N r [] \<Longrightarrow> try_pop out q = ok (None, out, q)"
  by (simp add: fq_rep_def try_pop_def)

text \<open>What the consumer reads at the front of a non-empty ring.\<close>

lemma front_of_ring:
  assumes rep: "fq_rep q N r (m # ms)"
  shows "fq_read q \<noteq> fq_write q" "copy_out q (fq_read q) kHeader = ok (le_bytes (of_nat (length m)))"
    "copy_out q (fq_read q + of_nat kHeader) (length m) = ok m"
    "fq_write q - fq_read q \<ge> of_nat kHeader + (ucast (of_nat (length m) :: 32 word) :: cursor)"
    "unat (of_nat (length m) :: 32 word) = length m" "(ucast (of_nat (length m) :: 32 word) :: cursor) = of_nat (length m)"
    "holds (buffer q) (r + 4 + length m) (wire ms)"
proof -
  let ?l = "length (wire (m # ms))" and ?h = "le_bytes (of_nat (length m))" and ?size = "of_nat (length m) :: 32 word"
  have ring: "ring_ok q N" and e: "fq_read q = of_nat r" "fq_write q = of_nat (r + ?l)"
    and len: "length (buffer q) = N" "?l \<le> N" and h: "holds (buffer q) r (wire (m # ms))"
    and v: "\<forall>m \<in> set (m # ms). sendable m"
    using rep by (simp_all add: fq_rep_def)
  note cap = ring_ok_cap [OF ring]
  show "fq_read q \<noteq> fq_write q" unfolding e using cursor_eq_iff [of r "r + ?l"] len(2) cap by simp
  have w: "wire (m # ms) = ?h @ (m @ wire ms)" by (simp add: encode_def)
  show "copy_out q (fq_read q) kHeader = ok ?h"
    unfolding e using copy_out_spec [OF ring len _ h, of kHeader] by (simp add: kHeader_def encode_def)
  have h2: "holds (buffer q) (r + 4) (m @ wire ms)"
    using h cap len(1) unfolding w by (subst (asm) holds_append) auto
  show sz: "unat ?size = length m" "(ucast ?size :: cursor) = of_nat (length m)"
    using v by (simp_all add: sendable_def unsigned_of_nat take_bit_nat_eq_self)
  have p4: "fq_read q + of_nat kHeader = of_nat (r + 4)" by (simp add: e kHeader_def)
  show "copy_out q (fq_read q + of_nat kHeader) (length m) = ok m"
    unfolding p4 using copy_out_spec [OF ring len(1) _ _ h2, of "length m"] len(2) by simp
  have "unat (of_nat kHeader + ucast ?size :: cursor) = 4 + length m"
  proof -
    have "(of_nat kHeader + ucast ?size :: cursor) = of_nat (4 + length m)" using sz by (simp add: kHeader_def)
    then show ?thesis using len(2) cap by (simp only:) (rule unat_cursor, simp)
  qed
  moreover have "unat (fq_write q - fq_read q) = ?l"
    unfolding e using cursor_diff [of r "r + ?l"] len(2) cap by simp
  ultimately show "fq_write q - fq_read q \<ge> of_nat kHeader + (ucast ?size :: cursor)"
    unfolding word_le_nat_alt by simp
  show "holds (buffer q) (r + 4 + length m) (wire ms)"
    using h2 cap len(1) by (subst (asm) holds_append) auto
qed

lemma try_pop_spec:
  assumes rep: "fq_rep q N r (m # ms)" and out: "length m \<le> length out"
  shows "\<exists>q'. try_pop out q = ok (Some (length m), m @ drop (length m) out, q') \<and> fq_rep q' N (r + 4 + length m) ms"
proof -
  note front = front_of_ring [OF rep]
  have "try_pop out q = ok (Some (length m), m @ drop (length m) out,
      q\<lparr>fq_read := fq_read q + of_nat kHeader + of_nat (length m)\<rparr>)"
    unfolding try_pop_def Let_def if_not_P [OF front(1)] front(2) chain.simps le_roundtrip front(3,5,6)
    using front(4) out front(6) by simp
  moreover have "fq_rep (q\<lparr>fq_read := fq_read q + of_nat kHeader + of_nat (length m)\<rparr>) N (r + 4 + length m) ms"
    using rep front(7) by (simp add: fq_rep_def ring_ok_def kHeader_def algebra_simps)
  ultimately show ?thesis by auto
qed

text \<open>The assertion on the size of the destination.\<close>

lemma try_pop_short:
  assumes rep: "fq_rep q N r (m # ms)" and out: "length out < length m"
  shows "try_pop out q = abort Assert_Failed"
proof -
  note front = front_of_ring [OF rep]
  show ?thesis
    unfolding try_pop_def Let_def if_not_P [OF front(1)] front(2) chain.simps le_roundtrip front(3,5,6)
    using front(4) out front(6) by simp
qed

section \<open>The constructor\<close>

lemma round_up_small:
  assumes "unat v \<le> 2 ^ 63"
  shows "\<exists>j < 64. round_up_pow2 v = Some (2 ^ j) \<and> unat v \<le> 2 ^ j \<and> (\<forall>i. unat v \<le> 2 ^ i \<longrightarrow> j \<le> i)"
proof -
  define j where "j = (LEAST j. unat v \<le> 2 ^ j)"
  have j: "unat v \<le> 2 ^ j" unfolding j_def by (rule LeastI [of _ 63]) (rule assms)
  have least: "j \<le> i" if "unat v \<le> 2 ^ i" for i unfolding j_def using that by (rule Least_le)
  have "j < 64" using least [OF assms] by simp
  moreover have "\<forall>i. 0 \<le> i \<and> i < j \<longrightarrow> (2 ^ i :: nat) < unat v" using least by (meson not_le)
  ultimately show ?thesis
    using pow2_loop_up [of 0 j v] j least by (auto simp: round_up_pow2_def)
qed

text \<open>Above \<open>2 ^ 63\<close> every power of two is too small, and the one after the last is 0.\<close>

lemma pow2_loop_diverges:
  assumes "pow2_loop v p = Some y" "2 ^ 63 < unat v" "p = 0 \<or> (\<exists>k < 64. p = 2 ^ k)"
  shows False
proof -
  have "2 ^ 63 < unat v \<longrightarrow> (p = 0 \<or> (\<exists>k < 64. p = 2 ^ k)) \<longrightarrow> False"
  proof (rule pow2_loop.raw_induct [OF _ assms(1)], intro impI)
    fix loop :: "cursor \<Rightarrow> cursor \<Rightarrow> cursor option" and v p y
    assume IH: "\<And>v p y. loop v p = Some y \<Longrightarrow> 2 ^ 63 < unat v \<longrightarrow> (p = 0 \<or> (\<exists>k < 64. p = 2 ^ k)) \<longrightarrow> False"
      and body: "(if p < v then loop v (push_bit 1 p) else Some p) = Some y"
    assume v: "2 ^ 63 < unat v" and p: "p = 0 \<or> (\<exists>k < 64. p = 2 ^ k)"
    have "unat p \<le> 2 ^ 63"
      using p power_increasing [of _ 63 "2 :: nat"] by (auto simp: pow2_cursor)
    with v have less: "p < v" by (simp add: word_less_nat_alt)
    have "push_bit 1 p = 0 \<or> (\<exists>k < 64. push_bit 1 p = (2 ^ k :: cursor))"
    proof (cases "p = 0 \<or> p = 2 ^ 63")
      case False
      with p obtain k where k: "k < 64" "p = 2 ^ k" by blast
      moreover have "k \<noteq> 63" using k(2) False by auto
      ultimately have "k < 63" "p = 2 ^ k" by simp_all
      then have "push_bit 1 p = 2 ^ Suc k" "Suc k < 64" by (simp_all add: push_bit_eq_mult)
      then show ?thesis by blast
    qed (auto simp: push_bit_eq_mult)
    with IH body v less show False by auto
  qed
  with assms(2,3) show False by blast
qed

lemma fast_queue_new_rep:
  assumes "fast_queue_new cap = Some q"
  shows "\<exists>N. fq_rep q N 0 []"
proof -
  from assms obtain c where c: "round_up_pow2 cap = Some c"
    "q = \<lparr>fq_capacity = c, fq_mask = c - 1, buffer = replicate (unat c) 0, fq_read = 0, fq_write = 0\<rparr>"
    by (auto simp: fast_queue_new_def split: option.splits)
  have "unat cap \<le> 2 ^ 63"
    using pow2_loop_diverges [of cap 1 c] c(1) by (force simp: round_up_pow2_def intro: exI [of _ 0])
  from round_up_small [OF this] c(1) obtain j where j: "j < 64" "c = 2 ^ j" by auto
  then have "unat c = 2 ^ j" by (simp add: pow2_cursor)
  with c(2) j show ?thesis
    by (intro exI [of _ "2 ^ j"]) (auto simp: fq_rep_def ring_ok_def power_of_two_def holds_def)
qed

section \<open>The FIFO contract\<close>

text \<open>Pop into a destination as large as the ring and keep the message.\<close>

definition receive :: "fast_queue \<Rightarrow> (byte list option \<times> fast_queue) run" where
  "receive q = chain (try_pop (replicate (unat (fq_capacity q)) 0) q) (\<lambda>(n, out, q').
     ok (map_option (\<lambda>n. take n out) n, q'))"

lemma receive_spec:
  assumes "fq_rep q N r ms"
  shows "\<exists>q' r'. receive q = ok (first_of ms, q') \<and> fq_rep q' N r' (tl ms)"
proof (cases ms)
  case Nil
  with try_pop_empty [of q N r] assms show ?thesis by (auto simp: receive_def)
next
  case (Cons m ms')
  have "length m \<le> unat (fq_capacity q)"
    using assms ring_ok_cap [of q N] by (auto simp: Cons fq_rep_def)
  with try_pop_spec [of q N r m ms' "replicate (unat (fq_capacity q)) 0"] assms show ?thesis
    by (fastforce simp: receive_def Cons)
qed

interpretation fq: fifo try_push receive fq_inv fq_messages fq_fits sendable
proof unfold_locales
  fix q m
  assume "fq_inv q" "sendable m"
  then obtain N r ms where "fq_rep q N r ms" by (auto simp: fq_inv_def)
  from try_push_spec [OF this \<open>sendable m\<close>] rep_messages [OF this] rep_messages
  show "\<exists>q'. try_push m q = ok (fq_fits m q, q') \<and> fq_inv q' \<and>
      fq_messages q' = (if fq_fits m q then fq_messages q @ [m] else fq_messages q)"
    unfolding fq_inv_def by metis
next
  fix q
  assume "fq_inv q"
  then obtain N r ms where "fq_rep q N r ms" by (auto simp: fq_inv_def)
  from receive_spec [OF this] rep_messages [OF this] rep_messages
  show "\<exists>q'. receive q = ok (first_of (fq_messages q), q') \<and> fq_inv q' \<and> fq_messages q' = tl (fq_messages q)"
    unfolding fq_inv_def by metis
qed

lemma fast_queue_new_inv: "fast_queue_new cap = Some q \<Longrightarrow> fq_inv q \<and> fq_messages q = []"
  using fast_queue_new_rep rep_messages unfolding fq_inv_def by blast

section \<open>Properties\<close>

text \<open>
  C23: a producer and a consumer of \<open>FastQueue\<close> lose, duplicate, corrupt and reorder nothing: from
  the constructor on, whatever sequence of pushes and pops is run, no copy leaves the buffer, no
  assertion fails, and the messages popped, followed by those still in the ring, are the messages
  accepted, byte for byte. (Messages of less than \<open>2 ^ 32\<close> bytes.)
\<close>

theorem fast_queue_fifo:
  assumes "fast_queue_new cap = Some q" "\<forall>m. Push m \<in> set us \<longrightarrow> length m < 2 ^ 32"
  shows "\<exists>ins outs q'. drive try_push receive us q = ok (ins, outs, q') \<and> outs @ fq_messages q' = ins"
proof -
  note new = fast_queue_new_inv [OF assms(1)]
  have "\<forall>u \<in> set us. fq.valid_use u"
    using assms(2) by (auto simp: fq.valid_use_def sendable_def split: use.split)
  with fq.drive_fifo [of q us] new show ?thesis by auto
qed

text \<open>
  A message is accepted exactly when its header and payload fit into the free bytes; a refused
  push leaves the queue unchanged, an accepted one appends the message.
\<close>

theorem fast_queue_push:
  assumes "fq_inv q" "length m < 2 ^ 32"
  shows "\<exists>q'. try_push m q = ok (fq_used q + 4 + length m \<le> unat (fq_capacity q), q') \<and> fq_inv q' \<and>
    fq_messages q' = fq_messages q @ (if fq_used q + 4 + length m \<le> unat (fq_capacity q) then [m] else [])"
  using fq.push_law [OF assms(1), of m] assms(2) by (auto simp: sendable_def fq_fits_def kHeader_def)

text \<open>
  A pop returns the oldest message: its length, its bytes at the front of the destination with
  the rest of the destination untouched; the assertion on the destination's size fails exactly when
  the message is longer than the destination.
\<close>

theorem fast_queue_pop:
  assumes "fq_inv q" "fq_messages q = m # ms"
  shows "(if length m \<le> length out
     then \<exists>q'. try_pop out q = ok (Some (length m), m @ drop (length m) out, q') \<and> fq_inv q' \<and> fq_messages q' = ms
     else try_pop out q = abort Assert_Failed)"
proof -
  obtain N r where rep: "fq_rep q N r (m # ms)" using assms rep_messages unfolding fq_inv_def by metis
  show ?thesis
  proof (cases "length m \<le> length out")
    case True
    with try_pop_spec [OF rep] rep_messages show ?thesis unfolding fq_inv_def by (metis (no_types, lifting))
  next
    case False
    with try_pop_short [OF rep] show ?thesis by simp
  qed
qed

text \<open>A queue of sixteen bytes that holds one message, for the witnesses.\<close>

definition small_queue :: fast_queue where
  "small_queue = \<lparr>fq_capacity = 16, fq_mask = 15, buffer = replicate 16 0, fq_read = 0, fq_write = 0\<rparr>"

definition small_queue_one :: fast_queue where
  "small_queue_one = small_queue\<lparr>buffer := [2, 0, 0, 0, 7, 8] @ replicate 10 0, fq_write := 6\<rparr>"

lemma small_queue_new: "fast_queue_new 16 = Some small_queue"
  by code_simp

lemma small_queue_one_push: "try_push [7, 8] small_queue = ok (True, small_queue_one)"
  by code_simp

lemma small_queue_one_inv: "fq_inv small_queue_one" "fq_messages small_queue_one = [[7, 8]]"
proof -
  have q: "fq_inv small_queue" "fq_messages small_queue = []" using fast_queue_new_inv [OF small_queue_new] by blast+
  have "sendable [7, 8]" by (simp add: sendable_def)
  from fq.push_law [OF q(1) this] obtain s' where s': "try_push [7, 8] small_queue = ok (fq_fits [7, 8] small_queue, s')"
    "fq_inv s'" "fq_messages s' = (if fq_fits [7, 8] small_queue then fq_messages small_queue @ [[7, 8]] else fq_messages small_queue)"
    by blast
  from trans [OF sym [OF s'(1)] small_queue_one_push] have "fq_fits [7, 8] small_queue" "s' = small_queue_one" by auto
  with s'(2,3) q(2) show "fq_inv small_queue_one" "fq_messages small_queue_one = [[7, 8]]" by simp_all
qed

theorem fast_queue_fifo_witness:
  "\<exists>ins outs q'. drive try_push receive [Push [1, 2, 3], Push [4], Pop, Push [5, 6], Pop, Pop, Pop] small_queue =
     ok (ins, outs, q') \<and> outs @ fq_messages q' = ins"
  by (rule fast_queue_fifo [OF small_queue_new]) auto

theorem fast_queue_push_witness:
  "\<exists>q'. try_push [1, 2, 3, 4, 5, 6] small_queue_one = ok (fq_used small_queue_one + 4 + length [1, 2, 3, 4, 5, 6 :: byte]
       \<le> unat (fq_capacity small_queue_one), q') \<and> fq_inv q' \<and>
    fq_messages q' = fq_messages small_queue_one @ (if fq_used small_queue_one + 4 + length [1, 2, 3, 4, 5, 6 :: byte]
       \<le> unat (fq_capacity small_queue_one) then [[1, 2, 3, 4, 5, 6]] else [])"
  by (rule fast_queue_push [OF small_queue_one_inv(1)]) simp

theorem fast_queue_pop_witness:
  "(if length [7, 8 :: byte] \<le> length [9, 9, 9 :: byte]
     then \<exists>q'. try_pop [9, 9, 9] small_queue_one = ok (Some (length [7, 8 :: byte]), [7, 8] @ drop (length [7, 8 :: byte]) [9, 9, 9], q') \<and>
       fq_inv q' \<and> fq_messages q' = []
     else try_pop [9, 9, 9] small_queue_one = abort Assert_Failed)"
  by (rule fast_queue_pop [OF small_queue_one_inv])

text \<open>
  C25: the constructor rounds a capacity of at most \<open>2 ^ 63\<close> up to the least power of two that is not
  below it (at least 1), allocates exactly that many bytes, and sets the mask to one less; so every
  masked cursor is a valid index of the buffer.
\<close>

theorem fast_queue_capacity:
  assumes "unat cap \<le> 2 ^ 63"
  shows "\<exists>q j. fast_queue_new cap = Some q \<and> unat (fq_capacity q) = 2 ^ j \<and> unat cap \<le> 2 ^ j \<and>
    (\<forall>i. unat cap \<le> 2 ^ i \<longrightarrow> j \<le> i) \<and> length (buffer q) = 2 ^ j \<and>
    (\<forall>c. unat (c AND fq_mask q) < length (buffer q))"
proof -
  from round_up_small [OF assms] obtain j where j: "j < 64" "round_up_pow2 cap = Some (2 ^ j)"
    "unat cap \<le> 2 ^ j" "\<forall>i. unat cap \<le> 2 ^ i \<longrightarrow> j \<le> i" by blast
  let ?q = "\<lparr>fq_capacity = 2 ^ j, fq_mask = 2 ^ j - 1, buffer = replicate (unat (2 ^ j :: cursor)) (0 :: byte),
    fq_read = 0, fq_write = 0\<rparr>"
  have q: "fast_queue_new cap = Some ?q" using j(2) by (simp add: fast_queue_new_def)
  have "unat (c AND fq_mask ?q) < 2 ^ j" for c
    using ring_offset [of ?q "2 ^ j" "unat c"] j(1) by (auto simp: ring_ok_def power_of_two_def)
  with q j show ?thesis by (intro exI [of _ ?q] exI [of _ j]) (auto simp: pow2_cursor)
qed

theorem fast_queue_capacity_witness:
  "\<exists>q j. fast_queue_new 1000 = Some q \<and> unat (fq_capacity q) = 2 ^ j \<and> unat (1000 :: cursor) \<le> 2 ^ j \<and>
    \<not> (\<exists>i. unat (1000 :: cursor) \<le> 2 ^ i \<and> i < j)"
proof -
  have "unat (1000 :: cursor) \<le> 2 ^ 63" by simp
  from fast_queue_capacity [OF this] show ?thesis by (metis not_le)
qed

section \<open>Where the code breaks\<close>

text \<open>
  C26: for a capacity above \<open>2 ^ 63\<close> the constructor does not return: the shift drops the last bit and
  the loop goes on with 0 for ever.
\<close>

theorem fast_queue_constructor_hangs:
  assumes "2 ^ 63 < unat cap"
  shows "fast_queue_new cap = None"
  using pow2_loop_diverges [of cap 1] assms
  by (cases "round_up_pow2 cap") (force simp: fast_queue_new_def round_up_pow2_def intro: exI [of _ 0])+

theorem fast_queue_constructor_hangs_witness: "fast_queue_new (2 ^ 63 + 1) = None"
  by (rule fast_queue_constructor_hangs) simp

text \<open>A message more than twice as large as the ring does not fit in its two blocks.\<close>

lemma copy_in_overruns:
  assumes ring: "ring_ok q N" and b1: "length buf = N" and big: "2 * N < length m"
  shows "copy_in q pos m buf = abort Bad_Index"
proof -
  note cap = ring_ok_cap [OF ring]
  let ?o = "unat (pos AND fq_mask q)"
  define f where "f = min (length m) (N - ?o)"
  have "f \<le> N" by (simp add: f_def)
  have c: "copy_in q pos m buf = chain (store_bytes ?o (take f m) buf)
      (\<lambda>b. if f < length m then store_bytes 0 (drop f m) b else ok b)"
    using cap by (simp add: copy_in_def Let_def f_def cong: if_cong)
  show ?thesis
  proof (cases "?o + length (take f m) \<le> N")
    case True
    then obtain b2 where b2: "store_bytes ?o (take f m) buf = ok b2" "length b2 = N"
      using store_bytes_spec [of ?o "take f m" buf] b1 by auto
    have "store_bytes 0 (drop f m) b2 = abort Bad_Index" if "N < length m - f"
      using that b2(2) by (simp add: store_bytes_def)
    moreover have "f < length m" "N < length m - f" using big \<open>f \<le> N\<close> by auto
    ultimately show ?thesis using b2(1) by (simp add: c)
  next
    case False
    then have "store_bytes ?o (take f m) buf = abort Bad_Index" using b1 by (simp add: store_bytes_def)
    then show ?thesis by (simp add: c)
  qed
qed

text \<open>
  C27: a message of \<open>2 ^ 32\<close> bytes or more is not refused: its size is truncated to 32 bits for the
  room check, while all its bytes are copied. On a queue smaller than the message that has room for
  the truncated size, \<open>try_push\<close> writes past the end of the buffer.
\<close>

theorem oversize_message_overruns:
  assumes "fq_inv q" "fq_used q + 4 + length m mod 2 ^ 32 \<le> unat (fq_capacity q)"
    and "2 * unat (fq_capacity q) < length m" "length m < 2 ^ 64"
  shows "try_push m q = abort Bad_Index"
proof -
  obtain N r ms where rep: "fq_rep q N r ms" using assms(1) by (auto simp: fq_inv_def)
  let ?l = "length (wire ms)" and ?n = "4 + length m mod 2 ^ 32"
  let ?size = "of_nat (length m) :: 32 word"
  have ring: "ring_ok q N" and e: "fq_read q = of_nat r" "fq_write q = of_nat (r + ?l)"
    and len: "length (buffer q) = N" "?l \<le> N" and h: "holds (buffer q) r (wire ms)"
    using rep by (simp_all add: fq_rep_def)
  note cap = ring_ok_cap [OF ring]
  have big: "2 * N < length m" and fits: "?l + ?n \<le> N" using assms(2,3) cap rep_used [OF rep] by simp_all
  have "(ucast ?size :: cursor) = of_nat (length m mod 2 ^ 32)"
    by (simp add: unsigned_of_nat take_bit_eq_mod)
  then have need: "of_nat kHeader + (ucast ?size :: cursor) = of_nat ?n"
    by (simp add: kHeader_def)
  have used: "(of_nat (r + ?l) - of_nat r :: cursor) = of_nat ?l" by (simp add: cursor_diff_of_nat)
  have "?n < 2 ^ 33" using mod_less_divisor [of "2 ^ 32" "length m"] by simp
  from room_check [OF ring len(2) this] fits have nl: "\<not> fq_capacity q - of_nat ?l < of_nat ?n" by simp
  have "?l + length (le_bytes ?size) \<le> N" using fits by simp
  from copy_behind [OF ring len(1) h this] obtain b1 where b1:
    "copy_in q (of_nat (r + ?l)) (le_bytes ?size) (buffer q) = ok b1" "length b1 = N" by auto
  have bad: "copy_in q pos m b1 = abort Bad_Index" for pos by (rule copy_in_overruns [OF ring b1(2) big])
  show ?thesis
    unfolding try_push_def Let_def e need used if_not_P [OF nl] b1(1) chain.simps bad ..
qed

theorem oversize_message_overruns_witness:
  "try_push (replicate (2 ^ 32) 0) small_queue = abort Bad_Index"
proof (rule oversize_message_overruns)
  show "fq_inv small_queue" using fast_queue_new_inv [OF small_queue_new] by blast
  show "fq_used small_queue + 4 + length (replicate (2 ^ 32) (0 :: byte)) mod 2 ^ 32 \<le> unat (fq_capacity small_queue)"
    by (simp add: small_queue_def fq_used_def)
qed (simp_all add: small_queue_def)

end
