(* ===== verification/Fast_Queue_Concurrent.thy ===== *)
theory Fast_Queue_Concurrent
  imports Fast_Queue_Properties
begin

text \<open>
  \<open>FastQueue\<close> with its producer and its consumer running concurrently: \<open>try_push\<close> and \<open>try_pop\<close> cut into
  the load of the other side's cursor, the two copies, and the store of the own cursor, and
  every interleaving of these steps. A cursor is written by one side only, so a side's own cursor is
  read where it is needed; the one the other side writes is read once per call.
\<close>

section \<open>Steps\<close>

text \<open>
  Where each side is in its call: before it; about to copy the header, then the payload; about to
  publish. \<open>FC_Header w\<close> carries the loaded write cursor, \<open>FC_Payload\<close> the size read from the header,
  \<open>FC_Publish\<close> the bytes copied out.
\<close>

datatype fq_producer = FP_Idle | FP_Header "byte list" | FP_Payload "byte list" | FP_Publish "byte list"

datatype fq_consumer = FC_Idle | FC_Header cursor | FC_Payload "32 word" | FC_Publish "32 word" "byte list"

record fq_system =
  ring :: fast_queue
  pusher :: fq_producer
  popper :: fq_consumer
  pushed :: "byte list list"
  popped :: "byte list list"

definition fq_system_new :: "fast_queue \<Rightarrow> fq_system" where
  "fq_system_new q = \<lparr>ring = q, pusher = FP_Idle, popper = FC_Idle, pushed = [], popped = []\<rparr>"

text \<open>One step of the producer; an idle producer calls \<open>try_push m\<close>.\<close>

definition push_step :: "byte list \<Rightarrow> fq_system \<Rightarrow> fq_system run" where
  "push_step m s = (let q = ring s; w = fq_write q in
     case pusher s of
       FP_Idle \<Rightarrow>
         let sz = (of_nat (length m) :: 32 word);
             need = of_nat kHeader + (ucast sz :: cursor) in
         ok (if fq_capacity q - (w - fq_read q) < need then s else s\<lparr>pusher := FP_Header m\<rparr>)
     | FP_Header d \<Rightarrow>
         chain (copy_in q w (le_bytes (of_nat (length d))) (buffer q)) (\<lambda>buf.
         ok (s\<lparr>ring := q\<lparr>buffer := buf\<rparr>, pusher := FP_Payload d\<rparr>))
     | FP_Payload d \<Rightarrow>
         chain (copy_in q (w + of_nat kHeader) d (buffer q)) (\<lambda>buf.
         ok (s\<lparr>ring := q\<lparr>buffer := buf\<rparr>, pusher := FP_Publish d\<rparr>))
     | FP_Publish d \<Rightarrow>
         let need = of_nat kHeader + (ucast (of_nat (length d) :: 32 word) :: cursor) in
         ok (s\<lparr>ring := q\<lparr>fq_write := w + need\<rparr>, pusher := FP_Idle, pushed := pushed s @ [d]\<rparr>))"

text \<open>One step of the consumer, whose destination span has \<open>room\<close> bytes.\<close>

definition pop_step :: "nat \<Rightarrow> fq_system \<Rightarrow> fq_system run" where
  "pop_step room s = (let q = ring s; r = fq_read q in
     case popper s of
       FC_Idle \<Rightarrow>
         let w = fq_write q in
         ok (if r = w then s else s\<lparr>popper := FC_Header w\<rparr>)
     | FC_Header w \<Rightarrow>
         chain (copy_out q r kHeader) (\<lambda>header.
         let sz = le_word header in
         if \<not> w - r \<ge> of_nat kHeader + ucast sz then abort Assert_Failed
         else if \<not> unat sz \<le> room then abort Assert_Failed
         else ok (s\<lparr>popper := FC_Payload sz\<rparr>))
     | FC_Payload sz \<Rightarrow>
         chain (copy_out q (r + of_nat kHeader) (unat sz)) (\<lambda>bs.
         ok (s\<lparr>popper := FC_Publish sz bs\<rparr>))
     | FC_Publish sz bs \<Rightarrow>
         ok (s\<lparr>ring := q\<lparr>fq_read := r + of_nat kHeader + ucast sz\<rparr>, popper := FC_Idle,
               popped := popped s @ [bs]\<rparr>))"

text \<open>The states reachable by any interleaving, with messages of less than \<open>2 ^ 32\<close> bytes.\<close>

inductive fq_interleaved :: "nat \<Rightarrow> fq_system \<Rightarrow> fq_system \<Rightarrow> bool" for room start where
  fq_start: "fq_interleaved room start start"
| fq_push: "fq_interleaved room start s \<Longrightarrow> sendable m \<Longrightarrow> push_step m s = ok s' \<Longrightarrow> fq_interleaved room start s'"
| fq_pop: "fq_interleaved room start s \<Longrightarrow> pop_step room s = ok s' \<Longrightarrow> fq_interleaved room start s'"

section \<open>The invariant\<close>

text \<open>The message a producer is writing, and what of it is in the ring.\<close>

fun in_hand :: "fq_producer \<Rightarrow> byte list option" where
  "in_hand FP_Idle = None"
| "in_hand (FP_Header d) = Some d"
| "in_hand (FP_Payload d) = Some d"
| "in_hand (FP_Publish d) = Some d"

fun written :: "fq_producer \<Rightarrow> byte list" where
  "written (FP_Payload d) = le_bytes (of_nat (length d))"
| "written (FP_Publish d) = encode d"
| "written _ = []"

definition push_ok :: "fast_queue \<Rightarrow> nat \<Rightarrow> nat \<Rightarrow> byte list list \<Rightarrow> fq_producer \<Rightarrow> bool" where
  "push_ok q N r ms p \<longleftrightarrow> holds (buffer q) r (wire ms @ written p) \<and>
     (case in_hand p of None \<Rightarrow> True | Some d \<Rightarrow> sendable d \<and> length (wire ms) + 4 + length d \<le> N)"

text \<open>A consumer inside a call has a message before it, and loaded a cursor behind it.\<close>

fun pop_ok :: "nat \<Rightarrow> byte list list \<Rightarrow> fq_consumer \<Rightarrow> bool" where
  "pop_ok r ms FC_Idle \<longleftrightarrow> True"
| "pop_ok r ms (FC_Header w) \<longleftrightarrow>
     (\<exists>k \<le> length (wire ms). ms \<noteq> [] \<and> 4 + length (hd ms) \<le> k \<and> w = of_nat (r + k))"
| "pop_ok r ms (FC_Payload sz) \<longleftrightarrow> ms \<noteq> [] \<and> sz = of_nat (length (hd ms))"
| "pop_ok r ms (FC_Publish sz bs) \<longleftrightarrow> ms \<noteq> [] \<and> sz = of_nat (length (hd ms)) \<and> bs = hd ms"

definition fq_system_rep :: "fq_system \<Rightarrow> nat \<Rightarrow> nat \<Rightarrow> byte list list \<Rightarrow> bool" where
  "fq_system_rep s N r ms \<longleftrightarrow> fq_rep (ring s) N r ms \<and> push_ok (ring s) N r ms (pusher s) \<and>
     pop_ok r ms (popper s) \<and> pushed s = popped s @ ms"

lemma pop_ok_append: "pop_ok r ms c \<Longrightarrow> pop_ok r (ms @ [m]) c"
  by (cases c) (auto intro: trans_le_add1 le_trans)

lemma new_rep: "fq_rep q N r [] \<Longrightarrow> fq_system_rep (fq_system_new q) N r []"
  by (simp add: fq_system_rep_def fq_system_new_def push_ok_def holds_def)

lemma size_word: "sendable d \<Longrightarrow> (ucast (of_nat (length d) :: 32 word) :: cursor) = of_nat (length d)"
  by (simp add: sendable_def unsigned_of_nat take_bit_nat_eq_self)

section \<open>The steps keep the invariant\<close>

lemma system_repD:
  assumes "fq_system_rep t n r ms"
  shows "ring_ok (ring t) n" "power_of_two n" "length (buffer (ring t)) = n" "fq_read (ring t) = of_nat r"
    "fq_write (ring t) = of_nat (r + length (wire ms))" "length (wire ms) \<le> n" "pushed t = popped t @ ms"
    "pop_ok r ms (popper t)" "push_ok (ring t) n r ms (pusher t)" "fq_rep (ring t) n r ms" "\<forall>m \<in> set ms. sendable m"
  using assms unfolding fq_system_rep_def fq_rep_def ring_ok_def by auto

text \<open>Writing behind the messages leaves them in the ring.\<close>

lemma refill_rep:
  assumes "fq_rep q N r ms" "length buf = N" "holds buf r (wire ms @ bs)"
  shows "fq_rep (q\<lparr>buffer := buf\<rparr>) N r ms"
proof -
  have "ring_ok q N" using assms(1) by (simp add: fq_rep_def)
  then have "holds buf r (wire ms)" using assms(2,3) ring_ok_cap by (simp add: holds_append)
  with assms show ?thesis by (simp add: fq_rep_def ring_ok_def)
qed

lemma push_idle_keeps:
  assumes rep: "fq_system_rep s N r ms" and m: "sendable m" and FP_Idle: "pusher s = FP_Idle"
  shows "\<exists>s' ms'. push_step m s = ok s' \<and> fq_system_rep s' N r ms'"
proof -
  let ?q = "ring s" and ?l = "length (wire ms)"
  note y = system_repD [OF rep]
  have need: "of_nat kHeader + (ucast (of_nat (length m) :: 32 word) :: cursor) = of_nat (4 + length m)"
    using size_word [OF m] by (simp add: kHeader_def)
  have used: "(of_nat (r + ?l) - of_nat r :: cursor) = of_nat ?l" by (simp add: cursor_diff_of_nat)
  have "4 + length m < 2 ^ 33" using m by (simp add: sendable_def)
  note check = room_check [OF y(1) y(6) this]
  let ?s = "if fq_capacity ?q - of_nat ?l < of_nat (4 + length m) then s else s\<lparr>pusher := FP_Header m\<rparr>"
  have "push_step m s = ok ?s"
    unfolding push_step_def Let_def FP_Idle fq_producer.case y(4,5) need used ..
  moreover have "fq_system_rep ?s N r ms"
    unfolding check using rep y(9) m FP_Idle by (simp add: fq_system_rep_def push_ok_def)
  ultimately show ?thesis by blast
qed

lemma push_header_keeps:
  assumes rep: "fq_system_rep s N r ms" and FP_Header: "pusher s = FP_Header d"
  shows "\<exists>s' ms'. push_step m s = ok s' \<and> fq_system_rep s' N r ms'"
proof -
  let ?q = "ring s" and ?l = "length (wire ms)"
  note y = system_repD [OF rep]
  from y(9) FP_Header have d: "sendable d" "?l + 4 + length d \<le> N" and h: "holds (buffer ?q) r (wire ms)"
    by (simp_all add: push_ok_def)
  have "?l + length (le_bytes (of_nat (length d))) \<le> N" using d(2) by simp
  from copy_behind [OF y(1) y(3) h this] obtain buf where b:
    "copy_in ?q (of_nat (r + ?l)) (le_bytes (of_nat (length d))) (buffer ?q) = ok buf" "length buf = N"
    "holds buf r (wire ms @ le_bytes (of_nat (length d)))" by blast
  have "push_step m s = ok (s\<lparr>ring := ?q\<lparr>buffer := buf\<rparr>, pusher := FP_Payload d\<rparr>)"
    unfolding push_step_def Let_def FP_Header fq_producer.case y(4,5) b(1) chain.simps ..
  moreover have "fq_system_rep (s\<lparr>ring := ?q\<lparr>buffer := buf\<rparr>, pusher := FP_Payload d\<rparr>) N r ms"
    using refill_rep [OF y(10) b(2,3)] b(3) d y(8) y(7) by (simp add: fq_system_rep_def push_ok_def)
  ultimately show ?thesis by blast
qed

lemma push_payload_keeps:
  assumes rep: "fq_system_rep s N r ms" and FP_Payload: "pusher s = FP_Payload d"
  shows "\<exists>s' ms'. push_step m s = ok s' \<and> fq_system_rep s' N r ms'"
proof -
  let ?q = "ring s" and ?l = "length (wire ms)"
  note y = system_repD [OF rep]
  from y(9) FP_Payload have d: "sendable d" "?l + 4 + length d \<le> N"
    and h: "holds (buffer ?q) r (wire ms @ le_bytes (of_nat (length d)))" by (simp_all add: push_ok_def)
  have "length (wire ms @ le_bytes (of_nat (length d))) + length d \<le> N" using d(2) by simp
  from copy_behind [OF y(1) y(3) h this] obtain buf where b:
    "copy_in ?q (of_nat (r + length (wire ms @ le_bytes (of_nat (length d))))) d (buffer ?q) = ok buf" "length buf = N"
    "holds buf r ((wire ms @ le_bytes (of_nat (length d))) @ d)" by blast
  have pos: "of_nat (r + ?l) + of_nat kHeader = (of_nat (r + length (wire ms @ le_bytes (of_nat (length d)))) :: cursor)"
    by (simp add: kHeader_def)
  have h': "holds buf r (wire ms @ encode d)" using b(3) by (simp add: encode_def)
  have "push_step m s = ok (s\<lparr>ring := ?q\<lparr>buffer := buf\<rparr>, pusher := FP_Publish d\<rparr>)"
    unfolding push_step_def Let_def FP_Payload fq_producer.case y(4,5) pos b(1) chain.simps ..
  moreover have "fq_system_rep (s\<lparr>ring := ?q\<lparr>buffer := buf\<rparr>, pusher := FP_Publish d\<rparr>) N r ms"
    using refill_rep [OF y(10) b(2) h'] h' d y(8) y(7) by (simp add: fq_system_rep_def push_ok_def)
  ultimately show ?thesis by blast
qed

lemma push_publish_keeps:
  assumes rep: "fq_system_rep s N r ms" and FP_Publish: "pusher s = FP_Publish d"
  shows "\<exists>s' ms'. push_step m s = ok s' \<and> fq_system_rep s' N r ms'"
proof -
  let ?q = "ring s" and ?l = "length (wire ms)"
  note y = system_repD [OF rep]
  from y(9) FP_Publish have d: "sendable d" "?l + 4 + length d \<le> N" and h: "holds (buffer ?q) r (wire ms @ encode d)"
    by (simp_all add: push_ok_def)
  let ?s = "s\<lparr>ring := ?q\<lparr>fq_write := of_nat (r + ?l) + of_nat (4 + length d)\<rparr>, pusher := FP_Idle, pushed := pushed s @ [d]\<rparr>"
  have need: "of_nat kHeader + (ucast (of_nat (length d) :: 32 word) :: cursor) = of_nat (4 + length d)"
    using size_word [OF d(1)] by (simp add: kHeader_def)
  have "push_step m s = ok ?s"
    unfolding push_step_def Let_def FP_Publish fq_producer.case y(4,5) need ..
  moreover have "fq_rep (ring ?s) N r (ms @ [d])"
    using y(1) y(4,5) y(3,6) y(11) d h by (simp add: fq_rep_def ring_ok_def)
  moreover have "push_ok (ring ?s) N r (ms @ [d]) FP_Idle" using h by (simp add: push_ok_def)
  ultimately have "push_step m s = ok ?s \<and> fq_system_rep ?s N r (ms @ [d])"
    using pop_ok_append [OF y(8)] y(7) by (simp add: fq_system_rep_def)
  then show ?thesis by blast
qed

lemma push_step_keeps:
  assumes "fq_system_rep s N r ms" "sendable m"
  shows "\<exists>s' ms'. push_step m s = ok s' \<and> fq_system_rep s' N r ms'"
  using assms by (cases "pusher s") (blast intro: push_idle_keeps push_header_keeps push_payload_keeps push_publish_keeps)+

text \<open>Where the read cursor stands after a consumer's step.\<close>

fun read_to :: "nat \<Rightarrow> fq_consumer \<Rightarrow> nat" where
  "read_to r (FC_Publish sz bs) = r + 4 + length bs"
| "read_to r _ = r"

lemma pop_idle_keeps:
  assumes rep: "fq_system_rep s N r ms" and FC_Idle: "popper s = FC_Idle"
  shows "\<exists>s' ms'. pop_step room s = ok s' \<and> fq_system_rep s' N (read_to r (popper s)) ms'"
proof -
  let ?q = "ring s" and ?l = "length (wire ms)"
  note y = system_repD [OF rep]
  let ?s = "if fq_read ?q = fq_write ?q then s else s\<lparr>popper := FC_Header (fq_write ?q)\<rparr>"
  have run: "pop_step room s = ok ?s" by (simp add: pop_step_def Let_def FC_Idle)
  have "pop_ok r ms (FC_Header (fq_write ?q))" if "fq_read ?q \<noteq> fq_write ?q"
  proof -
    from that y(4,5) have "ms \<noteq> []" by auto
    then show ?thesis using y(5) by (cases ms) (auto intro!: exI [of _ ?l])
  qed
  then have "fq_system_rep ?s N r ms" using rep by (auto simp: fq_system_rep_def)
  with run show ?thesis unfolding FC_Idle read_to.simps by blast
qed

lemma pop_header_keeps:
  assumes rep: "fq_system_rep s N r ms" and room: "N \<le> room" and FC_Header: "popper s = FC_Header w"
  shows "\<exists>s' ms'. pop_step room s = ok s' \<and> fq_system_rep s' N (read_to r (popper s)) ms'"
proof -
  let ?q = "ring s" and ?l = "length (wire ms)"
  note y = system_repD [OF rep]
  note cap = ring_ok_cap [OF y(1)]
  from y(8) FC_Header obtain m ms' k where ms: "ms = m # ms'" and k: "k \<le> ?l" "4 + length m \<le> k" "w = of_nat (r + k)"
    by (cases ms) auto
  note front = front_of_ring [OF y(10) [unfolded ms]]
  have lm: "length m \<le> room" using y(6) room by (simp add: ms)
  have n: "unat (of_nat kHeader + (ucast (of_nat (length m) :: 32 word) :: cursor)) = 4 + length m"
  proof -
    have "of_nat kHeader + (ucast (of_nat (length m) :: 32 word) :: cursor) = of_nat (4 + length m)"
      using front(6) by (simp add: kHeader_def)
    then show ?thesis using k y(6) cap by (simp only:) (rule unat_cursor, simp)
  qed
  have "unat (w - of_nat r) = k" using cursor_diff [of r "r + k"] k y(6) cap by simp
  with n k(2) have "w - of_nat r \<ge> of_nat kHeader + (ucast (of_nat (length m) :: 32 word) :: cursor)"
    by (simp add: word_le_nat_alt)
  then have "pop_step room s = ok (s\<lparr>popper := FC_Payload (of_nat (length m))\<rparr>)"
    unfolding pop_step_def Let_def FC_Header fq_consumer.case front(2) chain.simps le_roundtrip front(5)
    using y(4) lm by simp
  moreover have "fq_system_rep (s\<lparr>popper := FC_Payload (of_nat (length m))\<rparr>) N r ms"
    using rep ms by (simp add: fq_system_rep_def)
  ultimately show ?thesis unfolding FC_Header read_to.simps by blast
qed

lemma pop_payload_keeps:
  assumes rep: "fq_system_rep s N r ms" and FC_Payload: "popper s = FC_Payload sz"
  shows "\<exists>s' ms'. pop_step room s = ok s' \<and> fq_system_rep s' N (read_to r (popper s)) ms'"
proof -
  let ?q = "ring s" and ?l = "length (wire ms)"
  note y = system_repD [OF rep]
  from y(8) FC_Payload obtain m ms' where ms: "ms = m # ms'" "sz = of_nat (length m)" by (cases ms) auto
  note front = front_of_ring [OF y(10) [unfolded ms(1)]]
  have "pop_step room s = ok (s\<lparr>popper := FC_Publish sz m\<rparr>)"
    unfolding pop_step_def Let_def FC_Payload fq_consumer.case ms(2) front(3,5) chain.simps ..
  moreover have "fq_system_rep (s\<lparr>popper := FC_Publish sz m\<rparr>) N r ms"
    using rep ms by (simp add: fq_system_rep_def)
  ultimately show ?thesis unfolding FC_Payload read_to.simps by blast
qed

lemma pop_publish_keeps:
  assumes rep: "fq_system_rep s N r ms" and FC_Publish: "popper s = FC_Publish sz bs"
  shows "\<exists>s' ms'. pop_step room s = ok s' \<and> fq_system_rep s' N (read_to r (popper s)) ms'"
proof -
  let ?q = "ring s" and ?l = "length (wire ms)"
  note y = system_repD [OF rep]
  note cap = ring_ok_cap [OF y(1)]
  from y(8) FC_Publish obtain ms' where ms: "ms = bs # ms'" "sz = of_nat (length bs)" by (cases ms) auto
  note front = front_of_ring [OF y(10) [unfolded ms(1)]]
  let ?s = "s\<lparr>ring := ?q\<lparr>fq_read := fq_read ?q + of_nat kHeader + of_nat (length bs)\<rparr>, popper := FC_Idle,
    popped := popped s @ [bs]\<rparr>"
  have "pop_step room s = ok ?s"
    unfolding pop_step_def Let_def FC_Publish fq_consumer.case ms(2) front(6) ..
  moreover have "fq_rep (ring ?s) N (r + 4 + length bs) ms'"
    using y(10) [unfolded ms(1)] front(7) by (simp add: fq_rep_def ring_ok_def kHeader_def algebra_simps)
  moreover have "push_ok (ring ?s) N (r + 4 + length bs) ms' (pusher s)"
  proof -
    have "holds (buffer ?q) r (encode bs @ (wire ms' @ written (pusher s)))"
      using y(9) ms(1) by (simp add: push_ok_def)
    then have "holds (buffer ?q) (r + 4 + length bs) (wire ms' @ written (pusher s))"
      using cap y(3) by (subst (asm) holds_append) (auto simp: add.assoc)
    then show ?thesis using y(9) ms(1) by (auto simp: push_ok_def split: option.splits)
  qed
  ultimately have "pop_step room s = ok ?s \<and> fq_system_rep ?s N (r + 4 + length bs) ms'"
    using y(7) ms(1) by (simp add: fq_system_rep_def)
  then show ?thesis unfolding FC_Publish read_to.simps by blast
qed

lemma pop_step_keeps:
  assumes "fq_system_rep s N r ms" "N \<le> room"
  shows "\<exists>s' ms'. pop_step room s = ok s' \<and> fq_system_rep s' N (read_to r (popper s)) ms'"
  using assms by (cases "popper s") (blast intro: pop_idle_keeps pop_header_keeps pop_payload_keeps pop_publish_keeps)+

lemma fq_interleaved_rep:
  assumes "fq_interleaved room start s" "fq_system_rep start N r ms" "N \<le> room"
  shows "\<exists>r ms. fq_system_rep s N r ms"
  using assms
proof (induction rule: fq_interleaved.induct)
  case fq_start
  then show ?case by blast
next
  case (fq_push s m s')
  then obtain r ms where "fq_system_rep s N r ms" by blast
  from push_step_keeps [OF this fq_push(2)] fq_push(3) show ?case by fastforce
next
  case (fq_pop s s')
  then obtain r ms where "fq_system_rep s N r ms" by blast
  from pop_step_keeps [OF this fq_pop(5)] fq_pop(2) show ?case by fastforce
qed

section \<open>Properties\<close>

text \<open>
  \<open>FastQueue\<close> is correct under concurrency. However the steps of producer and consumer
  interleave, from a new queue and with a destination as large as the ring, the messages popped are a
  prefix of the messages pushed, byte for byte and in order; what is in flight fits the ring; and
  neither side's next step can fail an assertion or leave the buffer.
\<close>

theorem fast_queue_concurrent:
  assumes "fast_queue_new cap = Some q" "unat (fq_capacity q) \<le> room" "fq_interleaved room (fq_system_new q) s"
    and "length m < 2 ^ 32"
  shows "(\<exists>xs. pushed s = popped s @ xs \<and> sum_list (map (\<lambda>x. 4 + length x) xs) \<le> unat (fq_capacity (ring s))) \<and>
    (\<exists>s'. push_step m s = ok s') \<and> (\<exists>s'. pop_step room s = ok s')"
proof -
  obtain N where new: "fq_rep q N 0 []" using fast_queue_new_rep [OF assms(1)] by blast
  then have N: "N \<le> room" using assms(2) ring_ok_cap [of q N] by (simp add: fq_rep_def)
  obtain r ms where rep: "fq_system_rep s N r ms"
    using fq_interleaved_rep [OF assms(3) new_rep [OF new] N] by blast
  have "length (wire ms) \<le> unat (fq_capacity (ring s))" "pushed s = popped s @ ms"
    using rep ring_ok_cap [of "ring s" N] by (auto simp: fq_system_rep_def fq_rep_def)
  moreover have "length (wire ms) = sum_list (map (\<lambda>x. 4 + length x) ms)" by (induction ms) simp_all
  moreover have "sendable m" using assms(4) by (simp add: sendable_def)
  ultimately show ?thesis
    using push_step_keeps [OF rep] pop_step_keeps [OF rep N] by (metis (no_types, lifting))
qed

text \<open>A schedule: \<open>Some m\<close> is a step of the producer, \<open>None\<close> one of the consumer.\<close>

fun fq_schedule :: "nat \<Rightarrow> byte list option list \<Rightarrow> fq_system \<Rightarrow> fq_system run" where
  "fq_schedule room [] s = ok s"
| "fq_schedule room (Some m # as) s = chain (push_step m s) (fq_schedule room as)"
| "fq_schedule room (None # as) s = chain (pop_step room s) (fq_schedule room as)"

lemma fq_schedule_interleaved:
  assumes "fq_schedule room as s = ok s'" "\<forall>m. Some m \<in> set as \<longrightarrow> sendable m" "fq_interleaved room start s"
  shows "fq_interleaved room start s'"
  using assms
  by (induction room as s rule: fq_schedule.induct) (auto simp: chain_eq_ok intro: fq_push fq_pop)

definition fq_contended :: "byte list option list" where
  "fq_contended = [Some [7, 8], Some [7, 8], Some [7, 8], Some [7, 8], Some [9], None, None, Some [9], None, Some [9], None]"

theorem fast_queue_concurrent_witness:
  "\<exists>s. fq_schedule 16 fq_contended (fq_system_new small_queue) = ok s \<and> popped s = [[7, 8]] \<and> pusher s = FP_Publish [9] \<and>
    (\<exists>s'. pop_step 16 s = ok s')"
proof -
  have e: "map_option (map_sum (\<lambda>e. e) (\<lambda>s. (popped s, pusher s)))
      (fq_schedule 16 fq_contended (fq_system_new small_queue)) = ok ([[7, 8]], FP_Publish [9])" by code_simp
  obtain s where s: "fq_schedule 16 fq_contended (fq_system_new small_queue) = ok s"
    "popped s = [[7, 8]]" "pusher s = FP_Publish [9]" using run_map [OF e] by auto
  have "\<forall>m. Some m \<in> set fq_contended \<longrightarrow> sendable m" by (simp add: fq_contended_def sendable_def)
  from fq_schedule_interleaved [OF s(1) this fq_start] have i: "fq_interleaved 16 (fq_system_new small_queue) s" .
  have c: "unat (fq_capacity small_queue) \<le> 16" and l: "length [] < 2 ^ 32" by (simp_all add: small_queue_def)
  from fast_queue_concurrent [OF small_queue_new c i l] s show ?thesis by blast
qed

end
