(* ===== verification/Fast_Queue_Weak.thy ===== *)
theory Fast_Queue_Weak
  imports Fast_Queue_Concurrent Release_Acquire
begin

text \<open>
  \<open>FastQueue\<close> under the memory orders the code asks for: the steps of \<open>Fast_Queue_Concurrent\<close>, where the
  load of the other side's cursor may return an older store, and every byte copied into or out of
  the ring is an access checked against the other side's last access to it.
\<close>

section \<open>Steps\<close>

record fq_threads =
  fq_sys :: fq_system
  fq_writes :: channel
  fq_reads :: channel

definition fq_threads_new :: "fast_queue \<Rightarrow> fq_threads" where
  "fq_threads_new q = \<lparr>fq_sys = fq_system_new q, fq_writes = channel_new (length (buffer q)) (fq_write q),
     fq_reads = channel_new (length (buffer q)) (fq_read q)\<rparr>"

text \<open>
  One step of the producer: the load of \<open>read_\<close> and the room check; the copy of the header; the copy of
  the payload; the release of \<open>write_\<close>.
\<close>

definition weak_push :: "nat \<Rightarrow> byte list \<Rightarrow> fq_threads \<Rightarrow> fq_threads run" where
  "weak_push k m s = (let t = fq_sys s; q = ring t; w = fq_write q; n = length (buffer q) in
     case pusher t of
       FP_Idle \<Rightarrow>
         (case acquire k (fq_reads s) of (r, ch) \<Rightarrow>
          let need = of_nat kHeader + (ucast (of_nat (length m) :: 32 word) :: cursor) in
          ok (s\<lparr>fq_reads := ch,
                fq_sys := if fq_capacity q - (w - r) < need then t else t\<lparr>pusher := FP_Header m\<rparr>\<rparr>))
     | FP_Header d \<Rightarrow>
         chain (access_range n w kHeader (fq_writes s) (fq_reads s)) (\<lambda>ch.
         chain (push_step m t) (\<lambda>t'. ok (s\<lparr>fq_writes := ch, fq_sys := t'\<rparr>)))
     | FP_Payload d \<Rightarrow>
         chain (access_range n (w + of_nat kHeader) (length d) (fq_writes s) (fq_reads s)) (\<lambda>ch.
         chain (push_step m t) (\<lambda>t'. ok (s\<lparr>fq_writes := ch, fq_sys := t'\<rparr>)))
     | FP_Publish d \<Rightarrow>
         chain (push_step m t) (\<lambda>t'.
         ok (s\<lparr>fq_writes := release (fq_write (ring t')) (fq_writes s), fq_sys := t'\<rparr>)))"

definition weak_pop :: "nat \<Rightarrow> nat \<Rightarrow> fq_threads \<Rightarrow> fq_threads run" where
  "weak_pop k room s = (let t = fq_sys s; q = ring t; r = fq_read q; n = length (buffer q) in
     case popper t of
       FC_Idle \<Rightarrow>
         (case acquire k (fq_writes s) of (w, ch) \<Rightarrow>
          ok (s\<lparr>fq_writes := ch, fq_sys := if r = w then t else t\<lparr>popper := FC_Header w\<rparr>\<rparr>))
     | FC_Header w \<Rightarrow>
         chain (access_range n r kHeader (fq_reads s) (fq_writes s)) (\<lambda>ch.
         chain (pop_step room t) (\<lambda>t'. ok (s\<lparr>fq_reads := ch, fq_sys := t'\<rparr>)))
     | FC_Payload sz \<Rightarrow>
         chain (access_range n (r + of_nat kHeader) (unat sz) (fq_reads s) (fq_writes s)) (\<lambda>ch.
         chain (pop_step room t) (\<lambda>t'. ok (s\<lparr>fq_reads := ch, fq_sys := t'\<rparr>)))
     | FC_Publish sz bs \<Rightarrow>
         chain (pop_step room t) (\<lambda>t'.
         ok (s\<lparr>fq_reads := release (fq_read (ring t')) (fq_reads s), fq_sys := t'\<rparr>)))"

inductive fq_executes :: "nat \<Rightarrow> fq_threads \<Rightarrow> fq_threads \<Rightarrow> bool" for room start where
  fqx_start: "fq_executes room start start"
| fqx_push: "fq_executes room start s \<Longrightarrow> sendable m \<Longrightarrow> weak_push k m s = ok s' \<Longrightarrow> fq_executes room start s'"
| fqx_pop: "fq_executes room start s \<Longrightarrow> weak_pop k room s = ok s' \<Longrightarrow> fq_executes room start s'"

section \<open>The invariant\<close>

text \<open>How far a side has accessed beyond its published cursor.\<close>

fun bytes_in :: "fq_producer \<Rightarrow> nat" where
  "bytes_in (FP_Payload d) = 4"
| "bytes_in (FP_Publish d) = 4 + length d"
| "bytes_in _ = 0"

fun bytes_out :: "fq_consumer \<Rightarrow> nat" where
  "bytes_out (FC_Payload sz) = 4"
| "bytes_out (FC_Publish sz bs) = 4 + length bs"
| "bytes_out _ = 0"

text \<open>
  Every store of the write cursor that is not behind the read cursor lies between two messages, so a
  consumer that loads it sees whole messages.
\<close>

definition boundaries :: "nat \<Rightarrow> nat list \<Rightarrow> byte list list \<Rightarrow> bool" where
  "boundaries r W ms \<longleftrightarrow> (\<forall>v \<in> set W. r \<le> v \<longrightarrow> (\<exists>as bs. ms = as @ bs \<and> v = r + length (wire as)))"

definition producer_room :: "nat \<Rightarrow> nat \<Rightarrow> nat \<Rightarrow> fq_producer \<Rightarrow> bool" where
  "producer_room w l n p \<longleftrightarrow> (case in_hand p of None \<Rightarrow> True | Some d \<Rightarrow> w + 4 + length d \<le> l + n)"

definition consumer_sees :: "nat \<Rightarrow> nat \<Rightarrow> byte list list \<Rightarrow> fq_consumer \<Rightarrow> bool" where
  "consumer_sees r l ms p \<longleftrightarrow> (case p of FC_Idle \<Rightarrow> True
     | FC_Publish sz bs \<Rightarrow> ms \<noteq> [] \<and> bs = hd ms \<and> r + 4 + length (hd ms) \<le> l
     | _ \<Rightarrow> ms \<noteq> [] \<and> r + 4 + length (hd ms) \<le> l)"

definition fq_threads_rep :: "fq_threads \<Rightarrow> nat \<Rightarrow> nat list \<Rightarrow> nat list \<Rightarrow> byte list list \<Rightarrow> bool" where
  "fq_threads_rep s n R W ms \<longleftrightarrow>
     (let r = last R; w = last W in
      fq_system_rep (fq_sys s) n r ms \<and> r + length (wire ms) = w \<and> w \<le> loaded (fq_reads s) R + n \<and>
      channel_rep (fq_writes s) n W (w + bytes_in (pusher (fq_sys s))) \<and>
      channel_rep (fq_reads s) n R (r + bytes_out (popper (fq_sys s))) \<and>
      r \<le> loaded (fq_writes s) W \<and> boundaries r W ms \<and>
      producer_room w (loaded (fq_reads s) R) n (pusher (fq_sys s)) \<and>
      consumer_sees r (loaded (fq_writes s) W) ms (popper (fq_sys s)))"

lemma fq_threads_repD:
  assumes "fq_threads_rep s n R W ms"
  shows "fq_system_rep (fq_sys s) n (last R) ms" "last R + length (wire ms) = last W"
    "channel_rep (fq_writes s) n W (last W + bytes_in (pusher (fq_sys s)))"
    "channel_rep (fq_reads s) n R (last R + bytes_out (popper (fq_sys s)))"
    "last R \<le> loaded (fq_writes s) W" "boundaries (last R) W ms"
    "producer_room (last W) (loaded (fq_reads s) R) n (pusher (fq_sys s))"
    "consumer_sees (last R) (loaded (fq_writes s) W) ms (popper (fq_sys s))"
    "loaded (fq_reads s) R \<le> last R" "loaded (fq_writes s) W \<le> last W" "last W \<le> loaded (fq_reads s) R + n"
  using assms loaded_last unfolding fq_threads_rep_def Let_def by blast+

section \<open>What the copies and the publications do\<close>

fun push_next :: "fq_producer \<Rightarrow> fq_producer" where
  "push_next (FP_Header d) = FP_Payload d"
| "push_next (FP_Payload d) = FP_Publish d"
| "push_next _ = FP_Idle"

lemma push_step_result:
  assumes rep: "fq_system_rep t n r ms" and m: "sendable m" and p: "pusher t \<noteq> FP_Idle"
  obtains t' where "push_step m t = ok t'"
    "fq_system_rep t' n r (case pusher t of FP_Publish d \<Rightarrow> ms @ [d] | _ \<Rightarrow> ms)"
    "popper t' = popper t" "pusher t' = push_next (pusher t)"
proof -
  obtain t' ms' where t': "push_step m t = ok t'" "fq_system_rep t' n r ms'" using push_step_keeps [OF rep m] by blast
  have "popper t' = popper t" "pusher t' = push_next (pusher t)" "popped t' = popped t"
    "pushed t' = pushed t @ (case pusher t of FP_Publish d \<Rightarrow> [d] | _ \<Rightarrow> [])"
    using t'(1) p by (auto simp: push_step_def Let_def chain_eq_ok split: fq_producer.splits)
  moreover from this have "ms' = (case pusher t of FP_Publish d \<Rightarrow> ms @ [d] | _ \<Rightarrow> ms)"
    using system_repD(7) [OF t'(2)] system_repD(7) [OF rep] by (auto split: fq_producer.splits)
  ultimately show ?thesis using that t' by metis
qed

lemma pop_step_result:
  assumes rep: "fq_system_rep t n r ms" and room: "n \<le> room" and p: "popper t \<noteq> FC_Idle"
  obtains t' where "pop_step room t = ok t'"
    "fq_system_rep t' n (read_to r (popper t)) (case popper t of FC_Publish sz bs \<Rightarrow> tl ms | _ \<Rightarrow> ms)"
    "pusher t' = pusher t"
    "\<And>w. popper t = FC_Header w \<Longrightarrow> \<exists>sz. popper t' = FC_Payload sz"
    "\<And>sz. popper t = FC_Payload sz \<Longrightarrow> popper t' = FC_Publish sz (hd ms)"
    "\<And>sz bs. popper t = FC_Publish sz bs \<Longrightarrow> popper t' = FC_Idle"
proof -
  obtain t' ms' where t': "pop_step room t = ok t'" "fq_system_rep t' n (read_to r (popper t)) ms'"
    using pop_step_keeps [OF rep room] by blast
  have e: "pusher t' = pusher t" "pushed t' = pushed t"
    "popped t' = popped t @ (case popper t of FC_Publish sz bs \<Rightarrow> [bs] | _ \<Rightarrow> [])"
    using t'(1) p by (auto simp: pop_step_def Let_def chain_eq_ok split: fq_consumer.splits if_splits)
  then have "ms' = (case popper t of FC_Publish sz bs \<Rightarrow> tl ms | _ \<Rightarrow> ms)"
    using system_repD(7) [OF t'(2)] system_repD(7) [OF rep] by (auto split: fq_consumer.splits)
  moreover have "\<exists>sz. popper t' = FC_Payload sz" if "popper t = FC_Header w" for w
    using t'(1) that by (auto simp: pop_step_def Let_def chain_eq_ok split: if_splits)
  moreover have "popper t' = FC_Publish sz (hd ms)" if c: "popper t = FC_Payload sz" for sz
  proof -
    obtain bs where "popper t' = FC_Publish sz bs"
      using t'(1) c by (auto simp: pop_step_def Let_def chain_eq_ok)
    with system_repD(8) [OF t'(2)] calculation(1) c show ?thesis by simp
  qed
  moreover have "popper t' = FC_Idle" if "popper t = FC_Publish sz bs" for sz bs
    using t'(1) that by (auto simp: pop_step_def Let_def)
  ultimately show ?thesis using that t' e(1) by metis
qed

lemma boundaries_push:
  assumes "boundaries r W ms" "r + length (wire ms) = w"
  shows "boundaries r (W @ [w + 4 + length d]) (ms @ [d])"
proof -
  have "\<exists>as bs. ms @ [d] = as @ bs \<and> v = r + length (wire as)" if v: "v \<in> set (W @ [w + 4 + length d])" "r \<le> v" for v
  proof (cases "v \<in> set W")
    case True
    then obtain as bs where "ms = as @ bs" "v = r + length (wire as)" using assms(1) v(2) by (auto simp: boundaries_def)
    then show ?thesis by (intro exI [of _ as] exI [of _ "bs @ [d]"]) simp
  next
    case False
    then show ?thesis using v assms(2) by (intro exI [of _ "ms @ [d]"] exI [of _ "[]"]) auto
  qed
  then show ?thesis by (simp add: boundaries_def)
qed

lemma boundaries_pop:
  assumes "boundaries r W (m # ms)"
  shows "boundaries (r + 4 + length m) W ms"
  unfolding boundaries_def
proof (intro ballI impI)
  fix v
  assume v: "v \<in> set W" "r + 4 + length m \<le> v"
  then obtain as bs where "m # ms = as @ bs" "v = r + length (wire as)" using assms by (auto simp: boundaries_def)
  with v(2) show "\<exists>as bs. ms = as @ bs \<and> v = r + 4 + length m + length (wire as)"
    by (cases as) (auto simp: add.assoc)
qed

lemma boundaries_front:
  assumes "boundaries r W ms" "v \<in> set W" "r < v"
  shows "ms \<noteq> []" "r + 4 + length (hd ms) \<le> v"
proof -
  obtain as bs where a: "ms = as @ bs" "v = r + length (wire as)" using assms by (fastforce simp: boundaries_def)
  then obtain x xs where "as = x # xs" using assms(3) by (cases as) auto
  with a show "ms \<noteq> []" "r + 4 + length (hd ms) \<le> v" by auto
qed

section \<open>The steps keep the invariant\<close>

lemma bytes_out_le:
  assumes "fq_threads_rep s n R W ms"
  shows "last R + bytes_out (popper (fq_sys s)) \<le> loaded (fq_writes s) W"
  using fq_threads_repD(5,8) [OF assms] by (cases "popper (fq_sys s)") (auto simp: consumer_sees_def)

lemma bytes_in_le:
  assumes "fq_threads_rep s n R W ms"
  shows "last W + bytes_in (pusher (fq_sys s)) \<le> loaded (fq_reads s) R + n"
  using fq_threads_repD(7,11) [OF assms] by (cases "pusher (fq_sys s)") (auto simp: producer_room_def)

lemma producer_bytes:
  assumes rep: "fq_threads_rep s n R W ms" and p: "p = last W + bytes_in (pusher (fq_sys s))" "p + l \<le> loaded (fq_reads s) R + n"
  shows "\<exists>ch. access_range n (of_nat p) l (fq_writes s) (fq_reads s) = ok ch \<and> channel_rep ch n W (p + l) \<and>
    seen ch = seen (fq_writes s)"
proof -
  note d = fq_threads_repD [OF rep]
  have "last R + bytes_out (popper (fq_sys s)) \<le> last W" using bytes_out_le [OF rep] d(10) by linarith
  with access_range_rep [OF system_repD(2) [OF d(1)] d(3) d(4), folded p(1), of l] p show ?thesis by auto
qed

lemma consumer_bytes:
  assumes rep: "fq_threads_rep s n R W ms" and p: "p = last R + bytes_out (popper (fq_sys s))" "p + l \<le> loaded (fq_writes s) W"
  shows "\<exists>ch. access_range n (of_nat p) l (fq_reads s) (fq_writes s) = ok ch \<and> channel_rep ch n R (p + l) \<and>
    seen ch = seen (fq_reads s)"
proof -
  note d = fq_threads_repD [OF rep]
  have "last W + bytes_in (pusher (fq_sys s)) \<le> last R + n" using bytes_in_le [OF rep] d(9) by linarith
  with access_range_rep [OF system_repD(2) [OF d(1)] d(4) d(3), folded p(1), of l] p show ?thesis by auto
qed

text \<open>The producer, between calls, copying and publishing.\<close>

lemma weak_push_idle:
  assumes rep: "fq_threads_rep s n R W ms" and m: "sendable m" and idle: "pusher (fq_sys s) = FP_Idle"
  shows "\<exists>s' W' ms'. weak_push k m s = ok s' \<and> fq_threads_rep s' n R W' ms'"
proof -
  let ?t = "fq_sys s" and ?w = "last W"
  note d = fq_threads_repD [OF rep]
  note y = system_repD [OF d(1)]
  have w: "fq_write (ring ?t) = of_nat ?w" using y(5) d(2) by simp
  obtain j where j: "acquire k (fq_reads s) = (of_nat (R ! j), (fq_reads s)\<lparr>seen := j\<rparr>)"
    "channel_rep ((fq_reads s)\<lparr>seen := j\<rparr>) n R (last R + bytes_out (popper ?t))" "loaded (fq_reads s) R \<le> R ! j"
    "R ! j \<le> last R" by (rule acquire_rep [OF d(4)])
  have need: "of_nat kHeader + (ucast (of_nat (length m) :: 32 word) :: cursor) = of_nat (4 + length m)"
    using size_word [OF m] by (simp add: kHeader_def)
  have used: "of_nat ?w - of_nat (R ! j) = (of_nat (?w - R ! j) :: cursor)"
    using j(4) d(2) by (intro cursor_diff_of_nat) linarith
  have l: "?w - R ! j \<le> n" "4 + length m < 2 ^ 33" "R ! j \<le> ?w" using d(2,11) j(3,4) m by (auto simp: sendable_def)
  let ?go = "fq_capacity (ring ?t) - (of_nat ?w - of_nat (R ! j)) < of_nat (4 + length m)"
  have check: "?go \<longleftrightarrow> n < (?w - R ! j) + (4 + length m)" unfolding used by (rule room_check [OF y(1) l(1,2)])
  let ?t' = "if ?go then ?t else ?t\<lparr>pusher := FP_Header m\<rparr>"
  let ?s = "s\<lparr>fq_reads := (fq_reads s)\<lparr>seen := j\<rparr>, fq_sys := ?t'\<rparr>"
  have fit: "?w + (4 + length m) \<le> R ! j + n" "length (wire ms) + 4 + length m \<le> n" if "\<not> ?go"
    using that check l(3) d(2) j(4) by linarith+
  have "weak_push k m s = ok ?s" unfolding weak_push_def Let_def idle fq_producer.case j(1) prod.case need w ..
  moreover have "fq_threads_rep ?s n R W ms"
  proof (cases ?go)
    case go: True
    then show ?thesis using rep j idle d(11) by (simp add: fq_threads_rep_def Let_def producer_room_def)
  next
    case go: False
    have "fq_system_rep (?t\<lparr>pusher := FP_Header m\<rparr>) n (last R) ms"
      using d(1) y(9) idle m fit(2) [OF go] by (simp add: fq_system_rep_def push_ok_def)
    with go show ?thesis
      using rep j idle d(11) fit(1) [OF go] by (simp add: fq_threads_rep_def Let_def producer_room_def)
  qed
  ultimately show ?thesis by blast
qed

lemma weak_push_header:
  assumes rep: "fq_threads_rep s n R W ms" and m: "sendable m" and FP_Header: "pusher (fq_sys s) = FP_Header e"
  shows "\<exists>s' W' ms'. weak_push k m s = ok s' \<and> fq_threads_rep s' n R W' ms'"
proof -
  let ?t = "fq_sys s" and ?w = "last W"
  note d = fq_threads_repD [OF rep]
  note y = system_repD [OF d(1)]
  have w: "fq_write (ring ?t) = of_nat ?w" using y(5) d(2) by simp
  obtain t' where t': "push_step m ?t = ok t'"
    "fq_system_rep t' n (last R) (case pusher ?t of FP_Publish d \<Rightarrow> ms @ [d] | _ \<Rightarrow> ms)"
    "popper t' = popper ?t" "pusher t' = push_next (pusher ?t)"
    by (rule push_step_result [OF d(1) m]) (simp add: FP_Header)
  from FP_Header have room: "?w + 4 + length e \<le> loaded (fq_reads s) R + n" using d(7) by (simp add: producer_room_def)
  from FP_Header room obtain ch where c: "access_range n (of_nat ?w) 4 (fq_writes s) (fq_reads s) = ok ch"
    "channel_rep ch n W (?w + 4)" "seen ch = seen (fq_writes s)" using producer_bytes [OF rep, of ?w 4] by auto
  have "weak_push k m s = ok (s\<lparr>fq_writes := ch, fq_sys := t'\<rparr>)"
    unfolding weak_push_def Let_def FP_Header fq_producer.case w y(3) kHeader_def c(1) t'(1) chain.simps ..
  moreover have "fq_threads_rep (s\<lparr>fq_writes := ch, fq_sys := t'\<rparr>) n R W ms"
    using rep FP_Header t'(2-4) c(2,3) room by (simp add: fq_threads_rep_def Let_def producer_room_def)
  ultimately show ?thesis by blast
qed

lemma weak_push_payload:
  assumes rep: "fq_threads_rep s n R W ms" and m: "sendable m" and FP_Payload: "pusher (fq_sys s) = FP_Payload e"
  shows "\<exists>s' W' ms'. weak_push k m s = ok s' \<and> fq_threads_rep s' n R W' ms'"
proof -
  let ?t = "fq_sys s" and ?w = "last W"
  note d = fq_threads_repD [OF rep]
  note y = system_repD [OF d(1)]
  have w: "fq_write (ring ?t) = of_nat ?w" using y(5) d(2) by simp
  obtain t' where t': "push_step m ?t = ok t'"
    "fq_system_rep t' n (last R) (case pusher ?t of FP_Publish d \<Rightarrow> ms @ [d] | _ \<Rightarrow> ms)"
    "popper t' = popper ?t" "pusher t' = push_next (pusher ?t)"
    by (rule push_step_result [OF d(1) m]) (simp add: FP_Payload)
  from FP_Payload have room: "?w + 4 + length e \<le> loaded (fq_reads s) R + n" using d(7) by (simp add: producer_room_def)
  from FP_Payload room obtain ch where c:
    "access_range n (of_nat (?w + 4)) (length e) (fq_writes s) (fq_reads s) = ok ch"
    "channel_rep ch n W (?w + 4 + length e)" "seen ch = seen (fq_writes s)" using producer_bytes [OF rep, of "?w + 4" "length e"] by auto
  have p: "of_nat ?w + of_nat 4 = (of_nat (?w + 4) :: cursor)" by simp
  have "weak_push k m s = ok (s\<lparr>fq_writes := ch, fq_sys := t'\<rparr>)"
    unfolding weak_push_def Let_def FP_Payload fq_producer.case w y(3) kHeader_def p c(1) t'(1) chain.simps ..
  moreover have "fq_threads_rep (s\<lparr>fq_writes := ch, fq_sys := t'\<rparr>) n R W ms"
    using rep FP_Payload t'(2-4) c(2,3) room by (simp add: fq_threads_rep_def Let_def producer_room_def add.assoc)
  ultimately show ?thesis by blast
qed

lemma weak_push_publish:
  assumes rep: "fq_threads_rep s n R W ms" and m: "sendable m" and FP_Publish: "pusher (fq_sys s) = FP_Publish e"
  shows "\<exists>s' W' ms'. weak_push k m s = ok s' \<and> fq_threads_rep s' n R W' ms'"
proof -
  let ?t = "fq_sys s" and ?w = "last W"
  note d = fq_threads_repD [OF rep]
  note y = system_repD [OF d(1)]
  obtain t' where t': "push_step m ?t = ok t'"
    "fq_system_rep t' n (last R) (case pusher ?t of FP_Publish d \<Rightarrow> ms @ [d] | _ \<Rightarrow> ms)"
    "popper t' = popper ?t" "pusher t' = push_next (pusher ?t)"
    by (rule push_step_result [OF d(1) m]) (simp add: FP_Publish)
  let ?v = "?w + 4 + length e"
  have room: "?v \<le> loaded (fq_reads s) R + n" using d(7) FP_Publish by (simp add: producer_room_def)
  have fw: "fq_write (ring t') = of_nat ?v" and lw: "last R + length (wire (ms @ [e])) = ?v"
    using system_repD(5) [OF t'(2)] FP_Publish d(2) by (simp_all add: add.assoc [symmetric])
  let ?ch = "release (of_nat ?v) (fq_writes s)"
  have c: "channel_rep ?ch n (W @ [?v]) ?v" using release_rep [OF d(3), of ?v] FP_Publish by (simp add: add.assoc)
  note ld = release_loaded [OF d(3)]
  have "weak_push k m s = ok (s\<lparr>fq_writes := ?ch, fq_sys := t'\<rparr>)"
    unfolding weak_push_def Let_def FP_Publish fq_producer.case t'(1) chain.simps fw ..
  moreover have "consumer_sees (last R) (loaded (fq_writes s) W) (ms @ [e]) (popper ?t)"
    using d(8) by (auto simp: consumer_sees_def split: fq_consumer.splits)
  moreover have "boundaries (last R) (W @ [?v]) (ms @ [e])" by (rule boundaries_push [OF d(6,2)])
  ultimately have "weak_push k m s = ok (s\<lparr>fq_writes := ?ch, fq_sys := t'\<rparr>) \<and>
      fq_threads_rep (s\<lparr>fq_writes := ?ch, fq_sys := t'\<rparr>) n R (W @ [?v]) (ms @ [e])"
    using rep FP_Publish t'(2-4) c ld lw room by (simp add: fq_threads_rep_def Let_def producer_room_def)
  then show ?thesis by blast
qed

lemma weak_push_keeps:
  assumes rep: "fq_threads_rep s n R W ms" and m: "sendable m"
  shows "\<exists>s' W' ms'. weak_push k m s = ok s' \<and> fq_threads_rep s' n R W' ms'"
  by (cases "pusher (fq_sys s)") (rule weak_push_idle [OF rep m] weak_push_header [OF rep m]
    weak_push_payload [OF rep m] weak_push_publish [OF rep m], assumption)+

text \<open>The consumer, likewise.\<close>

lemma weak_pop_idle:
  assumes rep: "fq_threads_rep s n R W ms" and idle: "popper (fq_sys s) = FC_Idle"
  shows "\<exists>s' R' ms'. weak_pop k room s = ok s' \<and> fq_threads_rep s' n R' W ms'"
proof -
  let ?t = "fq_sys s" and ?r = "last R"
  note d = fq_threads_repD [OF rep]
  note y = system_repD [OF d(1)]
  note cap = ring_ok_cap [OF y(1)]
  obtain j where j: "acquire k (fq_writes s) = (of_nat (W ! j), (fq_writes s)\<lparr>seen := j\<rparr>)"
    "channel_rep ((fq_writes s)\<lparr>seen := j\<rparr>) n W (last W + bytes_in (pusher ?t))" "loaded (fq_writes s) W \<le> W ! j"
    "W ! j \<le> last W" by (rule acquire_rep [OF d(3)])
  have b: "?r \<le> W ! j" "W ! j - ?r < 2 ^ 64" "W ! j - ?r \<le> length (wire ms)" using d(2,5) j(3,4) y(6) cap by linarith+
  have eq: "fq_read (ring ?t) = of_nat (W ! j) \<longleftrightarrow> ?r = W ! j" unfolding y(4) by (rule cursor_eq_iff [OF b(1,2)])
  have mem: "W ! j \<in> set W" using j(2) by (simp add: channel_rep_def)
  let ?t' = "if fq_read (ring ?t) = of_nat (W ! j) then ?t else ?t\<lparr>popper := FC_Header (of_nat (W ! j))\<rparr>"
  let ?s = "s\<lparr>fq_writes := (fq_writes s)\<lparr>seen := j\<rparr>, fq_sys := ?t'\<rparr>"
  have "weak_pop k room s = ok ?s" unfolding weak_pop_def Let_def idle fq_consumer.case j(1) prod.case ..
  moreover have "fq_threads_rep ?s n R W ms"
  proof (cases "?r = W ! j")
    case go: True
    then have "?t' = ?t" using eq by simp
    then show ?thesis using rep j(2) b(1) idle by (simp only:) (simp add: fq_threads_rep_def Let_def consumer_sees_def)
  next
    case False
    then have t': "?t' = ?t\<lparr>popper := FC_Header (of_nat (W ! j))\<rparr>" using eq by simp
    have f: "ms \<noteq> []" "?r + 4 + length (hd ms) \<le> W ! j" using boundaries_front [OF d(6) mem] b(1) False by auto
    have "pop_ok ?r ms (FC_Header (of_nat (W ! j)))"
      using f b(1,3) by (auto intro!: exI [of _ "W ! j - ?r"])
    then have "fq_system_rep (?t\<lparr>popper := FC_Header (of_nat (W ! j))\<rparr>) n ?r ms"
      using d(1) by (simp add: fq_system_rep_def)
    with t' show ?thesis using rep j(2) b(1) idle f
      by (simp only:) (simp add: fq_threads_rep_def Let_def consumer_sees_def)
  qed
  ultimately show ?thesis by blast
qed

lemma weak_pop_header:
  assumes rep: "fq_threads_rep s n R W ms" and room: "n \<le> room" and FC_Header: "popper (fq_sys s) = FC_Header w"
  shows "\<exists>s' R' ms'. weak_pop k room s = ok s' \<and> fq_threads_rep s' n R' W ms'"
proof -
  let ?t = "fq_sys s" and ?r = "last R"
  note d = fq_threads_repD [OF rep]
  note y = system_repD [OF d(1)]
  obtain t' where t': "pop_step room ?t = ok t'"
    "fq_system_rep t' n (read_to ?r (popper ?t)) (case popper ?t of FC_Publish sz bs \<Rightarrow> tl ms | _ \<Rightarrow> ms)"
    "pusher t' = pusher ?t" "\<And>w. popper ?t = FC_Header w \<Longrightarrow> \<exists>sz. popper t' = FC_Payload sz"
    "\<And>sz. popper ?t = FC_Payload sz \<Longrightarrow> popper t' = FC_Publish sz (hd ms)"
    "\<And>sz bs. popper ?t = FC_Publish sz bs \<Longrightarrow> popper t' = FC_Idle"
    by (rule pop_step_result [OF d(1) room]) (simp add: FC_Header, blast)
  from FC_Header have v: "ms \<noteq> []" "?r + 4 + length (hd ms) \<le> loaded (fq_writes s) W" using d(8) by (simp_all add: consumer_sees_def)
  obtain sz where sz: "popper t' = FC_Payload sz" using t'(4) FC_Header by blast
  obtain ch where c: "access_range n (of_nat ?r) 4 (fq_reads s) (fq_writes s) = ok ch"
    "channel_rep ch n R (?r + 4)" "seen ch = seen (fq_reads s)" using consumer_bytes [OF rep, of ?r 4] FC_Header v by auto
  have "weak_pop k room s = ok (s\<lparr>fq_reads := ch, fq_sys := t'\<rparr>)"
    unfolding weak_pop_def Let_def FC_Header fq_consumer.case y(3,4) kHeader_def c(1) t'(1) chain.simps ..
  moreover have "fq_threads_rep (s\<lparr>fq_reads := ch, fq_sys := t'\<rparr>) n R W ms"
    using rep FC_Header t'(2,3) sz c(2,3) v by (simp add: fq_threads_rep_def Let_def consumer_sees_def)
  ultimately show ?thesis by blast
qed

lemma weak_pop_payload:
  assumes rep: "fq_threads_rep s n R W ms" and room: "n \<le> room" and FC_Payload: "popper (fq_sys s) = FC_Payload sz"
  shows "\<exists>s' R' ms'. weak_pop k room s = ok s' \<and> fq_threads_rep s' n R' W ms'"
proof -
  let ?t = "fq_sys s" and ?r = "last R"
  note d = fq_threads_repD [OF rep]
  note y = system_repD [OF d(1)]
  obtain t' where t': "pop_step room ?t = ok t'"
    "fq_system_rep t' n (read_to ?r (popper ?t)) (case popper ?t of FC_Publish sz bs \<Rightarrow> tl ms | _ \<Rightarrow> ms)"
    "pusher t' = pusher ?t" "\<And>w. popper ?t = FC_Header w \<Longrightarrow> \<exists>sz. popper t' = FC_Payload sz"
    "\<And>sz. popper ?t = FC_Payload sz \<Longrightarrow> popper t' = FC_Publish sz (hd ms)"
    "\<And>sz bs. popper ?t = FC_Publish sz bs \<Longrightarrow> popper t' = FC_Idle"
    by (rule pop_step_result [OF d(1) room]) (simp add: FC_Payload, blast)
  from FC_Payload have v: "ms \<noteq> []" "?r + 4 + length (hd ms) \<le> loaded (fq_writes s) W" using d(8) by (simp_all add: consumer_sees_def)
  have "sendable (hd ms)" using v(1) d(1) by (cases ms) (simp_all add: fq_system_rep_def fq_rep_def)
  then have sz: "unat sz = length (hd ms)"
    using y(8) FC_Payload by (simp add: sendable_def unsigned_of_nat take_bit_nat_eq_self)
  obtain ch where c: "access_range n (of_nat (?r + 4)) (length (hd ms)) (fq_reads s) (fq_writes s) = ok ch"
    "channel_rep ch n R (?r + 4 + length (hd ms))" "seen ch = seen (fq_reads s)"
    using consumer_bytes [OF rep, of "?r + 4" "length (hd ms)"] FC_Payload v by auto
  have p: "of_nat ?r + of_nat 4 = (of_nat (?r + 4) :: cursor)" by simp
  have "weak_pop k room s = ok (s\<lparr>fq_reads := ch, fq_sys := t'\<rparr>)"
    unfolding weak_pop_def Let_def FC_Payload fq_consumer.case y(3,4) kHeader_def p sz c(1) t'(1) chain.simps ..
  moreover have "fq_threads_rep (s\<lparr>fq_reads := ch, fq_sys := t'\<rparr>) n R W ms"
    using rep FC_Payload t'(2,3) t'(5) [OF FC_Payload] c(2,3) v
    by (simp add: fq_threads_rep_def Let_def consumer_sees_def add.assoc)
  ultimately show ?thesis by blast
qed

lemma weak_pop_publish:
  assumes rep: "fq_threads_rep s n R W ms" and room: "n \<le> room" and FC_Publish: "popper (fq_sys s) = FC_Publish sz bs"
  shows "\<exists>s' R' ms'. weak_pop k room s = ok s' \<and> fq_threads_rep s' n R' W ms'"
proof -
  let ?t = "fq_sys s" and ?r = "last R"
  note d = fq_threads_repD [OF rep]
  note y = system_repD [OF d(1)]
  obtain t' where t': "pop_step room ?t = ok t'"
    "fq_system_rep t' n (read_to ?r (popper ?t)) (case popper ?t of FC_Publish sz bs \<Rightarrow> tl ms | _ \<Rightarrow> ms)"
    "pusher t' = pusher ?t" "\<And>w. popper ?t = FC_Header w \<Longrightarrow> \<exists>sz. popper t' = FC_Payload sz"
    "\<And>sz. popper ?t = FC_Payload sz \<Longrightarrow> popper t' = FC_Publish sz (hd ms)"
    "\<And>sz bs. popper ?t = FC_Publish sz bs \<Longrightarrow> popper t' = FC_Idle"
    by (rule pop_step_result [OF d(1) room]) (simp add: FC_Publish, blast)
  from FC_Publish have v: "ms = bs # tl ms" "?r + 4 + length bs \<le> loaded (fq_writes s) W"
    using d(8) by (auto simp: consumer_sees_def)
  let ?v = "?r + 4 + length bs" and ?xs = "tl ms"
  have fr: "fq_read (ring t') = of_nat ?v" using system_repD(4) [OF t'(2)] FC_Publish by simp
  have lw: "?v + length (wire ?xs) = last W" using d(2) by (subst (asm) v(1)) simp
  let ?ch = "release (of_nat ?v) (fq_reads s)"
  have c: "channel_rep ?ch n (R @ [?v]) ?v" using release_rep [OF d(4), of ?v] FC_Publish by (simp add: add.assoc)
  note ld = release_loaded [OF d(4)]
  have "boundaries ?v W ?xs" using d(6) boundaries_pop [of ?r W bs ?xs] v(1) by simp
  moreover have "weak_pop k room s = ok (s\<lparr>fq_reads := ?ch, fq_sys := t'\<rparr>)"
    unfolding weak_pop_def Let_def FC_Publish fq_consumer.case t'(1) chain.simps fr ..
  ultimately have "weak_pop k room s = ok (s\<lparr>fq_reads := ?ch, fq_sys := t'\<rparr>) \<and>
      fq_threads_rep (s\<lparr>fq_reads := ?ch, fq_sys := t'\<rparr>) n (R @ [?v]) W ?xs"
    using rep FC_Publish t'(2,3) t'(6) [OF FC_Publish] c ld lw v(2)
    by (simp add: fq_threads_rep_def Let_def consumer_sees_def)
  then show ?thesis by blast
qed

lemma weak_pop_keeps:
  assumes rep: "fq_threads_rep s n R W ms" and room: "n \<le> room"
  shows "\<exists>s' R' ms'. weak_pop k room s = ok s' \<and> fq_threads_rep s' n R' W ms'"
  by (cases "popper (fq_sys s)") (rule weak_pop_idle [OF rep] weak_pop_header [OF rep room]
    weak_pop_payload [OF rep room] weak_pop_publish [OF rep room], assumption)+

lemma fq_executes_rep:
  assumes "fq_executes room start s" "fq_threads_rep start n R W ms" "n \<le> room"
  shows "\<exists>R W ms. fq_threads_rep s n R W ms"
  using assms
proof (induction rule: fq_executes.induct)
  case (fqx_push s m k s')
  then show ?case using weak_push_keeps [of s n _ _ _ m k] by fastforce
next
  case (fqx_pop s k s')
  then show ?case using weak_pop_keeps [of s n _ _ _ room k] by fastforce
qed blast

lemma fq_threads_start:
  assumes "fq_rep q n 0 []"
  shows "fq_threads_rep (fq_threads_new q) n [0] [0] []"
proof -
  have l: "length (buffer q) = n" "fq_read q = of_nat 0" "fq_write q = of_nat 0" using assms by (simp_all add: fq_rep_def)
  then show ?thesis using new_rep [OF assms] channel_new_rep [of n 0 0]
    by (simp add: fq_threads_rep_def fq_threads_new_def fq_system_new_def boundaries_def producer_room_def consumer_sees_def channel_new_def)
qed

section \<open>Properties\<close>

text \<open>
  C24: \<open>FastQueue\<close> under the C++ memory model: in every execution of its producer and consumer, however
  stale the cursors they load, the messages popped are a prefix of the messages pushed, byte for
  byte and in order; what is in flight fits the ring; and the next step of either side touches no
  byte unordered with the other side's last access to it, stays in the buffer and fails no
  assertion. (The destination is as large as the ring.)
\<close>

theorem fast_queue_weak:
  assumes "fast_queue_new cap = Some q" "unat (fq_capacity q) \<le> room" "fq_executes room (fq_threads_new q) s"
    and "length m < 2 ^ 32"
  shows "(\<exists>xs. pushed (fq_sys s) = popped (fq_sys s) @ xs \<and>
      sum_list (map (\<lambda>x. 4 + length x) xs) \<le> unat (fq_capacity (ring (fq_sys s)))) \<and>
    (\<exists>s'. weak_push k m s = ok s') \<and> (\<exists>s'. weak_pop k room s = ok s')"
proof -
  obtain n where new: "fq_rep q n 0 []" using fast_queue_new_rep [OF assms(1)] by blast
  then have n: "n \<le> room" using assms(2) ring_ok_cap [of q n] by (simp add: fq_rep_def)
  obtain R W ms where rep: "fq_threads_rep s n R W ms"
    using fq_executes_rep [OF assms(3) fq_threads_start [OF new] n] by blast
  note y = system_repD [OF fq_threads_repD(1) [OF rep]]
  have "length (wire ms) \<le> unat (fq_capacity (ring (fq_sys s)))" using y(6) ring_ok_cap [OF y(1)] by simp
  moreover have "length (wire ms) = sum_list (map (\<lambda>x. 4 + length x) ms)" by (induction ms) simp_all
  moreover have "sendable m" using assms(4) by (simp add: sendable_def)
  ultimately show ?thesis
    using weak_push_keeps [OF rep] weak_pop_keeps [OF rep n] y(7) by (metis (no_types, lifting))
qed

text \<open>A schedule: whose turn it is (\<open>Some m\<close> the producer's, \<open>None\<close> the consumer's) and what its load returns.\<close>

fun fq_turns :: "nat \<Rightarrow> (nat \<times> byte list option) list \<Rightarrow> fq_threads \<Rightarrow> fq_threads run" where
  "fq_turns room [] s = ok s"
| "fq_turns room ((k, Some m) # ts) s = chain (weak_push k m s) (fq_turns room ts)"
| "fq_turns room ((k, None) # ts) s = chain (weak_pop k room s) (fq_turns room ts)"

lemma fq_turns_execute:
  assumes "fq_turns room ts s = ok s'" "\<forall>(k, t) \<in> set ts. \<forall>m. t = Some m \<longrightarrow> sendable m" "fq_executes room start s"
  shows "fq_executes room start s'"
  using assms
  by (induction room ts s rule: fq_turns.induct) (auto simp: chain_eq_ok intro: fqx_push fqx_pop)

text \<open>
  The producer pushes a message; the consumer looks with a stale cursor and finds nothing, looks again
  and pops it; the producer has no room by the stale read cursor, then has.
\<close>

definition fq_stale :: "(nat \<times> byte list option) list" where
  "fq_stale = replicate 4 (0, Some [7, 8]) @ [(0, None)] @ replicate 4 (1, None) @
     [(0, Some [1, 2, 3, 4, 5, 6, 7])] @ replicate 3 (1, Some [1, 2, 3, 4, 5, 6, 7])"

theorem fast_queue_weak_witness:
  "\<exists>s s'. fq_turns 16 fq_stale (fq_threads_new small_queue) = ok s \<and> popped (fq_sys s) = [[7, 8]] \<and>
    pusher (fq_sys s) = FP_Publish [1, 2, 3, 4, 5, 6, 7] \<and> weak_push 0 [9] s = ok s'"
proof -
  have e: "map_option (map_sum (\<lambda>e. e) (\<lambda>s. (popped (fq_sys s), pusher (fq_sys s))))
      (fq_turns 16 fq_stale (fq_threads_new small_queue)) = ok ([[7, 8]], FP_Publish [1, 2, 3, 4, 5, 6, 7])" by code_simp
  obtain s where s: "fq_turns 16 fq_stale (fq_threads_new small_queue) = ok s"
    "popped (fq_sys s) = [[7, 8]]" "pusher (fq_sys s) = FP_Publish [1, 2, 3, 4, 5, 6, 7]" using run_map [OF e] by auto
  have "\<forall>(k, t) \<in> set fq_stale. \<forall>m. t = Some m \<longrightarrow> sendable m"
    by (auto simp: fq_stale_def sendable_def)
  from fq_turns_execute [OF s(1) this fqx_start] have x: "fq_executes 16 (fq_threads_new small_queue) s" .
  have c: "unat (fq_capacity small_queue) \<le> 16" and l: "length [9 :: byte] < 2 ^ 32" by (simp_all add: small_queue_def)
  from fast_queue_weak [OF small_queue_new c x l, of 0] s show ?thesis by blast
qed

end
