(* ===== verification/Ring_Storage.thy ===== *)
theory Ring_Storage
  imports Spsc_Queue
begin

text \<open>
  The raw storage under \<open>spsc_queue\<close>: an array of \<open>sizeof(T) * N\<close> bytes in which \<open>slot\<close> finds a cell and
  which \<open>ring_data\<close> presents as an array of \<open>T\<close>, through the shim \<open>src/utils/start_lifetime_as.hpp\<close>. The
  theory relates bytes to the cells the other theories of the queue work on. An element is the list
  of its \<open>sizeof(T)\<close> bytes; offsets are relative to \<open>storage_.data()\<close>.
\<close>

section \<open>Bytes\<close>

text \<open>\<open>memmove\<close> inside the array, and \<open>memcpy\<close> of bytes from outside into it.\<close>

definition memmove :: "nat \<Rightarrow> nat \<Rightarrow> nat \<Rightarrow> 'b list \<Rightarrow> 'b list run" where
  "memmove dst src n mem =
     (if dst + n \<le> length mem \<and> src + n \<le> length mem
      then ok (take dst mem @ take n (drop src mem) @ drop (dst + n) mem)
      else abort Bad_Index)"

definition memcpy_bytes :: "nat \<Rightarrow> 'b list \<Rightarrow> 'b list \<Rightarrow> 'b list run" where
  "memcpy_bytes dst bs mem =
     (if dst + length bs \<le> length mem then ok (take dst mem @ bs @ drop (dst + length bs) mem) else abort Bad_Index)"

text \<open>The shim: the pointer it returns and the memory.\<close>

definition start_lifetime_as_array :: "nat \<Rightarrow> nat \<Rightarrow> nat \<Rightarrow> 'b list \<Rightarrow> (nat \<times> 'b list) run" where
  "start_lifetime_as_array sz p n mem =
     (if n = 0 then ok (p, mem) else chain (memmove p p (sz * n) mem) (\<lambda>mem'. ok (p, mem')))"

definition ring_data :: "nat \<Rightarrow> nat \<Rightarrow> 'b list \<Rightarrow> (nat \<times> 'b list) run" where
  "ring_data sz N mem = start_lifetime_as_array sz 0 N mem"

definition slot :: "nat \<Rightarrow> nat \<Rightarrow> cursor \<Rightarrow> nat" where
  "slot sz N pos = masked N pos * sz"

section \<open>Bytes as cells\<close>

definition cells_of :: "nat \<Rightarrow> nat \<Rightarrow> 'b list \<Rightarrow> 'b list list" where
  "cells_of sz N mem = map (\<lambda>i. take sz (drop (i * sz) mem)) [0..<N]"

lemma length_cells_of [simp]: "length (cells_of sz N mem) = N"
  by (simp add: cells_of_def)

lemma cells_of_Suc: "cells_of sz (Suc N) mem = take sz mem # cells_of sz N (drop sz mem)"
proof -
  have "map (\<lambda>i. take sz (drop (i * sz) mem)) (map Suc [0..<N]) = map (\<lambda>i. take sz (drop (i * sz) (drop sz mem))) [0..<N]"
    by (simp add: add.commute)
  then show ?thesis unfolding cells_of_def upt_conv_Cons [OF zero_less_Suc] map_Suc_upt [symmetric] by simp
qed

lemma cells_of_append:
  assumes "length xs = m * sz"
  shows "cells_of sz (m + n) (xs @ ys) = cells_of sz m xs @ cells_of sz n ys"
  using assms
proof (induction m arbitrary: xs)
  case 0
  then show ?case by (simp add: cells_of_def)
next
  case (Suc m)
  then have "length (drop sz xs) = m * sz" by simp
  from Suc.IH [OF this] Suc.prems show ?case by (simp add: cells_of_Suc)
qed

lemma cells_of_concat: "\<forall>x \<in> set xs. length x = sz \<Longrightarrow> cells_of sz (length xs) (concat xs) = xs"
proof (induction xs)
  case (Cons x xs)
  then show ?case by (simp add: cells_of_Suc)
qed (simp add: cells_of_def)

lemma length_concat_cells: "\<forall>x \<in> set xs. length x = sz \<Longrightarrow> length (concat xs) = length xs * sz"
  by (induction xs) simp_all

lemma cells_of_split:
  assumes "length mem = N * sz" "k \<le> N"
  shows "cells_of sz N mem = cells_of sz k (take (k * sz) mem) @ cells_of sz (N - k) (drop (k * sz) mem)"
proof -
  have "k * sz \<le> N * sz" using assms(2) by (rule mult_le_mono1)
  then have "length (take (k * sz) mem) = k * sz" using assms(1) by (simp only: length_take min_absorb2)
  from cells_of_append [OF this, of "N - k" "drop (k * sz) mem"] assms(2) show ?thesis by simp
qed

lemma take_cells_of: "length mem = N * sz \<Longrightarrow> k \<le> N \<Longrightarrow> take k (cells_of sz N mem) = cells_of sz k (take (k * sz) mem)"
  by (simp add: cells_of_split [of mem N sz k])

lemma drop_cells_of: "length mem = N * sz \<Longrightarrow> k \<le> N \<Longrightarrow> drop k (cells_of sz N mem) = cells_of sz (N - k) (drop (k * sz) mem)"
  by (simp add: cells_of_split [of mem N sz k])

text \<open>Moving an array onto itself changes nothing.\<close>

lemma memmove_self: "p + n \<le> length mem \<Longrightarrow> memmove p p n mem = ok mem"
proof -
  assume a: "p + n \<le> length mem"
  have "take n (drop p mem) @ drop (p + n) mem = drop p mem"
    using append_take_drop_id [of n "drop p mem"] by (simp add: add.commute)
  with a show ?thesis by (simp add: memmove_def)
qed

section \<open>Properties\<close>

text \<open>
  C38: the byte array is the ring of cells: viewing it as an array of \<open>T\<close> moves no byte; the slot of a
  cursor lies inside it and holds exactly the cell the masked cursor names; and a \<open>memcpy\<close> of whole
  elements at a slot is the copy of cells that the model of the queue makes, with every other cell
  untouched.
\<close>

theorem storage_is_cells:
  assumes "power_of_two N" "length mem = N * sz" "k + length xs \<le> N" "\<forall>x \<in> set xs. length x = sz"
  shows "ring_data sz N mem = ok (0, mem) \<and>
    slot sz N pos + sz \<le> length mem \<and> take sz (drop (slot sz N pos) mem) = cells_of sz N mem ! masked N pos \<and>
    (\<exists>mem'. memcpy_bytes (k * sz) (concat xs) mem = ok mem' \<and> length mem' = N * sz \<and>
      memcpy_in k xs 0 (length xs) (map Some (cells_of sz N mem)) = ok (map Some (cells_of sz N mem')))"
proof -
  have m: "masked N pos < N"
    using masked_of_nat [OF assms(1), of "unat pos"] power_of_two_bounds [OF assms(1)] by simp
  then have "Suc (masked N pos) * sz \<le> N * sz" by (intro mult_le_mono1) simp
  then have s: "slot sz N pos + sz \<le> length mem" using assms(2) by (simp add: slot_def add.commute)
  let ?n = "length xs" and ?a = "take (k * sz) mem" and ?b = "drop ((k + length xs) * sz) mem"
  have lc: "length (concat xs) = ?n * sz" by (rule length_concat_cells [OF assms(4)])
  have le: "k * sz + ?n * sz \<le> N * sz" unfolding distrib_right [symmetric] by (rule mult_le_mono1 [OF assms(3)])
  let ?mem = "?a @ concat xs @ ?b"
  have w: "memcpy_bytes (k * sz) (concat xs) mem = ok ?mem"
    using le assms(2) lc by (simp add: memcpy_bytes_def add_mult_distrib)
  have "k * sz \<le> N * sz" using le by linarith
  then have la: "length ?a = k * sz" using assms(2) by simp
  have "cells_of sz (k + (?n + (N - (k + ?n)))) ?mem = cells_of sz k ?a @ cells_of sz ?n (concat xs) @ cells_of sz (N - (k + ?n)) ?b"
    by (simp only: cells_of_append [OF la] cells_of_append [OF lc])
  moreover have "k + (?n + (N - (k + ?n))) = N" using assms(3) by simp
  ultimately have c: "cells_of sz N ?mem = take k (cells_of sz N mem) @ xs @ drop (k + ?n) (cells_of sz N mem)"
    using take_cells_of [OF assms(2), of k] drop_cells_of [OF assms(2,3)] cells_of_concat [OF assms(4)] assms(3) by simp
  have "memcpy_in k xs 0 ?n (map Some (cells_of sz N mem)) = ok (map Some (cells_of sz N ?mem))"
    using assms(3) by (simp add: memcpy_in_def c take_map drop_map)
  moreover have "length ?mem = N * sz" using la lc le assms(2) by (simp add: add_mult_distrib)
  moreover have "ring_data sz N mem = ok (0, mem)"
    using memmove_self [of 0 "sz * N" mem] assms(2) by (simp add: ring_data_def start_lifetime_as_array_def mult.commute)
  moreover have "take sz (drop (slot sz N pos) mem) = cells_of sz N mem ! masked N pos"
    using m by (simp add: cells_of_def slot_def)
  ultimately show ?thesis using s w by blast
qed

theorem storage_is_cells_witness:
  "\<exists>mem'. memcpy_bytes (1 * 2) (concat [[5, 6], [7, 8]]) [0, 1, 2, 3, 4, 9, 9, 9 :: nat] = ok mem' \<and>
    memcpy_in 1 [[5, 6], [7, 8]] 0 2 (map Some [[0, 1], [2, 3], [4, 9], [9, 9]]) = ok (map Some (cells_of 2 4 mem'))"
proof -
  let ?mem = "[0, 1, 2, 3, 4, 9, 9, 9 :: nat]" and ?xs = "[[5, 6], [7, 8 :: nat]]"
  have p: "power_of_two 4" unfolding power_of_two_def by (rule exI [of _ 2]) simp
  have h: "length ?mem = 4 * 2" "1 + length ?xs \<le> 4" "\<forall>x \<in> set ?xs. length x = 2" by simp_all
  have c: "cells_of 2 4 ?mem = [[0, 1], [2, 3], [4, 9], [9, 9]]" by code_simp
  have l: "length ?xs = 2" by simp
  obtain mem' where "memcpy_bytes (1 * 2) (concat ?xs) ?mem = ok mem'"
    "memcpy_in 1 ?xs 0 (length ?xs) (map Some (cells_of 2 4 ?mem)) = ok (map Some (cells_of 2 4 mem'))"
    using storage_is_cells [OF p h, of 0] by blast
  then show ?thesis unfolding c l by (intro exI [of _ mem']) simp
qed

end
