(* ===== verification/Book_Tests.thy ===== *)
theory Book_Tests
  imports Market_Replay
begin

text \<open>
  The test cases of \<open>src/test\<close> for the order book, the lower bound and the orders, run on the model: each
  lemma is one \<open>TEST\<close>, with the calls it makes and the observations it expects. They check the
  translation against the expectations its authors wrote down.
\<close>

section \<open>\<open>order_book.test.cpp\<close>\<close>

text \<open>A session: the trades of each call, and an observation of the book it ends in. The tests use the default capacity; here the vectors reserve for eight, which no observation reads.\<close>

definition after :: "command list \<Rightarrow> (order_book \<Rightarrow> 'a) \<Rightarrow> (trade list list \<times> 'a) run" where
  "after cs look = chain (run_all exec cs (order_book_new 8)) (\<lambda>(ts, ob). ok (ts, look ob))"

definition trade_of :: "order_id \<Rightarrow> order_id \<Rightarrow> price \<Rightarrow> int \<Rightarrow> trade" where
  "trade_of a r p v = \<lparr>aggressor = a, resting = r, tprice = p, tvolume = v\<rparr>"

abbreviation gtc :: "order_id \<Rightarrow> side \<Rightarrow> price \<Rightarrow> int \<Rightarrow> command" where
  "gtc i s p v \<equiv> Place (limit_order i s p v)"

lemma volume_at_price_aggregates:
  "after [Add BID 100 10, Add BID 100 5]
     (\<lambda>ob. [volume_at_price 100 BID ob, volume_at_price 99 BID ob, volume_at_price 100 ASK ob]) =
   ok ([[], []], [ok 15, ok 0, ok 0])"
  by code_simp

lemma best_prices_of_empty_book:
  "after [] (\<lambda>ob. (best_bid ob, best_ask ob)) = ok ([], (None, None))"
  "after [Add BID 100 10] (\<lambda>ob. (best_bid ob, best_ask ob)) = ok ([[]], (Some 100, None))"
  by code_simp+

lemma cancel_removes_resting_order:
  "after [gtc 1 BID 100 10, Cancel 1] (\<lambda>ob. (volume_at_price 100 BID ob, best_bid ob)) = ok ([[], []], (ok 0, None))"
  by code_simp

lemma cancel_unknown_id:
  "after [gtc 1 BID 100 10, Cancel 999] (volume_at_price 100 BID) = ok ([[], []], ok 10)"
  by code_simp

lemma cancel_one_of_two:
  "after [gtc 1 BID 100 10, gtc 2 BID 100 7, Cancel 1] (volume_at_price 100 BID) = ok ([[], [], []], ok 7)"
  by code_simp

lemma delete_partial:
  "after [Add BID 100 10, Delete BID 100 4] (volume_at_price 100 BID) = ok ([[], []], ok 6)"
  by code_simp

lemma delete_full_volume:
  "after [Add BID 100 10, Delete BID 100 10] (\<lambda>ob. (volume_at_price 100 BID ob, best_bid ob)) =
   ok ([[], []], (ok 0, None))"
  by code_simp

lemma delete_spanning_two_orders:
  "after [Add BID 100 4, Add BID 100 6, Delete BID 100 7] (volume_at_price 100 BID) = ok ([[], [], []], ok 3)"
  by code_simp

lemma set_level_creates:
  "after [Set_Level BID 100 25] (\<lambda>ob. (volume_at_price 100 BID ob, best_bid ob)) = ok ([[]], (ok 25, Some 100))"
  by code_simp

lemma set_level_overwrites:
  "after [Set_Level ASK 200 25, Set_Level ASK 200 7] (volume_at_price 200 ASK) = ok ([[], []], ok 7)"
  by code_simp

lemma set_level_zero:
  "after [Set_Level BID 100 25, Set_Level BID 100 0] (\<lambda>ob. (volume_at_price 100 BID ob, best_bid ob)) =
   ok ([[], []], (ok 0, None))"
  "after [Set_Level BID 100 0] best_bid = ok ([[]], None)"
  by code_simp+

lemma set_level_keeps_sorted:
  "after [Set_Level BID 100 5, Set_Level BID 102 5, Set_Level BID 101 5,
      Set_Level ASK 105 5, Set_Level ASK 103 5, Set_Level ASK 104 5] (\<lambda>ob. (best_bid ob, best_ask ob)) =
   ok ([[], [], [], [], [], []], (Some 102, Some 103))"
  "after [Set_Level BID 100 5, Set_Level BID 102 5, Set_Level BID 101 5,
      Set_Level ASK 105 5, Set_Level ASK 103 5, Set_Level ASK 104 5, Set_Level BID 102 0, Set_Level ASK 103 0]
      (\<lambda>ob. (best_bid ob, best_ask ob)) = ok ([[], [], [], [], [], [], [], []], (Some 101, Some 104))"
  by code_simp+

lemma set_level_collapses_seeded_level:
  "after [Add BID 100 4, Add BID 100 6, Set_Level BID 100 3] (volume_at_price 100 BID) = ok ([[], [], []], ok 3)"
  "after [Add BID 100 4, Add BID 100 6, Set_Level BID 100 3, Set_Level BID 100 0]
     (\<lambda>ob. (volume_at_price 100 BID ob, best_bid ob)) = ok ([[], [], [], []], (ok 0, None))"
  by code_simp+

lemma crossing_order_fully_fills:
  "after [gtc 1 ASK 100 10, gtc 2 BID 100 10] (\<lambda>ob. (best_bid ob, best_ask ob)) =
   ok ([[], [trade_of 2 1 100 10]], (None, None))"
  by code_simp

lemma partial_cross_rests:
  "after [gtc 1 ASK 100 5, gtc 2 BID 100 8] (\<lambda>ob. (best_ask ob, best_bid ob, volume_at_price 100 BID ob)) =
   ok ([[], [trade_of 2 1 100 5]], (None, Some 100, ok 3))"
  by code_simp

lemma matching_honours_time_priority:
  "after [gtc 1 ASK 100 5, gtc 2 ASK 100 5, gtc 3 BID 100 5] (volume_at_price 100 ASK) =
   ok ([[], [], [trade_of 3 1 100 5]], ok 5)"
  by code_simp

lemma crossing_sweeps_levels:
  "after [gtc 1 ASK 100 5, gtc 2 ASK 101 5, gtc 3 ASK 102 5, gtc 4 BID 101 8]
     (\<lambda>ob. (best_ask ob, volume_at_price 101 ASK ob, best_bid ob)) =
   ok ([[], [], [], [trade_of 4 1 100 5, trade_of 4 2 101 3]], (Some 101, ok 2, None))"
  by code_simp

lemma immediate_or_cancel_drops_remainder:
  "after [gtc 1 ASK 100 5, Place (limit_order 2 BID 100 8\<lparr>otype := IMMEDIATE_OR_CANCEL\<rparr>)] best_bid =
   ok ([[], [trade_of 2 1 100 5]], None)"
  by code_simp

lemma fill_or_kill_killed:
  "after [gtc 1 ASK 100 5, Place (limit_order 2 BID 100 8\<lparr>otype := FILL_OR_KILL\<rparr>)]
     (\<lambda>ob. (volume_at_price 100 ASK ob, best_bid ob)) = ok ([[], []], (ok 5, None))"
  by code_simp

lemma fill_or_kill_executes:
  "after [gtc 1 ASK 100 10, Place (limit_order 2 BID 100 8\<lparr>otype := FILL_OR_KILL\<rparr>)] (volume_at_price 100 ASK) =
   ok ([[], [trade_of 2 1 100 8]], ok 2)"
  by code_simp

section \<open>\<open>branchless_lower_bound.test.cpp\<close>\<close>

abbreviation search :: "int list \<Rightarrow> int \<Rightarrow> nat run" where
  "search v x \<equiv> branchless_lower_bound (<) (\<lambda>y. y) v x"

lemma lower_bound_edges:
  "search [] 42 = ok 0" "search [10, 20, 30] 5 = ok 0" "search [10, 20, 30] 99 = ok 3"
  "search [10, 20, 30, 40] 30 = ok 2" "search [10, 20, 30, 40] 25 = ok 2"
  by code_simp+

lemma matches_std_lower_bound:
  "list_all (\<lambda>x. search [1, 3, 3, 3, 5, 8, 13, 21] x = ok (lower_bound (<) (\<lambda>y. y) [1, 3, 3, 3, 5, 8, 13, 21] x)) [0..22]"
  by code_simp

lemma descending_range:
  "branchless_lower_bound (\<lambda>x y. x > y) (\<lambda>y. y) [105, 103, 100, 98 :: int] 103 = ok 1"
  by code_simp

section \<open>\<open>order.test.cpp\<close>\<close>

lemma order_equality:
  "order_eq (limit_order 1 BID 100 10) (limit_order 1 BID 100 10)"
  "\<not> order_eq (limit_order 1 BID 100 10) (limit_order 2 BID 100 10)"
  "\<not> order_eq (limit_order 1 BID 100 10) (limit_order 1 ASK 100 10)"
  "\<not> order_eq (limit_order 1 BID 100 10) (limit_order 1 BID 101 10)"
  "\<not> order_eq (limit_order 1 BID 100 10) (limit_order 1 BID 100 11)"
  "\<not> order_eq (limit_order 7 ASK 50 3) (limit_order 7 ASK 50 3\<lparr>otype := FILL_OR_KILL\<rparr>)"
  by code_simp+

end
