(* ===== verification/Queue_Tests.thy ===== *)
theory Queue_Tests
  imports Spsc_Properties Fast_Queue_Properties
begin

text \<open>
  Test cases of \<open>src/test/concurrent_queue\<close>, run on the model. The SPSC tests that only need
  \<open>try_emplace\<close>, and those whose elements are not trivially copyable, hold as they are written.
  \<open>EnqueuesWholeRangeInOrder\<close> and the other tests whose batch of \<open>int\<close> elements is accepted do not.
\<close>

section \<open>\<open>spsc_queue_test.cpp\<close>\<close>

text \<open>The answers of a sequence of calls on a new queue of \<open>n\<close> cells.\<close>

fun answers :: "(('a answer list \<times> 'a spsc_queue) run) \<Rightarrow> 'a answer list run" where
  "answers m = chain m (\<lambda>(rs, q). ok rs)"

abbreviation session :: "traits \<Rightarrow> nat \<Rightarrow> int queue_call list \<Rightarrow> int answer list run" where
  "session tr n cs \<equiv> answers (run_all (spsc_exec tr) cs (spsc_new n))"

lemma fills_to_capacity_then_rejects:
  "session plain 4 [Emplace 0, Emplace 1, Emplace 2, Emplace 3, Emplace 99, Size, Dequeue, Dequeue, Dequeue, Dequeue, Dequeue] =
   ok [Accepted True, Accepted True, Accepted True, Accepted True, Accepted False, Count 4,
     Front (Some 0), Front (Some 1), Front (Some 2), Front (Some 3), Front None]"
  by code_simp

lemma accepts_again_after_dequeue:
  "session plain 2 [Emplace 1, Emplace 2, Emplace 3, Dequeue_Into 0, Emplace 3, Dequeue, Dequeue, Dequeue] =
   ok [Accepted True, Accepted True, Accepted False, Stored True 1, Accepted True, Front (Some 2), Front (Some 3),
     Front None]"
  by code_simp

lemma pops_into_in_fifo_order:
  "session plain 8 [Emplace 1, Emplace 2, Emplace 3, Dequeue_Into 0, Dequeue_Into 1, Dequeue_Into 2, Dequeue_Into 3, Size] =
   ok [Accepted True, Accepted True, Accepted True, Stored True 1, Stored True 2, Stored True 3, Stored False 3, Count 0]"
  by code_simp

lemma empty_queue_answers:
  "session plain 4 [Dequeue_Into 42, Dequeue, Dequeue_Range [0, 0], Consume_Up_To 8, Consume_All, Emplace_Range [], Clear, Size] =
   ok [Stored False 42, Front None, Batch 0 [0, 0], Visited 0 [], Visited 0 [], Accepted True, Done, Count 0]"
  by code_simp

lemma rejects_range_larger_than_capacity:
  "session plain 4 [Emplace_Range [1, 2, 3, 4, 5], Size, Dequeue] = ok [Accepted False, Count 0, Front None]"
  by code_simp

lemma rejects_range_when_partially_full:
  "session plain 4 [Emplace 1, Emplace 2, Emplace_Range [3, 4, 5], Dequeue, Dequeue, Dequeue] =
   ok [Accepted True, Accepted True, Accepted False, Front (Some 1), Front (Some 2), Front None]"
  by code_simp

lemma clear_then_reuse:
  "session plain 4 [Emplace 1, Emplace 2, Clear, Size, Emplace 9, Dequeue] =
   ok [Accepted True, Accepted True, Done, Count 0, Accepted True, Front (Some 9)]"
  by code_simp

text \<open>
  The batch tests: they expect the elements of the batch in order. With elements that are not trivially
  copyable the model agrees; with \<open>int\<close> the first \<open>memcpy\<close> already reads behind the source array.
\<close>

lemma enqueues_whole_range_in_order:
  "session owning 8 [Emplace_Range [1, 2, 3, 4], Dequeue, Dequeue, Dequeue, Dequeue, Dequeue] =
   ok [Accepted True, Front (Some 1), Front (Some 2), Front (Some 3), Front (Some 4), Front None]"
  "session plain 8 [Emplace_Range [1, 2, 3, 4]] = abort Bad_Index"
  by code_simp+

lemma range_across_the_wrap:
  "session owning 4 [Emplace_Range [1, 2, 3], Dequeue, Dequeue, Dequeue, Emplace_Range [4, 5, 6, 7], Size,
     Dequeue_Range [0, 0, 0, 0]] =
   ok [Accepted True, Front (Some 1), Front (Some 2), Front (Some 3), Accepted True, Count 4, Batch 4 [4, 5, 6, 7]]"
  by code_simp

lemma succeeds_again_after_draining:
  "session owning 4 [Emplace_Range [1, 2, 3, 4], Emplace_Range [5, 6], Dequeue, Dequeue, Emplace_Range [5, 6], Size,
     Dequeue, Dequeue, Dequeue, Dequeue, Dequeue] =
   ok [Accepted True, Accepted False, Front (Some 1), Front (Some 2), Accepted True, Count 4,
     Front (Some 3), Front (Some 4), Front (Some 5), Front (Some 6), Front None]"
  by code_simp

lemma dequeue_range_caps_at_the_buffer:
  "session owning 8 [Emplace_Range [1, 2, 3, 4], Dequeue_Range [0, 0], Size, Consume_Up_To 0, Consume_Up_To 8] =
   ok [Accepted True, Batch 2 [1, 2], Count 2, Visited 0 [], Visited 2 [3, 4]]"
  by code_simp

section \<open>\<open>spsc_queue_non_pod_test.cpp\<close>\<close>

text \<open>The cells that hold a living element, the tests' \<open>Counted::alive\<close>.\<close>

definition alive :: "'a option list \<Rightarrow> nat" where
  "alive st = length (filter (\<lambda>c. c \<noteq> None) st)"

lemma destructor_destroys_unconsumed:
  "chain (run_all (spsc_exec owning) [Emplace 1, Emplace 2, Emplace (3 :: int)] (spsc_new 8)) (\<lambda>(rs, q).
     chain (spsc_delete owning q) (\<lambda>st. ok (alive (storage q), alive st))) = ok (3, 0)"
  by code_simp

lemma clear_destroys_pending:
  "chain (run_all (spsc_exec owning) [Emplace 1, Emplace (2 :: int), Clear] (spsc_new 4)) (\<lambda>(rs, q).
     ok (alive (storage q))) = ok 0"
  by code_simp

lemma rejects_without_constructing:
  "chain (run_all (spsc_exec owning) [Emplace 1, Emplace (2 :: int), Emplace 3] (spsc_new 2)) (\<lambda>(rs, q).
     ok (rs, alive (storage q))) = ok ([Accepted True, Accepted True, Accepted False], 2)"
  by code_simp

section \<open>\<open>fast_queue_test.cpp\<close>\<close>

text \<open>
  A ring of sixteen bytes, messages written as bytes. A test pushes and pops; what was accepted and
  what came out is the result.
\<close>

abbreviation byte_session :: "byte list use list \<Rightarrow> (byte list list \<times> byte list list) run" where
  "byte_session us \<equiv> chain (drive try_push receive us small_queue) (\<lambda>(ins, outs, q). ok (ins, outs))"

lemma push_then_pop_round_trips:
  "byte_session [Pop, Push [104, 101, 108, 108, 111], Pop, Pop] = ok ([[104, 101, 108, 108, 111]], [[104, 101, 108, 108, 111]])"
  by code_simp

lemma empty_payload_is_a_message: "byte_session [Push [], Pop, Pop] = ok ([[]], [[]])"
  by code_simp

lemma push_fails_without_room:
  "byte_session [Push [97, 98, 99, 100, 101, 102], Push [97, 98, 99, 100, 101, 102], Pop, Push [97], Pop] =
   ok ([[97, 98, 99, 100, 101, 102], [97]], [[97, 98, 99, 100, 101, 102], [97]])"
  by code_simp

lemma message_across_the_wrap:
  "byte_session (concat (replicate 4 [Push [119, 114, 97, 112, 115, 33], Pop])) =
   ok (replicate 4 [119, 114, 97, 112, 115, 33], replicate 4 [119, 114, 97, 112, 115, 33])"
  by code_simp

lemma capacity_is_rounded_up:
  "round_up_pow2 1000 = Some 1024" "round_up_pow2 1024 = Some 1024" "round_up_pow2 1025 = Some 2048"
  by code_simp+

end
