(* ===== verification/Depth_Tests.thy ===== *)
theory Depth_Tests
  imports Market_Replay
begin

text \<open>
  The test cases of \<open>src/test/io/binance_depth_test.cpp\<close>, run on the model. The documents of the tests
  are given as the trees a JSON reader makes of them; a text that is no document is malformed.
\<close>

section \<open>\<open>parse_scaled\<close>\<close>

lemma parse_scaled_examples:
  "parse_scaled decimal_digit ''153'' 2 = Inr 15300"
  "parse_scaled decimal_digit ''153.45'' 2 = Inr 15345"
  "parse_scaled decimal_digit ''0.999'' 2 = Inr 99"
  "parse_scaled decimal_digit ''5.1'' 3 = Inr 5100"
  "parse_scaled decimal_digit ''153.45000000'' 8 = Inr 15345000000"
  "parse_scaled decimal_digit ''-1.5'' 2 = Inr (- 150)"
  by code_simp+

lemma parse_scaled_malformed:
  "isl (parse_scaled decimal_digit [] 2)"
  "isl (parse_scaled decimal_digit ''abc'' 2)"
  "isl (parse_scaled decimal_digit ''1.2x'' 2)"
  "isl (parse_scaled decimal_digit ''1.2.3'' 2)"
  "isl (parse_scaled decimal_digit ''1.0'' (-1))"
  by code_simp+

section \<open>\<open>parse_binance_depth\<close>\<close>

definition level_of_texts :: "string \<times> string \<Rightarrow> json" where
  "level_of_texts l = J_Array [J_String (fst l), J_String (snd l)]"

definition levels_of_texts :: "(string \<times> string) list \<Rightarrow> json" where
  "levels_of_texts ls = J_Array (map level_of_texts ls)"

definition kSnapshot :: json where
  "kSnapshot = J_Object [(''lastUpdateId'', J_Number 123),
     (''bids'', levels_of_texts [(''153.45'', ''10.00''), (''153.44'', ''5.50'')]),
     (''asks'', levels_of_texts [(''153.46'', ''8.00''), (''153.47'', ''2.00'')])]"

definition kUpdate :: json where
  "kUpdate = J_Object [(''e'', J_String ''depthUpdate''), (''E'', J_Number 1571889248277), (''s'', J_String ''SOLUSDT''),
     (''U'', J_Number 390497796), (''u'', J_Number 390497878),
     (''b'', levels_of_texts [(''153.45'', ''0.00''), (''153.44'', ''5.50'')]), (''a'', levels_of_texts [(''153.46'', ''8.00'')])]"

abbreviation snapshot_of :: "json \<Rightarrow> string + depth_snapshot" where
  "snapshot_of j \<equiv> parse_binance_depth (tree_reader [(''{}'', j)]) ''{}'' 2 2"

abbreviation update_of :: "json \<Rightarrow> string + depth_update" where
  "update_of j \<equiv> parse_binance_depth_update (tree_reader [(''{}'', j)]) ''{}'' 2 2"

lemma snapshot_id_and_levels:
  "snapshot_of kSnapshot = Inr \<lparr>lastUpdateId = 123, snap_bids = [plevel 15345 1000, plevel 15344 550],
     snap_asks = [plevel 15346 800, plevel 15347 200]\<rparr>"
  by code_simp

lemma empty_book_yields_empty_levels:
  "snapshot_of (J_Object [(''lastUpdateId'', J_Number 1), (''bids'', J_Array []), (''asks'', J_Array [])]) =
   Inr \<lparr>lastUpdateId = 1, snap_bids = [], snap_asks = []\<rparr>"
  by code_simp

lemma snapshot_rejects:
  "isl (snapshot_of (J_Object [(''lastUpdateId'', J_Number 1), (''asks'', J_Array [])]))"
  "isl (snapshot_of (J_Object [(''lastUpdateId'', J_Number 1), (''bids'', levels_of_texts [(''abc'', ''1.0'')]), (''asks'', J_Array [])]))"
  "isl (parse_binance_depth (tree_reader []) ''{not json'' 2 2)"
  by code_simp+

lemma loads_into_order_book:
  "chain (add_levels BID [plevel 15345 1000, plevel 15344 550] (order_book_new 8)) (\<lambda>book.
     chain (add_levels ASK [plevel 15346 800, plevel 15347 200] book) (\<lambda>book.
     ok (best_bid book, best_ask book, volume_at_price 15344 BID book))) = ok (Some 15345, Some 15346, ok 550)"
  by code_simp

section \<open>\<open>parse_binance_depth_update\<close>\<close>

lemma update_ids_time_and_levels:
  "update_of kUpdate = Inr \<lparr>eventTime = 1571889248277, firstUpdateId = 390497796, finalUpdateId = 390497878,
     upd_bids = [plevel 15345 0, plevel 15344 550], upd_asks = [plevel 15346 800]\<rparr>"
  by code_simp

lemma update_rejects:
  "isl (update_of (J_Object [(''E'', J_Number 1), (''U'', J_Number 1), (''u'', J_Number 1), (''a'', J_Array [])]))"
  "isl (parse_binance_depth_update (tree_reader []) ''{not json'' 2 2)"
  "isl (update_of (J_Object [(''E'', J_Number 1), (''U'', J_Number 1), (''u'', J_Number 1),
      (''b'', levels_of_texts [(''153.45'', ''oops'')]), (''a'', J_Array [])]))"
  by code_simp+

section \<open>\<open>parse_binance_depth_updates\<close>\<close>

definition two_frames :: "(string \<times> json) list" where
  "two_frames =
     [(''{1}'', J_Object [(''E'', J_Number 1), (''U'', J_Number 1), (''u'', J_Number 2),
        (''b'', levels_of_texts [(''153.45'', ''1.00'')]), (''a'', J_Array [])]),
      (''{2}'', J_Object [(''E'', J_Number 2), (''U'', J_Number 3), (''u'', J_Number 4),
        (''b'', J_Array []), (''a'', levels_of_texts [(''153.46'', ''2.00'')])])]"

lemma lines_in_order_skipping_blanks:
  "parse_binance_depth_updates (tree_reader two_frames) (\<lambda>f n e. f) (''{1}'' @ [newline, newline] @ ''{2}'' @ [newline]) 2 2 =
   Inr [\<lparr>eventTime = 1, firstUpdateId = 1, finalUpdateId = 2, upd_bids = [plevel 15345 100], upd_asks = []\<rparr>,
     \<lparr>eventTime = 2, firstUpdateId = 3, finalUpdateId = 4, upd_bids = [], upd_asks = [plevel 15346 200]\<rparr>]"
  by code_simp

text \<open>The error names the line: the formatter is given its number.\<close>

lemma reports_offending_line_number:
  "parse_binance_depth_updates (tree_reader two_frames) (\<lambda>f n e. if n = 2 then ''line 2'' else e)
     (''{1}'' @ [newline] @ ''{not json}'' @ [newline]) 2 2 = Inl ''line 2''"
  by code_simp

end
